(* ===== verification/Prelude.thy ===== *)
theory Prelude
  imports Main "HOL-Library.Word" "HOL-Library.Signed_Division" "HOL-Library.Monad_Syntax"
    "HOL-Library.Multiset"
begin

text \<open>
  What every component of the development shares: the arithmetic of the C type \<open>int\<close> on
  the 32-bit targets of the repository, with undefined behaviour as \<^const>\<open>None\<close>; the
  traversal of a list by a computation that may be undefined; and the lemmas on lists and
  multisets the component proofs use.  The collection \<open>c_int\<close> holds the facts that
  evaluate a C expression once its value is known to be representable.
\<close>

unbundle bit_operations_syntax

named_theorems c_int \<open>evaluation of in-range C integer expressions\<close>

type_synonym u8 = "8 word"
type_synonym u16 = "16 word"
type_synonym u32 = "32 word"
type_synonym u64 = "64 word"

text \<open>The code of a character, an unsigned \<open>char\<close> on this target.\<close>

abbreviation ascii :: "char \<Rightarrow> u8" where
  "ascii c \<equiv> of_char c"

section \<open>The C type int\<close>

text \<open>
  A value of type \<open>int\<close> is an \<^typ>\<open>int\<close> in the range of 32-bit two's complement.  An
  operation whose mathematical result leaves the range, a division by zero and a shift
  outside the width are undefined in C and have the value \<^const>\<open>None\<close> here.
\<close>

definition in_int :: "int \<Rightarrow> bool" where
  "in_int x \<longleftrightarrow> - 2147483648 \<le> x \<and> x \<le> 2147483647"

definition ck :: "int \<Rightarrow> int option" where
  "ck x = (if in_int x then Some x else None)"

definition c_add :: "int \<Rightarrow> int \<Rightarrow> int option" where
  "c_add a b = ck (a + b)"

definition c_sub :: "int \<Rightarrow> int \<Rightarrow> int option" where
  "c_sub a b = ck (a - b)"

definition c_mul :: "int \<Rightarrow> int \<Rightarrow> int option" where
  "c_mul a b = ck (a * b)"

definition c_div :: "int \<Rightarrow> int \<Rightarrow> int option" where
  "c_div a b = (if b = 0 then None else ck (a sdiv b))"

definition c_mod :: "int \<Rightarrow> int \<Rightarrow> int option" where
  "c_mod a b = (if b = 0 \<or> \<not> in_int (a sdiv b) then None else Some (a smod b))"

definition c_shl :: "int \<Rightarrow> int \<Rightarrow> int option" where
  "c_shl a n = (if 0 \<le> n \<and> n < 32 \<and> 0 \<le> a then ck (a * 2 ^ nat n) else None)"

text \<open>The right shift of a non-negative value (a negative one is implementation-defined).\<close>

definition c_sar :: "int \<Rightarrow> int \<Rightarrow> int option" where
  "c_sar a n = (if 0 \<le> n \<and> n < 32 \<and> 0 \<le> a then Some (a div 2 ^ nat n) else None)"

definition c_bool :: "bool \<Rightarrow> int" where
  "c_bool b = (if b then 1 else 0)"

lemma ck_in [c_int]: "in_int x \<Longrightarrow> ck x = Some x"
  by (simp add: ck_def)

lemma in_int_between: "0 \<le> x \<Longrightarrow> x \<le> y \<Longrightarrow> in_int y \<Longrightarrow> in_int x"
  by (simp add: in_int_def)

lemma sdiv_nonneg: "0 \<le> a \<Longrightarrow> 0 < b \<Longrightarrow> (a::int) sdiv b = a div b"
  by (simp add: signed_divide_int_def sgn_if)

lemma smod_nonneg: "0 \<le> a \<Longrightarrow> 0 < b \<Longrightarrow> (a::int) smod b = a mod b"
  by (simp add: signed_modulo_int_def sdiv_nonneg minus_div_mult_eq_mod sgn_if)

lemma c_add_in [c_int]: "in_int (a + b) \<Longrightarrow> c_add a b = Some (a + b)"
  by (simp add: c_add_def ck_in)

lemma c_sub_in [c_int]: "in_int (a - b) \<Longrightarrow> c_sub a b = Some (a - b)"
  by (simp add: c_sub_def ck_in)

lemma c_mul_in [c_int]: "in_int (a * b) \<Longrightarrow> c_mul a b = Some (a * b)"
  by (simp add: c_mul_def ck_in)

lemma div_le_self: "0 \<le> a \<Longrightarrow> 0 < b \<Longrightarrow> (a::int) div b \<le> a"
  by (metis div_by_1 int_one_le_iff_zero_less zdiv_mono2 zero_less_one)

lemma mult_div_le: "0 < b \<Longrightarrow> b * (a div b) \<le> a" for a b :: int
  using mult_div_mod_eq [of b a] pos_mod_sign [of b a] by linarith

lemma le_div_less:
  fixes a b k :: int
  assumes "a div b \<le> k" "0 < b"
  shows "a < k * b + b"
proof -
  have "a div b * b \<le> k * b" using assms by (intro mult_right_mono) auto
  moreover have "a = a div b * b + a mod b" "a mod b < b" using assms by simp_all
  ultimately show ?thesis by linarith
qed

lemma le_divI: "0 < d \<Longrightarrow> c * d \<le> a \<Longrightarrow> c \<le> a div d" for a c d :: int
  using zdiv_mono1 [of "c * d" a d] by simp

lemma div_lessI: "0 < d \<Longrightarrow> a < c * d \<Longrightarrow> a div d < c" for a c d :: int
proof (rule ccontr)
  assume "0 < d" "a < c * d" "\<not> a div d < c"
  then have "c * d \<le> a div d * d" by (intro mult_right_mono) auto
  then show False using mult_div_le [of d a] \<open>0 < d\<close> \<open>a < c * d\<close> unfolding mult.commute [of "a div d" d] by linarith
qed

lemma div_eqI: "0 < d \<Longrightarrow> c * d \<le> a \<Longrightarrow> a < (c + 1) * d \<Longrightarrow> a div d = c" for a c d :: int
  using le_divI [of d c a] div_lessI [of d a "c + 1"] by simp

lemma div_facts:
  fixes a b :: int
  assumes "0 \<le> a" "1 \<le> b"
  shows "0 \<le> a div b" "a div b \<le> a" "a div b * b \<le> a" "0 \<le> a div b * b"
    "b * (a div b) \<le> a" "0 \<le> b * (a div b)"
  using assms div_le_self [of a b] mult_div_le [of b a]
  by (auto simp: pos_imp_zdiv_nonneg_iff mult.commute)

lemma c_div_in [c_int]:
  "0 \<le> a \<Longrightarrow> 0 < b \<Longrightarrow> in_int a \<Longrightarrow> c_div a b = Some (a div b)"
  using div_le_self [of a b] pos_imp_zdiv_nonneg_iff [of b a]
  by (simp add: c_div_def sdiv_nonneg ck_def in_int_def)

lemma c_mod_in [c_int]:
  "0 \<le> a \<Longrightarrow> 0 < b \<Longrightarrow> in_int a \<Longrightarrow> c_mod a b = Some (a mod b)"
  using div_le_self [of a b] pos_imp_zdiv_nonneg_iff [of b a]
  by (simp add: c_mod_def sdiv_nonneg smod_nonneg in_int_def)

lemma divmod_block:
  fixes m :: int
  assumes "0 \<le> t" "t < m"
  shows "(m * c + t) mod m = t" "(m * c + t) div m = c"
  using assms by simp_all

text \<open>Remainders written as \<open>a - a / b * b\<close>.\<close>

lemma c_div_rest [c_int]:
  assumes "0 \<le> a" "0 < b" "in_int a"
  shows "c_mul (a div b) b = Some (a div b * b)" "c_sub a (a div b * b) = Some (a mod b)"
proof -
  note d = div_facts [of a b]
  have "in_int (a div b * b)" "in_int (a - a div b * b)"
    using d assms unfolding in_int_def by linarith+
  then show "c_mul (a div b) b = Some (a div b * b)" "c_sub a (a div b * b) = Some (a mod b)"
    by (simp_all add: c_mul_in c_sub_in minus_div_mult_eq_mod)
qed

lemma pow2_in_int:
  assumes "0 \<le> n" "n \<le> 30"
  shows "in_int (2 ^ nat n)" "in_int (2 ^ nat n - 1)"
proof -
  have "(2::int) ^ nat n \<le> 2 ^ 30"
    using assms by (intro power_increasing) auto
  then have hi: "(2::int) ^ nat n \<le> 2147483647" by simp
  have lo: "(1::int) \<le> 2 ^ nat n" by simp
  show "in_int (2 ^ nat n)" "in_int (2 ^ nat n - 1)"
    unfolding in_int_def using lo hi by linarith+
qed

lemma c_shl_one [c_int]:
  "0 \<le> n \<Longrightarrow> n \<le> 30 \<Longrightarrow> c_shl 1 n = Some (2 ^ nat n)"
  using pow2_in_int(1) [of n] by (simp add: c_shl_def ck_def)

section \<open>Bit fields of words\<close>

lemma uint_drop_bit: "uint (drop_bit k w) = uint w div 2 ^ k" for w :: "'a::len word"
proof -
  have "take_bit LENGTH('a) (uint w) = uint w" by (simp add: take_bit_int_eq_self)
  then show ?thesis by (subst unsigned_drop_bit_eq) (simp add: drop_bit_eq_div)
qed

lemma uint_and_mask: "uint (w AND mask k) = uint w mod 2 ^ k" for w :: "'a::len word"
proof -
  have "uint (w AND mask k) = take_bit k (uint w)"
    by (simp only: unsigned_take_bit_eq flip: take_bit_eq_mask)
  then show ?thesis by (simp only: take_bit_eq_mod)
qed

text \<open>Fields that do not overlap: the bitwise or is a sum.\<close>

lemma fields_disjoint: "push_bit k a AND ucast (b AND mask k) = 0"
  for a :: "'a::len word" and b :: "'b::len word"
  by (auto simp: bit_eq_iff bit_simps)

lemma uint_up_ucast: "LENGTH('a) \<le> LENGTH('b) \<Longrightarrow> uint (ucast w :: 'b::len word) = uint w" for w :: "'a::len word"
proof -
  assume le: "LENGTH('a) \<le> LENGTH('b)"
  have "uint w < 2 ^ LENGTH('a)" by simp
  also have "\<dots> \<le> 2 ^ LENGTH('b)" using le by (intro power_increasing) auto
  finally show ?thesis by (subst unsigned_ucast_eq) (simp add: take_bit_int_eq_self)
qed

section \<open>Traversals that may be undefined\<close>

text \<open>
  \<open>traverse f xs\<close> runs \<open>f\<close> on the elements of \<open>xs\<close> and joins what they produce; it is
  undefined as soon as one of them is.
\<close>

definition traverse :: "('a \<Rightarrow> 'b list option) \<Rightarrow> 'a list \<Rightarrow> 'b list option" where
  "traverse f xs = map_option concat (those (map f xs))"

lemma traverse_Nil [simp]: "traverse f [] = Some []"
  by (simp add: traverse_def)

lemma traverse_Cons [simp]:
  "traverse f (x # xs) =
     (case f x of None \<Rightarrow> None | Some ys \<Rightarrow> map_option ((@) ys) (traverse f xs))"
  by (cases "those (map f xs)") (auto simp: traverse_def split: option.splits)

lemma traverse_total:
  assumes "\<And>x. x \<in> set xs \<Longrightarrow> f x = Some (g x)"
  shows "traverse f xs = Some (concat (map g xs))"
  using assms by (induction xs) auto

text \<open>A C \<open>for\<close> loop whose body may be undefined.\<close>

fun foldM :: "('a \<Rightarrow> 's \<Rightarrow> 's option) \<Rightarrow> 'a list \<Rightarrow> 's \<Rightarrow> 's option" where
  "foldM f [] s = Some s"
| "foldM f (x # xs) s = do { s' \<leftarrow> f x s; foldM f xs s' }"

lemma foldM_append: "foldM f (xs @ ys) s = do { s' \<leftarrow> foldM f xs s; foldM f ys s' }"
  by (induction xs arbitrary: s) (auto split: Option.bind_split)

lemma foldM_concat: "foldM (foldM f) xss s = foldM f (concat xss) s"
  by (induction xss arbitrary: s) (auto simp: foldM_append split: Option.bind_split)

lemma foldM_map: "foldM f (map g xs) s = foldM (\<lambda>x. f (g x)) xs s"
  by (induction xs arbitrary: s) (auto split: Option.bind_split)

lemma foldM_cong [fundef_cong]:
  "xs = ys \<Longrightarrow> s = t \<Longrightarrow> (\<And>x u. x \<in> set ys \<Longrightarrow> f x u = g x u) \<Longrightarrow> foldM f xs s = foldM g ys t"
proof (induction xs arbitrary: ys s t)
  case (Cons x xs)
  then show ?case by (cases "g x t") auto
qed simp

text \<open>A loop that keeps an invariant under which its body is defined.\<close>

lemma foldM_invariant:
  assumes "P s" and "\<And>x u. x \<in> set xs \<Longrightarrow> P u \<Longrightarrow> \<exists>v. f x u = Some v \<and> P v"
  shows "\<exists>t. foldM f xs s = Some t \<and> P t"
  using assms
proof (induction xs arbitrary: s)
  case (Cons x xs)
  then obtain v where "f x s = Some v" "P v" by (metis list.set_intros(1))
  then show ?case using Cons by simp
qed simp

text \<open>Nested loops are one loop over the pairs of their indices.\<close>

lemma foldM_product: "foldM (\<lambda>x. foldM (f x) ys) xs s = foldM (\<lambda>(x, y). f x y) (List.product xs ys) s"
  by (induction xs arbitrary: s) (auto simp: foldM_append foldM_map split: Option.bind_split)

lemma foldM_pairs: "foldM (\<lambda>x. foldM (\<lambda>y. B (x, y)) ys) xs = foldM B (List.product xs ys)"
  using foldM_product [of "\<lambda>x y. B (x, y)" ys xs] by (simp add: fun_eq_iff)

lemma foldM_quads:
  "foldM (\<lambda>a. foldM (\<lambda>b. foldM (\<lambda>c. foldM (\<lambda>d. B (a, b, c, d)) ds) cs) bs) as
    = foldM B (List.product as (List.product bs (List.product cs ds)))"
proof -
  have 1: "foldM (\<lambda>c. foldM (\<lambda>d. B (a, b, c, d)) ds) cs = foldM (\<lambda>q. B (a, b, q)) (List.product cs ds)" for a b
    using foldM_pairs [of "\<lambda>q. B (a, b, q)" ds cs] by simp
  have 2: "foldM (\<lambda>b. foldM (\<lambda>q. B (a, b, q)) (List.product cs ds)) bs = foldM (\<lambda>q. B (a, q)) (List.product bs (List.product cs ds))" for a
    using foldM_pairs [of "\<lambda>q. B (a, q)" "List.product cs ds" bs] by simp
  show ?thesis unfolding 1 2 by (rule foldM_pairs)
qed

text \<open>A loop that updates each of some distinct places of a map, or of an array, once.\<close>

lemma foldM_fun_upd:
  assumes "distinct ps" and "\<And>p. p \<in> set ps \<Longrightarrow> f p (C p) = Some (h p)"
  shows "foldM (\<lambda>p C. do { v \<leftarrow> f p (C p); Some (C(p := v)) }) ps C = Some (\<lambda>p. if p \<in> set ps then h p else C p)"
  using assms
proof (induction ps arbitrary: C)
  case (Cons p ps)
  have "foldM (\<lambda>p C. do { v \<leftarrow> f p (C p); Some (C(p := v)) }) ps (C(p := h p))
      = Some (\<lambda>q. if q \<in> set ps then h q else (C(p := h p)) q)"
    using Cons.prems by (intro Cons.IH) auto
  moreover have "(\<lambda>q. if q \<in> set ps then h q else (C(p := h p)) q) = (\<lambda>q. if q \<in> set (p # ps) then h q else C q)"
    using Cons.prems(1) by (auto simp: fun_eq_iff)
  moreover have "f p (C p) = Some (h p)" using Cons.prems(2) by simp
  ultimately show ?case by (simp only: foldM.simps Option.bind.bind_lunit)
qed simp

text \<open>Array reads with the bounds check that C leaves to the programmer.\<close>

definition aref :: "'a list \<Rightarrow> nat \<Rightarrow> 'a option" where
  "aref xs i = (if i < length xs then Some (xs ! i) else None)"

lemma aref_Some [simp]: "i < length xs \<Longrightarrow> aref xs i = Some (xs ! i)"
  by (simp add: aref_def)

lemma foldM_list_update:
  assumes "distinct ps" "inj_on idx (set ps)" "\<And>p. p \<in> set ps \<Longrightarrow> idx p < length C"
    and "\<And>p. p \<in> set ps \<Longrightarrow> f p (C ! idx p) = Some (h p)"
  shows "\<exists>D. foldM (\<lambda>p C. do { a \<leftarrow> aref C (idx p); v \<leftarrow> f p a; Some (C[idx p := v]) }) ps C = Some D
    \<and> length D = length C \<and> (\<forall>p\<in>set ps. D ! idx p = h p) \<and> (\<forall>i. i \<notin> idx ` set ps \<longrightarrow> D ! i = C ! i)"
  using assms
proof (induction ps arbitrary: C)
  case (Cons p ps)
  have ne: "idx p \<noteq> idx q" if "q \<in> set ps" for q
    using Cons.prems(1,2) that by (auto simp: inj_on_def)
  have "\<exists>D. foldM (\<lambda>p C. do { a \<leftarrow> aref C (idx p); v \<leftarrow> f p a; Some (C[idx p := v]) }) ps (C[idx p := h p]) = Some D
      \<and> length D = length (C[idx p := h p]) \<and> (\<forall>q\<in>set ps. D ! idx q = h q)
      \<and> (\<forall>i. i \<notin> idx ` set ps \<longrightarrow> D ! i = C[idx p := h p] ! i)"
    using Cons.prems ne by (intro Cons.IH) (auto simp: inj_on_def)
  then obtain D where D: "foldM (\<lambda>p C. do { a \<leftarrow> aref C (idx p); v \<leftarrow> f p a; Some (C[idx p := v]) }) ps (C[idx p := h p]) = Some D"
    "length D = length C" "\<forall>q\<in>set ps. D ! idx q = h q" "\<forall>i. i \<notin> idx ` set ps \<longrightarrow> D ! i = C[idx p := h p] ! i"
    by auto
  have "idx p \<notin> idx ` set ps" using ne by force
  then have "D ! idx p = h p" using D(4) Cons.prems(3) by simp
  moreover have "\<forall>i. i \<notin> idx ` set (p # ps) \<longrightarrow> D ! i = C ! i" using D(4) by auto
  ultimately show ?case using D(1-3) Cons.prems(3,4) by auto
qed simp

section \<open>Multisets of lists\<close>

lemma mset_concat_map: "mset (concat (map f xs)) = (\<Sum>x\<in>#mset xs. mset (f x))"
  by (induction xs) auto

lemma mset_concat_map_cong:
  assumes "mset xs = mset ys" and "\<And>x. x \<in> set ys \<Longrightarrow> mset (f x) = mset (g x)"
  shows "mset (concat (map f xs)) = mset (concat (map g ys))"
proof -
  have "mset (concat (map f xs)) = (\<Sum>x\<in>#mset ys. mset (f x))"
    by (simp add: mset_concat_map assms(1))
  also have "\<dots> = (\<Sum>x\<in>#mset ys. mset (g x))"
    using assms(2) by (intro arg_cong [where f = sum_mset] image_mset_cong) auto
  finally show ?thesis by (simp add: mset_concat_map)
qed

text \<open>A traversal in an order the code does not fix, whose parts are known up to their order.\<close>

lemma traverse_mset:
  assumes "mset xs = mset ys" and "\<And>y. y \<in> set ys \<Longrightarrow> \<exists>cs. f y = Some cs \<and> mset cs = mset (g y)"
  shows "\<exists>cs. traverse f xs = Some cs \<and> mset cs = mset (concat (map g ys))"
proof -
  have set: "set xs = set ys" using assms(1) by (metis set_mset_mset)
  have f: "f x = Some (the (f x))" "mset (the (f x)) = mset (g x)" if "x \<in> set ys" for x
    using assms(2) [OF that] by auto
  have "traverse f xs = Some (concat (map (\<lambda>x. the (f x)) xs))"
    using f(1) set by (intro traverse_total) auto
  moreover have "mset (concat (map (\<lambda>x. the (f x)) xs)) = mset (concat (map g ys))"
    using f(2) by (intro mset_concat_map_cong [OF assms(1)]) auto
  ultimately show ?thesis by blast
qed

lemma mset_concat_upto: "mset (concat (map f [0..n - 1])) = (\<Sum>x = 0..<n. mset (f x))" for n :: int
proof -
  have "mset [0..n - 1] = mset_set {0..<n}"
    using mset_set_set [of "[0..n - 1]"] by (simp add: atLeastLessThanPlusOne_atLeastAtMost_int [symmetric])
  then show ?thesis
    by (simp add: mset_concat_map sum_unfold_sum_mset)
qed

section \<open>Consecutive integers\<close>

lemma upto_append:
  "a \<le> b \<Longrightarrow> b \<le> c \<Longrightarrow> [a..b - 1] @ [b..c - 1] = [a..c - 1]" for a b c :: int
  by (metis diff_add_cancel linorder_le_cases upto_split1 append_Nil2 upto_empty
      diff_left_mono less_diff_eq linorder_not_less zle_diff1_eq dual_order.eq_iff upto_split2)

text \<open>
  Consecutive blocks: \<open>s\<close> gives the ends of the blocks, block \<open>w\<close> is
  \<open>[s w ..< s (w + 1)]\<close>.
\<close>

lemma concat_blocks:
  fixes s :: "int \<Rightarrow> int"
  assumes "\<And>w. 0 \<le> w \<Longrightarrow> w < n \<Longrightarrow> s w \<le> s (w + 1)" and "0 \<le> n"
  shows "concat (map (\<lambda>w. [s w..s (w + 1) - 1]) [0..n - 1]) = [s 0..s n - 1]"
    and "s 0 \<le> s n"
proof -
  have "concat (map (\<lambda>w. [s w..s (w + 1) - 1]) [0..int k - 1]) = [s 0..s (int k) - 1]
      \<and> s 0 \<le> s (int k)" if "int k \<le> n" for k
    using that
  proof (induction k)
    case 0
    then show ?case by simp
  next
    case (Suc k)
    have *: "[0..int (Suc k) - 1] = [0..int k - 1] @ [int k]"
      using upto_rec2 [of 0 "int k"] by simp
    have "s (int k) \<le> s (int k + 1)"
      using assms(1) [of "int k"] Suc.prems by simp
    with Suc have "[s 0..s (int k) - 1] @ [s (int k)..s (int k + 1) - 1] = [s 0..s (int k + 1) - 1]"
      by (intro upto_append) auto
    with Suc \<open>s (int k) \<le> s (int k + 1)\<close> show ?case
      unfolding * by (auto simp: add.commute)
  qed
  from this [of "nat n"] assms(2)
  show "concat (map (\<lambda>w. [s w..s (w + 1) - 1]) [0..n - 1]) = [s 0..s n - 1]" "s 0 \<le> s n"
    by simp_all
qed

lemma map_upto_shift: "map (\<lambda>t. a + t) [0..n - 1] = [a..a + n - 1]" for a n :: int
proof (cases "0 \<le> n")
  case True
  have "map (\<lambda>t. a + t) [0..int k - 1] = [a..a + int k - 1]" for k
  proof (induction k)
    case (Suc k)
    then show ?case
      using upto_rec2 [of 0 "int k"] upto_rec2 [of a "a + int k"] by simp
  qed simp
  from this [of "nat n"] True show ?thesis by simp
qed simp

text \<open>The events \<open>ev\<close> of the integers from \<open>x\<close> up to but excluding \<open>y\<close>: a C \<open>for\<close> loop's calls.\<close>

definition block :: "(int \<Rightarrow> 'e) \<Rightarrow> int \<Rightarrow> int \<Rightarrow> 'e list" where
  "block ev x y = map ev [x..y - 1]"

lemma block_empty [simp]: "block ev x x = []"
  by (simp add: block_def)

lemma block_shifted: "concat (map (\<lambda>t. [ev (a + t)]) [0..n - 1]) = block ev a (a + n)"
proof -
  have "block ev a (a + n) = map ev (map (\<lambda>t. a + t) [0..n - 1])"
    by (simp only: block_def map_upto_shift)
  then show ?thesis by (simp add: comp_def)
qed

lemma block_append: "x \<le> y \<Longrightarrow> y \<le> z \<Longrightarrow> block ev x y @ block ev y z = block ev x z"
  by (simp add: block_def upto_append flip: map_append)

lemma concat_block:
  assumes "\<And>w. 0 \<le> w \<Longrightarrow> w < n \<Longrightarrow> s w \<le> s (w + 1)" and "0 \<le> n"
  shows "concat (map (\<lambda>w. block ev (s w) (s (w + 1))) [0..n - 1]) = block ev (s 0) (s n)"
proof -
  have "concat (map (\<lambda>w. block ev (s w) (s (w + 1))) [0..n - 1])
      = map ev (concat (map (\<lambda>w. [s w..s (w + 1) - 1]) [0..n - 1]))"
    by (simp add: block_def map_concat comp_def)
  then show ?thesis
    by (simp only: concat_blocks(1) [of n s, OF assms] block_def)
qed

section \<open>Dealing out integers round-robin\<close>

lemma sum_deal:
  fixes g :: "int \<Rightarrow> 'm::comm_monoid_add"
  assumes m: "0 < m" and n: "n \<le> m"
    and h: "\<And>c v. 0 \<le> c \<Longrightarrow> c < n \<Longrightarrow> 0 \<le> v \<and> v < h c \<longleftrightarrow> 0 \<le> v \<and> v * m + c < F"
    and all: "\<And>q. 0 \<le> q \<Longrightarrow> q < F \<Longrightarrow> q mod m < n"
  shows "(\<Sum>c = 0..<n. \<Sum>v = 0..<h c. g (v * m + c)) = (\<Sum>q = 0..<F. g q)"
proof -
  have "(\<Sum>c = 0..<n. \<Sum>v = 0..<h c. g (v * m + c))
      = (\<Sum>(c, v) \<in> (SIGMA c:{0..<n}. {0..<h c}). g (v * m + c))"
    by (simp add: sum.Sigma)
  also have "\<dots> = (\<Sum>q = 0..<F. g q)"
  proof (rule sum.reindex_bij_witness [where i = "\<lambda>q. (q mod m, q div m)" and j = "\<lambda>(c, v). v * m + c"])
    fix q assume q: "q \<in> {0..<F}"
    then have "0 \<le> q mod m" "q mod m < n" "0 \<le> q div m"
      using all [of q] m by (auto simp: pos_imp_zdiv_nonneg_iff)
    with q h [of "q mod m" "q div m"]
    show "(q mod m, q div m) \<in> (SIGMA c:{0..<n}. {0..<h c})" by auto
  qed (use m n h in \<open>auto simp: add_increasing\<close>)
  finally show ?thesis .
qed

text \<open>The number of \<open>q < F\<close> with \<open>q mod m = c\<close>, as C code computes it.\<close>

lemma deal_count:
  fixes F :: int
  assumes "0 \<le> c" "c < m"
  shows "v < F div m + c_bool (c < F mod m) \<longleftrightarrow> v * m + c < F"
proof -
  have F: "F = F div m * m + F mod m" "0 \<le> F mod m" "F mod m < m" using assms by simp_all
  consider "v < F div m" | "v = F div m" | "F div m < v" by linarith
  then show ?thesis
  proof cases
    case 1
    then have "(v + 1) * m \<le> F div m * m" using assms by (intro mult_right_mono) auto
    then have "v * m + c < F" using F assms unfolding distrib_right by linarith
    with 1 show ?thesis by (simp add: c_bool_def)
  next
    case 2
    have "c < F mod m \<longleftrightarrow> F div m * m + c < F"
      by (simp only: minus_div_mult_eq_mod [symmetric] less_diff_eq add.commute)
    with 2 show ?thesis by (simp add: c_bool_def)
  next
    case 3
    then have "(F div m + 1) * m \<le> v * m" using assms by (intro mult_right_mono) auto
    then have "\<not> v * m + c < F" using F assms unfolding distrib_right by linarith
    with 3 show ?thesis by (simp add: c_bool_def)
  qed
qed

section \<open>Words without wrap-around\<close>

lemma unat_of_nat_exact: "n < 2 ^ 32 \<Longrightarrow> unat (of_nat n :: u32) = n"
  by (simp add: unsigned_of_nat take_bit_nat_eq_self)

lemma unat_add_exact:
  assumes "unat (x :: u32) = m" "unat y = n" "m + n < 2 ^ 32"
  shows "unat (x + y) = m + n"
  using assms by (simp add: unat_word_ariths)

text \<open>Narrowing a 64-bit word is a homomorphism.\<close>

lemma ucast_narrow_add: "(ucast (x + y :: u64) :: u32) = ucast x + ucast y"
proof transfer
  fix x y :: int
  show "take_bit LENGTH(32) (take_bit LENGTH(64) (x + y)) = take_bit LENGTH(32) (take_bit LENGTH(64) x + take_bit LENGTH(64) y)"
    using take_bit_add [of 32 "take_bit 64 x" "take_bit 64 y"] take_bit_add [of 32 x y] by simp
qed

lemma ucast_narrow_mult: "(ucast (x * y :: u64) :: u32) = ucast x * ucast y"
proof transfer
  fix x y :: int
  show "take_bit LENGTH(32) (take_bit LENGTH(64) (x * y)) = take_bit LENGTH(32) (take_bit LENGTH(64) x * take_bit LENGTH(64) y)"
    using take_bit_mult [of 32 "take_bit 64 x" "take_bit 64 y"] take_bit_mult [of 32 x y] by simp
qed

lemma ucast_narrow_widen [simp]: "(ucast (ucast (x :: u32) :: u64) :: u32) = x"
  by (rule bit_word_eqI) (simp add: bit_simps)

section \<open>Stores to distinct places\<close>

text \<open>A sequence of stores to distinct places.\<close>

lemma fold_stores:
  assumes "inj_on pl (set ps)"
  shows "fold (\<lambda>p C. C(pl p := f p)) ps C = (\<lambda>x. if x \<in> pl ` set ps then f (the_inv_into (set ps) pl x) else C x)"
proof -
  have "fold (\<lambda>p C. C(pl p := f p)) qs C x = (if x \<in> pl ` set qs then f (the_inv_into (set ps) pl x) else C x)"
    if "set qs \<subseteq> set ps" for qs C x
    using that
  proof (induction qs arbitrary: C)
    case (Cons q qs)
    then show ?case using the_inv_into_f_f [OF assms, of q] by auto
  qed simp
  then show ?thesis by (simp add: fun_eq_iff)
qed

end
