(* ===== verification/Simt.thy ===== *)
theory Simt
  imports Prelude
begin

text \<open>
  The SIMT machine as the C code sees it (\<^verbatim>\<open>lib/include/vx_intrinsics.h\<close>).  The
  configuration CSRs are the fields of \<open>device\<close>; the identifiers that
  \<^verbatim>\<open>vx_core_id\<close>, \<^verbatim>\<open>vx_warp_id\<close> and \<^verbatim>\<open>vx_thread_id\<close> read are
  arguments of the definitions.  The two instructions that decide which threads run a piece
  of code, \<^verbatim>\<open>tmc\<close> and \<^verbatim>\<open>wspawn\<close>, are hardware: they are the parameter
  \<open>simt\<close>, and the locale \<open>simt_isa\<close> states what the code relies on.
\<close>

record device =
  num_cores :: int
  num_warps :: int
  num_threads :: int

text \<open>
  \<open>lanes hw NT m\<close>: the threads of a warp of \<open>NT\<close> threads that run after
  \<^verbatim>\<open>vx_tmc(m)\<close>, in the order in which their effects are recorded.
  \<open>spawned hw NW n\<close>: the warps that \<^verbatim>\<open>vx_wspawn(n, f)\<close> makes enter \<open>f\<close> when warp 0
  of a core of \<open>NW\<close> warps executes it.
\<close>

record simt =
  lanes :: "int \<Rightarrow> u32 \<Rightarrow> int list"
  spawned :: "int \<Rightarrow> int \<Rightarrow> int list"

text \<open>
  Documented behaviour: bit \<open>t\<close> of the mask enables thread \<open>t\<close>, and
  \<^verbatim>\<open>wspawn n\<close> starts warps \<open>1, \<dots>, n - 1\<close> (warp 0 keeps running the caller,
  and \<^verbatim>\<open>vx_wspawn(1, ...)\<close> spawns no worker).  Nothing is assumed about the order.
\<close>

locale simt_isa =
  fixes hw :: simt
  assumes lanes_mask:
      "mset (lanes hw nt m) = mset (filter (\<lambda>t. bit m (nat t)) [0..nt - 1])"
    and spawned_warps: "mset (spawned hw nw n) = mset [1..min n nw - 1]"
begin

lemma lanes_all:
  assumes "nt \<le> 32"
  shows "mset (lanes hw nt (- 1)) = mset [0..nt - 1]"
proof -
  have "filter (\<lambda>t. bit (- 1 :: u32) (nat t)) [0..nt - 1] = [0..nt - 1]"
    using assms by (intro filter_True) auto
  then show ?thesis by (simp add: lanes_mask)
qed

lemma lanes_low:
  assumes "0 \<le> r" "r \<le> nt" "nt \<le> 32"
  shows "mset (lanes hw nt (mask (nat r))) = mset [0..r - 1]"
proof -
  have "[0..nt - 1] = [0..r - 1] @ [r..nt - 1]"
    using assms by (simp add: upto_append)
  moreover have "filter (\<lambda>t. bit (mask (nat r) :: u32) (nat t)) [0..r - 1] = [0..r - 1]"
    using assms by (intro filter_True) (auto simp: bit_mask_iff)
  moreover have "filter (\<lambda>t. bit (mask (nat r) :: u32) (nat t)) [r..nt - 1] = []"
    using assms by (intro filter_False) (auto simp: bit_mask_iff)
  ultimately show ?thesis by (simp add: lanes_mask)
qed

lemma warps_running:
  assumes "1 \<le> n" "n \<le> nw"
  shows "mset (0 # spawned hw nw n) = mset [0..n - 1]"
proof -
  have "[0..n - 1] = 0 # [1..n - 1]"
    using assms upto_rec1 [of 0 "n - 1"] by simp
  then show ?thesis
    using assms by (simp add: spawned_warps)
qed

end

text \<open>The machine of the reference manual, with the effects in thread and warp order.\<close>

definition std_simt :: simt where
  "std_simt = \<lparr>lanes = (\<lambda>nt m. filter (\<lambda>t. bit m (nat t)) [0..nt - 1]),
               spawned = (\<lambda>nw n. [1..min n nw - 1])\<rparr>"

interpretation std: simt_isa std_simt
  by unfold_locales (simp_all add: std_simt_def)

text \<open>A device whose thread mask fits the operand of \<^verbatim>\<open>tmc\<close>.\<close>

definition wf_device :: "device \<Rightarrow> bool" where
  "wf_device dv \<longleftrightarrow> 1 \<le> num_cores dv \<and> num_cores dv \<le> 1024 \<and> 1 \<le> num_warps dv
     \<and> 1 \<le> num_threads dv \<and> num_threads dv \<le> 31 \<and> in_int (num_warps dv * num_threads dv)"

end
