(* ===== verification/Vx_Spawn.thy ===== *)
theory Vx_Spawn
  imports Simt
begin

text \<open>
  The task scheduler of \<^verbatim>\<open>lib/src/vx_spawn.c\<close>: \<open>vx_spawn_tasks\<close>,
  \<open>vx_spawn_tasks_contiguous\<close>, and their variant for grids of work groups,
  \<open>vx_spawn_kernel\<close>.  Every core runs the entry function with one thread; it
  computes its share of the tasks, leaves the arguments of the workers in
  \<open>g_wspawn_args\<close>, spawns the warps and runs the stub, whose threads call the callback.
  What is observed is the sequence of callback invocations.
\<close>

section \<open>Data\<close>

definition NUM_CORES_MAX :: int where
  "NUM_CORES_MAX = 1024"

text \<open>\<open>wspawn_tasks_args_t\<close>; \<open>'c\<close> is the type of callbacks, \<open>'a\<close> that of their argument.\<close>

record ('c, 'a) wspawn_tasks_args =
  callback :: 'c
  arg :: 'a
  offset :: int
  NWs :: int
  RWs :: int

text \<open>The array \<open>g_wspawn_args\<close> of pointers; \<^const>\<open>None\<close> is the null pointer.\<close>

type_synonym ('c, 'a) gargs = "int \<Rightarrow> ('c, 'a) wspawn_tasks_args option"

text \<open>One invocation \<open>callback(task_id, arg)\<close>.\<close>

datatype ('c, 'a) call = Call 'c int 'a

section \<open>Stubs: what one thread executes\<close>

definition spawn_tasks_all_stub ::
    "device \<Rightarrow> ('c, 'a) gargs \<Rightarrow> int \<Rightarrow> int \<Rightarrow> int \<Rightarrow> ('c, 'a) call list option" where
  "spawn_tasks_all_stub dv g cid wid tid = do {
     p \<leftarrow> g cid;
     w1 \<leftarrow> c_mul (NWs p) wid;
     wK \<leftarrow> c_add w1 (min (RWs p) wid);
     tK \<leftarrow> c_add (NWs p) (c_bool (wid < RWs p));
     o1 \<leftarrow> c_mul wK (num_threads dv);
     o2 \<leftarrow> c_add (offset p) o1;
     o3 \<leftarrow> c_mul tid tK;
     off \<leftarrow> c_add o2 o3;
     N \<leftarrow> c_add off tK;
     Some (block (\<lambda>task_id. Call (callback p) task_id (arg p)) off N)
   }"

definition spawn_tasks_contiguous_all_stub ::
    "device \<Rightarrow> ('c, 'a) gargs \<Rightarrow> int \<Rightarrow> int \<Rightarrow> int \<Rightarrow> ('c, 'a) call list option" where
  "spawn_tasks_contiguous_all_stub dv g cid wid tid = do {
     p \<leftarrow> g cid;
     waves \<leftarrow> c_add (NWs p) (c_bool (wid < RWs p));
     o1 \<leftarrow> c_mul (num_threads dv) wid;
     o2 \<leftarrow> c_add o1 tid;
     off \<leftarrow> c_add (offset p) o2;
     traverse (\<lambda>wave_id. do {
       s1 \<leftarrow> c_mul wave_id (num_threads dv);
       s2 \<leftarrow> c_mul s1 (num_warps dv);
       task_id \<leftarrow> c_add off s2;
       Some [Call (callback p) task_id (arg p)]
     }) [0..waves - 1]
   }"

definition spawn_tasks_rem_stub ::
    "device \<Rightarrow> ('c, 'a) gargs \<Rightarrow> int \<Rightarrow> int \<Rightarrow> ('c, 'a) call list option" where
  "spawn_tasks_rem_stub dv g cid tid = do {
     p \<leftarrow> g cid;
     task_id \<leftarrow> c_add (offset p) tid;
     Some [Call (callback p) task_id (arg p)]
   }"

text \<open>
  A warp runs a stub with all its threads enabled (\<open>vx_tmc(-1)\<close>): the workers through
  \<open>spawn_tasks_all_cb\<close>, the spawning warp 0 in line.  The workers have ended when
  \<open>vx_wspawn_wait\<close> returns, so the arguments they read do not change under them.
\<close>

definition run_warp ::
    "simt \<Rightarrow> device \<Rightarrow> (int \<Rightarrow> int \<Rightarrow> 'e list option) \<Rightarrow> int \<Rightarrow> 'e list option" where
  "run_warp hw dv stub wid = traverse (stub wid) (lanes hw (num_threads dv) (- 1))"

definition run_warps ::
    "simt \<Rightarrow> device \<Rightarrow> (int \<Rightarrow> int \<Rightarrow> 'e list option) \<Rightarrow> int \<Rightarrow> 'e list option" where
  "run_warps hw dv stub nw =
     traverse (run_warp hw dv stub) (0 # spawned hw (num_warps dv) nw)"

definition run_remaining ::
    "simt \<Rightarrow> device \<Rightarrow> (int \<Rightarrow> 'e list option) \<Rightarrow> int \<Rightarrow> 'e list option" where
  "run_remaining hw dv stub r = do {
     p \<leftarrow> c_shl 1 r;
     tmask \<leftarrow> c_sub p 1;
     traverse stub (lanes hw (num_threads dv) (word_of_int tmask))
   }"

section \<open>The share of a core\<close>

record plan =
  base :: int    \<comment> \<open>\<open>core_id * tasks_per_core\<close>\<close>
  share :: int   \<comment> \<open>\<open>tasks_per_core_n1\<close>\<close>
  TW :: int
  rT :: int
  fW :: int
  rW :: int

text \<open>The computation that the three entry functions share; \<open>None\<close> inside is the early return.\<close>

definition spawn_plan :: "device \<Rightarrow> int \<Rightarrow> int \<Rightarrow> plan option option" where
  "spawn_plan dv num_tasks core_id = do {
     WT \<leftarrow> c_mul (num_warps dv) (num_threads dv);
     nC \<leftarrow> (if num_tasks > WT then c_div num_tasks WT else Some 1);
     let nc = min nC (num_cores dv);
     if core_id \<ge> nc then Some None else do {
       tasks_per_core \<leftarrow> c_div num_tasks nc;
       n1 \<leftarrow> (if core_id = nc - 1 then do {
                t \<leftarrow> c_mul nc tasks_per_core;
                rem \<leftarrow> c_sub num_tasks t;
                c_add tasks_per_core rem
              } else Some tasks_per_core);
       TW \<leftarrow> c_div n1 (num_threads dv);
       t \<leftarrow> c_mul TW (num_threads dv);
       rT \<leftarrow> c_sub n1 t;
       (fW, rW) \<leftarrow> (if TW \<ge> num_warps dv then do {
                      f \<leftarrow> c_div TW (num_warps dv);
                      u \<leftarrow> c_mul f (num_warps dv);
                      r \<leftarrow> c_sub TW u;
                      Some (f, r)
                    } else Some (1, 0));
       b \<leftarrow> c_mul core_id tasks_per_core;
       Some (Some \<lparr>base = b, share = n1, TW = TW, rT = rT, fW = fW, rW = rW\<rparr>)
     }
   }"

section \<open>Entry functions\<close>

text \<open>
  The body that the entry functions share: \<open>mk off fW rW\<close> is the argument structure,
  \<open>all_stub\<close> what the full warps run and \<open>rem_stub\<close> what the remaining threads run.
\<close>

definition spawn_core ::
    "simt \<Rightarrow> device \<Rightarrow> int \<Rightarrow> (int \<Rightarrow> int \<Rightarrow> int \<Rightarrow> 'p)
       \<Rightarrow> ((int \<rightharpoonup> 'p) \<Rightarrow> int \<Rightarrow> int \<Rightarrow> int \<Rightarrow> 'e list option)
       \<Rightarrow> ((int \<rightharpoonup> 'p) \<Rightarrow> int \<Rightarrow> int \<Rightarrow> 'e list option)
       \<Rightarrow> (int \<rightharpoonup> 'p) \<Rightarrow> int \<Rightarrow> ((int \<rightharpoonup> 'p) \<times> 'e list) option" where
  "spawn_core hw dv num_tasks mk all_stub rem_stub g core_id =
     (if core_id \<ge> NUM_CORES_MAX then Some (g, [])
      else do {
        plo \<leftarrow> spawn_plan dv num_tasks core_id;
        case plo of None \<Rightarrow> Some (g, [])
        | Some pl \<Rightarrow> do {
            let g = g(core_id \<mapsto> mk (base pl) (fW pl) (rW pl));
            main \<leftarrow> (if TW pl \<ge> 1
                     then run_warps hw dv (all_stub g core_id) (min (TW pl) (num_warps dv))
                     else Some []);
            if rT pl \<noteq> 0 then do {
              d \<leftarrow> c_sub (share pl) (rT pl);
              off \<leftarrow> c_add (base pl) d;
              let g = g(core_id \<mapsto> mk off (fW pl) (rW pl));
              rest \<leftarrow> run_remaining hw dv (rem_stub g core_id) (rT pl);
              Some (g, main @ rest)
            } else Some (g, main)
          }
      })"

definition tasks_args :: "'c \<Rightarrow> 'a \<Rightarrow> int \<Rightarrow> int \<Rightarrow> int \<Rightarrow> ('c, 'a) wspawn_tasks_args" where
  "tasks_args cb a off nws rws = \<lparr>callback = cb, arg = a, offset = off, NWs = nws, RWs = rws\<rparr>"

definition vx_spawn_tasks ::
    "simt \<Rightarrow> device \<Rightarrow> int \<Rightarrow> 'c \<Rightarrow> 'a \<Rightarrow> ('c, 'a) gargs \<Rightarrow> int
       \<Rightarrow> (('c, 'a) gargs \<times> ('c, 'a) call list) option" where
  "vx_spawn_tasks hw dv num_tasks cb a =
     spawn_core hw dv num_tasks (tasks_args cb a) (spawn_tasks_all_stub dv) (spawn_tasks_rem_stub dv)"

definition vx_spawn_tasks_contiguous ::
    "simt \<Rightarrow> device \<Rightarrow> int \<Rightarrow> 'c \<Rightarrow> 'a \<Rightarrow> ('c, 'a) gargs \<Rightarrow> int
       \<Rightarrow> (('c, 'a) gargs \<times> ('c, 'a) call list) option" where
  "vx_spawn_tasks_contiguous hw dv num_tasks cb a =
     spawn_core hw dv num_tasks (tasks_args cb a) (spawn_tasks_contiguous_all_stub dv)
       (spawn_tasks_rem_stub dv)"

section \<open>Kernels: the tasks are the work groups of a grid\<close>

text \<open>\<open>context_t\<close>, the fields the scheduler reads; \<open>wspawn_kernel_args_t\<close>.\<close>

record context_t =
  num_groups0 :: u32
  num_groups1 :: u32
  num_groups2 :: u32

record ('c, 'a) wspawn_kernel_args =
  k_ctx :: context_t
  k_callback :: 'c
  k_arg :: 'a
  k_offset :: int
  k_NWs :: int
  k_RWs :: int
  isXYpow2 :: bool
  log2XY :: int
  log2X :: int

text \<open>One invocation \<open>callback(arg, ctx, i, j, k)\<close>; the group ids are \<open>uint32_t\<close> parameters.\<close>

datatype ('c, 'a) kcall = KCall 'c 'a context_t u32 u32 u32

definition is_log2 :: "int \<Rightarrow> bool" where
  "is_log2 x \<longleftrightarrow> (word_of_int x :: u32) AND word_of_int (x - 1) = 0"

text \<open>
  \<open>31 - __builtin_clz(x)\<close>: the index of the highest bit set; \<open>__builtin_clz(0)\<close> has no
  defined value, and the parameter \<open>clz0\<close> stands for whatever it yields.
\<close>

fun clz_from :: "nat \<Rightarrow> u32 \<Rightarrow> int" where
  "clz_from 0 x = 0"
| "clz_from (Suc b) x = (if bit x b then 0 else 1 + clz_from b x)"

definition log2_fast :: "int \<Rightarrow> int \<Rightarrow> int" where
  "log2_fast clz0 x = 31 - (if x = 0 then clz0 else clz_from 32 (word_of_int x))"

text \<open>The decomposition of a work-group id into its coordinates, on both paths.\<close>

definition group_call :: "('c, 'a) wspawn_kernel_args \<Rightarrow> int \<Rightarrow> ('c, 'a) kcall list option" where
  "group_call p wg_id = do {
     let X = sint (num_groups0 (k_ctx p));
     let Y = sint (num_groups1 (k_ctx p));
     XY \<leftarrow> c_mul X Y;
     k \<leftarrow> (if isXYpow2 p then c_sar wg_id (log2XY p) else c_div wg_id XY);
     kXY \<leftarrow> c_mul k XY;
     wg_2d \<leftarrow> c_sub wg_id kXY;
     j \<leftarrow> (if isXYpow2 p then c_sar wg_2d (log2X p) else c_div wg_2d X);
     jX \<leftarrow> c_mul j X;
     i \<leftarrow> c_sub wg_2d jX;
     Some [KCall (k_callback p) (k_arg p) (k_ctx p) (word_of_int i) (word_of_int j) (word_of_int k)]
   }"

definition spawn_kernel_all_stub ::
    "device \<Rightarrow> (int \<rightharpoonup> ('c, 'a) wspawn_kernel_args) \<Rightarrow> int \<Rightarrow> int \<Rightarrow> int
       \<Rightarrow> ('c, 'a) kcall list option" where
  "spawn_kernel_all_stub dv g cid wid tid = do {
     p \<leftarrow> g cid;
     w1 \<leftarrow> c_mul (k_NWs p) wid;
     wK \<leftarrow> c_add w1 (min (k_RWs p) wid);
     tK \<leftarrow> c_add (k_NWs p) (c_bool (wid < k_RWs p));
     o1 \<leftarrow> c_mul wK (num_threads dv);
     o2 \<leftarrow> c_add (k_offset p) o1;
     o3 \<leftarrow> c_mul tid tK;
     off \<leftarrow> c_add o2 o3;
     N \<leftarrow> c_add off tK;
     traverse (group_call p) [off..N - 1]
   }"

definition spawn_kernel_rem_stub ::
    "device \<Rightarrow> (int \<rightharpoonup> ('c, 'a) wspawn_kernel_args) \<Rightarrow> int \<Rightarrow> int
       \<Rightarrow> ('c, 'a) kcall list option" where
  "spawn_kernel_rem_stub dv g cid tid = do {
     p \<leftarrow> g cid;
     wg_id \<leftarrow> c_add (k_offset p) tid;
     group_call p wg_id
   }"

definition kernel_args ::
    "int \<Rightarrow> context_t \<Rightarrow> 'c \<Rightarrow> 'a \<Rightarrow> int \<Rightarrow> int \<Rightarrow> int \<Rightarrow> ('c, 'a) wspawn_kernel_args" where
  "kernel_args clz0 ctx cb a off nws rws =
     (let X = sint (num_groups0 ctx); XY = X * sint (num_groups1 ctx) in
      \<lparr>k_ctx = ctx, k_callback = cb, k_arg = a, k_offset = off, k_NWs = nws, k_RWs = rws,
       isXYpow2 = is_log2 XY, log2XY = log2_fast clz0 XY, log2X = log2_fast clz0 X\<rparr>)"

definition vx_spawn_kernel ::
    "simt \<Rightarrow> device \<Rightarrow> int \<Rightarrow> context_t \<Rightarrow> 'c \<Rightarrow> 'a \<Rightarrow> (int \<rightharpoonup> ('c, 'a) wspawn_kernel_args)
       \<Rightarrow> int \<Rightarrow> ((int \<rightharpoonup> ('c, 'a) wspawn_kernel_args) \<times> ('c, 'a) kcall list) option" where
  "vx_spawn_kernel hw dv clz0 ctx cb a g core_id = do {
     XY \<leftarrow> c_mul (sint (num_groups0 ctx)) (sint (num_groups1 ctx));
     num_tasks \<leftarrow> c_mul XY (sint (num_groups2 ctx));
     spawn_core hw dv num_tasks (kernel_args clz0 ctx cb a) (spawn_kernel_all_stub dv)
       (spawn_kernel_rem_stub dv) g core_id
   }"

section \<open>Launches\<close>

text \<open>
  A launch: every core of the device runs the entry function; the calls of all cores,
  core by core.  Each core reads and writes its own entry of \<open>g_wspawn_args\<close> only.
\<close>

definition launch :: "device \<Rightarrow> (int \<Rightarrow> ('g \<times> 'e list) option) \<Rightarrow> 'e list option" where
  "launch dv entry = traverse (\<lambda>c. map_option snd (entry c)) [0..num_cores dv - 1]"

end
