(* ===== verification/Vx_Spawn_Props.thy ===== *)
theory Vx_Spawn_Props
  imports Vx_Spawn
begin

text \<open>
  Correctness of \<open>vx_spawn_tasks\<close> and \<open>vx_spawn_tasks_contiguous\<close>: a launch of \<open>n\<close> tasks
  calls the callback once for each of \<open>0, \<dots>, n - 1\<close> and for nothing else, and no integer
  operation of the scheduler overflows.
\<close>

section \<open>The plan\<close>

definition num_active :: "device \<Rightarrow> int \<Rightarrow> int" where
  "num_active dv n =
     (let WT = num_warps dv * num_threads dv
      in min (if n > WT then n div WT else 1) (num_cores dv))"

definition core_lo :: "device \<Rightarrow> int \<Rightarrow> int \<Rightarrow> int" where
  "core_lo dv n c = (if c = num_active dv n then n else c * (n div num_active dv n))"

definition plan_of :: "device \<Rightarrow> int \<Rightarrow> int \<Rightarrow> plan" where
  "plan_of dv b s =
     (let tw = s div num_threads dv in
      \<lparr>base = b, share = s, TW = tw, rT = s mod num_threads dv,
       fW = (if tw \<ge> num_warps dv then tw div num_warps dv else 1),
       rW = (if tw \<ge> num_warps dv then tw mod num_warps dv else 0)\<rparr>)"

lemma wf_deviceD:
  assumes "wf_device dv"
  shows "1 \<le> num_cores dv" "num_cores dv \<le> 1024" "1 \<le> num_warps dv" "1 \<le> num_threads dv"
    "num_threads dv \<le> 31" "in_int (num_warps dv * num_threads dv)"
    "0 < num_warps dv * num_threads dv"
  using assms by (auto simp: wf_device_def intro!: mult_pos_pos)

lemma num_active_bounds:
  assumes "wf_device dv" "0 \<le> n"
  shows "1 \<le> num_active dv n" "num_active dv n \<le> num_cores dv"
  using wf_deviceD [OF assms(1)] zdiv_mono1 [of "num_warps dv * num_threads dv" n "num_warps dv * num_threads dv"]
  by (auto simp: num_active_def Let_def)

lemma core_lo_step:
  assumes "wf_device dv" "0 \<le> n" "0 \<le> c" "c < num_active dv n"
  shows "0 \<le> core_lo dv n c" "core_lo dv n c \<le> core_lo dv n (c + 1)"
    "core_lo dv n (c + 1) \<le> n"
proof -
  note na = num_active_bounds [OF assms(1,2)]
  let ?t = "n div num_active dv n"
  have t: "0 \<le> ?t" using na assms(2) by (simp add: pos_imp_zdiv_nonneg_iff)
  have le: "(c + 1) * ?t \<le> n"
  proof -
    have "(c + 1) * ?t \<le> num_active dv n * ?t"
      using t assms(4) by (intro mult_right_mono) auto
    also have "\<dots> \<le> n"
      using na by (intro mult_div_le) simp
    finally show ?thesis .
  qed
  show "0 \<le> core_lo dv n c" "core_lo dv n c \<le> core_lo dv n (c + 1)" "core_lo dv n (c + 1) \<le> n"
    using t le assms by (auto simp: core_lo_def algebra_simps)
qed

text \<open>The scheduler's checked arithmetic computes exactly this plan.\<close>

lemma spawn_plan_eq:
  assumes wf: "wf_device dv" and n: "0 \<le> n" "in_int n" and c: "0 \<le> c"
  shows "spawn_plan dv n c = Some (if c < num_active dv n
           then Some (plan_of dv (core_lo dv n c) (core_lo dv n (c + 1) - core_lo dv n c))
           else None)"
proof -
  let ?na = "num_active dv n"
  note dv = wf_deviceD [OF wf]
  have nC: "(if n > num_warps dv * num_threads dv
             then c_div n (num_warps dv * num_threads dv) else Some 1)
          = Some (if n > num_warps dv * num_threads dv
                  then n div (num_warps dv * num_threads dv) else 1)"
    using n dv by (simp add: c_int)
  have na_eq: "min (if n > num_warps dv * num_threads dv
                  then n div (num_warps dv * num_threads dv) else 1) (num_cores dv) = ?na"
    by (simp add: num_active_def)
  have mulWT: "c_mul (num_warps dv) (num_threads dv) = Some (num_warps dv * num_threads dv)"
    using dv by (simp add: c_int)
  show ?thesis
proof (cases "c < num_active dv n")
  case False
  then have "?na \<le> c" by simp
  then have "spawn_plan dv n c = Some None"
    unfolding spawn_plan_def
    by (simp only: mulWT Option.bind.bind_lunit nC na_eq Let_def if_P)
  with False show ?thesis by simp
next
  case True
  let ?t = "n div num_active dv n"
  let ?s = "core_lo dv n (c + 1) - core_lo dv n c"
  let ?tw = "?s div num_threads dv"
  note na = num_active_bounds [OF wf n(1)]
    and lo = core_lo_step [OF wf n(1) c True]
  have t: "0 \<le> ?t" "?na * ?t \<le> n" "0 \<le> ?na * ?t"
    using na n by (simp_all add: pos_imp_zdiv_nonneg_iff mult_div_le)
  have s: "0 \<le> ?s" "?s \<le> n" "in_int ?s"
    using lo n(2) in_int_between [of ?s n] by auto
  have n1: "(if c = ?na - 1
             then do { t \<leftarrow> c_mul ?na ?t; rem \<leftarrow> c_sub n t; c_add ?t rem } else Some ?t)
          = Some ?s"
  proof (cases "c = ?na - 1")
    case True
    then have "?s = n - c * ?t"
      by (simp add: core_lo_def)
    also have "\<dots> = ?t + (n - (c + 1) * ?t)"
      by (simp add: algebra_simps)
    finally have eq: "?s = ?t + (n - ?na * ?t)"
      using True by simp
    have "in_int (?na * ?t)" "in_int (n - ?na * ?t)"
      using t n(2) by (auto simp: in_int_def)
    with True s eq show ?thesis by (simp add: c_int)
  next
    case False
    with True show ?thesis by (simp add: core_lo_def algebra_simps)
  qed
  note tw = div_facts [OF s(1) dv(4)]
  have tw_in: "in_int ?tw"
    using tw(1,2) s(3) by (rule in_int_between)
  let ?f = "?tw div num_warps dv"
  note f = div_facts [OF tw(1) dv(3)]
  have FW: "(if ?tw \<ge> num_warps dv then do {
               f \<leftarrow> c_div ?tw (num_warps dv); u \<leftarrow> c_mul f (num_warps dv);
               r \<leftarrow> c_sub ?tw u; Some (f, r) } else Some (1, 0))
      = Some (if ?tw \<ge> num_warps dv then (?f, ?tw mod num_warps dv) else (1, 0))"
  proof -
    have "in_int (?f * num_warps dv)" "in_int (?tw - ?f * num_warps dv)"
      using f(3,4) tw_in by (auto simp: in_int_def)
    then show ?thesis
      using tw(1) tw_in dv by (simp add: c_int minus_div_mult_eq_mod)
  qed
  have r: "in_int (?tw * num_threads dv)" "in_int (?s - ?tw * num_threads dv)"
    using tw(3,4) s(3) by (auto simp: in_int_def)
  have b: "core_lo dv n c = c * ?t" "in_int (c * ?t)"
    using True lo n(2) by (auto simp: core_lo_def in_int_def)
  have ti: "in_int ?t"
    using t n na div_le_self [of n ?na] by (auto simp: in_int_def)
  have divt: "c_div n ?na = Some ?t" using n na by (simp add: c_int)
  have divs: "c_div ?s (num_threads dv) = Some ?tw" using s dv by (simp add: c_int)
  have "\<not> ?na \<le> c" using True by simp
  then show ?thesis
    unfolding spawn_plan_def
    by (simp only: mulWT Option.bind.bind_lunit nC na_eq Let_def if_False divt n1
          divs FW c_mul_in [OF r(1)] c_sub_in [OF r(2)] c_mul_in [OF b(2)] if_P [OF True])
      (simp add: plan_of_def Let_def b minus_div_mult_eq_mod)
qed
qed

section \<open>One core, consecutive tasks\<close>

text \<open>The number of tasks each thread of warp \<open>w\<close> runs, and of those of the warps before it.\<close>

definition per_thread :: "plan \<Rightarrow> int \<Rightarrow> int" where
  "per_thread pl w = fW pl + c_bool (w < rW pl)"

definition before_warp :: "plan \<Rightarrow> int \<Rightarrow> int" where
  "before_warp pl w = fW pl * w + min (rW pl) w"

lemma before_warp_Suc: "before_warp pl (w + 1) = before_warp pl w + per_thread pl w"
  by (auto simp: before_warp_def per_thread_def c_bool_def algebra_simps)

lemma plan_of_bounds:
  assumes "wf_device dv" "0 \<le> s"
  shows "0 \<le> TW (plan_of dv b s)" "0 \<le> rT (plan_of dv b s)"
    "rT (plan_of dv b s) < num_threads dv"
    "TW (plan_of dv b s) * num_threads dv + rT (plan_of dv b s) = s"
    "0 < fW (plan_of dv b s)" "0 \<le> rW (plan_of dv b s)"
    "before_warp (plan_of dv b s) (min (TW (plan_of dv b s)) (num_warps dv))
       = TW (plan_of dv b s)"
proof -
  note dv = wf_deviceD [OF assms(1)]
  show "0 \<le> TW (plan_of dv b s)" "0 \<le> rT (plan_of dv b s)"
    "rT (plan_of dv b s) < num_threads dv"
    "TW (plan_of dv b s) * num_threads dv + rT (plan_of dv b s) = s"
    "0 \<le> rW (plan_of dv b s)"
    using assms dv by (auto simp: plan_of_def Let_def pos_imp_zdiv_nonneg_iff)
  show "0 < fW (plan_of dv b s)"
    using assms dv by (auto simp: plan_of_def Let_def pos_imp_zdiv_pos_iff)
  have "min (s div num_threads dv mod num_warps dv) (num_warps dv)
      = s div num_threads dv mod num_warps dv"
    using dv pos_mod_bound [of "num_warps dv" "s div num_threads dv"] by simp
  moreover have "0 \<le> s div num_threads dv"
    using assms dv by (simp add: pos_imp_zdiv_nonneg_iff)
  ultimately show "before_warp (plan_of dv b s) (min (TW (plan_of dv b s)) (num_warps dv))
       = TW (plan_of dv b s)"
    by (auto simp: plan_of_def Let_def before_warp_def)
qed

lemma before_warp_mono:
  assumes "wf_device dv" "0 \<le> s" "0 \<le> v" "v \<le> w"
  shows "0 \<le> before_warp (plan_of dv b s) v"
    "before_warp (plan_of dv b s) v \<le> before_warp (plan_of dv b s) w"
proof -
  note pl = plan_of_bounds [OF assms(1,2), of b]
  show "0 \<le> before_warp (plan_of dv b s) v"
    using pl assms(3) by (auto simp: before_warp_def min_def)
  have "fW (plan_of dv b s) * v \<le> fW (plan_of dv b s) * w"
    using pl assms(4) by (intro mult_left_mono) auto
  then show "before_warp (plan_of dv b s) v \<le> before_warp (plan_of dv b s) w"
    using assms(4) by (auto simp: before_warp_def min_def)
qed

text \<open>
  The consecutive blocks of the threads: \<open>thread_lo pl dv b w t\<close> is the first task of thread
  \<open>t\<close> of warp \<open>w\<close> of a core whose share starts at \<open>b\<close>.
\<close>

definition thread_lo :: "device \<Rightarrow> plan \<Rightarrow> int \<Rightarrow> int \<Rightarrow> int \<Rightarrow> int" where
  "thread_lo dv pl b w t = b + before_warp pl w * num_threads dv + t * per_thread pl w"

text \<open>The integer expressions of the all-stubs stay in range.\<close>

lemma all_stub_bounds:
  assumes wf: "wf_device dv" and s: "0 \<le> b" "0 \<le> s" "in_int (b + s)"
    and pl: "pl = plan_of dv b s"
    and w: "0 \<le> w" "w < min (TW pl) (num_warps dv)" and t: "0 \<le> t" "t < num_threads dv"
  shows "in_int (fW pl * w)" "in_int (before_warp pl w)" "in_int (per_thread pl w)"
    "in_int (before_warp pl w * num_threads dv)" "in_int (b + before_warp pl w * num_threads dv)"
    "in_int (t * per_thread pl w)" "in_int (thread_lo dv pl b w t)"
    "in_int (thread_lo dv pl b w t + per_thread pl w)"
    "thread_lo dv pl b w t + per_thread pl w = thread_lo dv pl b w (t + 1)"
    "b \<le> thread_lo dv pl b w t" "thread_lo dv pl b w (t + 1) \<le> b + s"
proof -
  let ?NT = "num_threads dv"
  note dv = wf_deviceD [OF wf] and bd = plan_of_bounds [OF wf s(2), of b, folded pl]
  have k: "0 < per_thread pl w"
    using bd by (auto simp: per_thread_def c_bool_def)
  have bw: "0 \<le> before_warp pl w" "before_warp pl (w + 1) \<le> TW pl"
    using before_warp_mono [OF wf s(2) w(1), of w b] w
      before_warp_mono [OF wf s(2), of "w + 1" "min (TW pl) (num_warps dv)" b] bd(7) pl
    by auto
  let ?tk = "t * per_thread pl w" and ?t1k = "(t + 1) * per_thread pl w"
  have tk: "0 \<le> ?tk" "?tk \<le> ?t1k" "?t1k \<le> ?NT * per_thread pl w"
    using t k by (auto intro: mult_right_mono)
  have "before_warp pl (w + 1) * ?NT \<le> TW pl * ?NT"
    using bw dv by (intro mult_right_mono) auto
  moreover have "before_warp pl (w + 1) * ?NT = before_warp pl w * ?NT + ?NT * per_thread pl w"
    by (simp only: before_warp_Suc) (simp add: algebra_simps)
  ultimately have all: "before_warp pl w * ?NT + ?NT * per_thread pl w \<le> s"
    using bd(2,4) by linarith
  have bNT: "0 \<le> before_warp pl w * ?NT" "before_warp pl w \<le> before_warp pl w * ?NT"
    using bw dv by (auto simp: mult_le_cancel_left1)
  have ff: "0 \<le> fW pl * w" "fW pl * w \<le> before_warp pl w" "per_thread pl w \<le> ?NT * per_thread pl w"
    using bd w k dv by (auto simp: before_warp_def)
  show eq: "thread_lo dv pl b w t + per_thread pl w = thread_lo dv pl b w (t + 1)"
    by (simp add: thread_lo_def algebra_simps)
  have lo: "thread_lo dv pl b w t = b + before_warp pl w * ?NT + ?tk"
    "thread_lo dv pl b w (t + 1) = b + before_warp pl w * ?NT + ?t1k"
    by (simp_all only: thread_lo_def)
  show "in_int (fW pl * w)" "in_int (before_warp pl w)" "in_int (per_thread pl w)"
    "in_int (before_warp pl w * ?NT)" "in_int (b + before_warp pl w * ?NT)"
    "in_int ?tk" "in_int (thread_lo dv pl b w t)"
    unfolding lo(1)
    by (rule in_int_between [OF _ _ s(3)]; use s tk all bNT ff k bw(1) in linarith)+
  show "in_int (thread_lo dv pl b w t + per_thread pl w)"
    unfolding eq unfolding lo(2)
    by (rule in_int_between [OF _ _ s(3)]; use s tk all bNT ff k bw(1) in linarith)
  show "b \<le> thread_lo dv pl b w t" "thread_lo dv pl b w (t + 1) \<le> b + s"
    unfolding lo using tk all bNT by linarith+
qed

lemma spawn_tasks_all_stub_eq:
  assumes wf: "wf_device dv" and s: "0 \<le> b" "0 \<le> s" "in_int (b + s)"
    and pl: "pl = plan_of dv b s"
    and w: "0 \<le> w" "w < min (TW pl) (num_warps dv)" and t: "0 \<le> t" "t < num_threads dv"
    and g: "g cid = Some (tasks_args cb a b (fW pl) (rW pl))"
  shows "spawn_tasks_all_stub dv g cid w t
    = Some (block (\<lambda>i. Call cb i a) (thread_lo dv pl b w t) (thread_lo dv pl b w (t + 1)))"
  using all_stub_bounds(1-8) [OF wf s pl w t, unfolded thread_lo_def]
  unfolding thread_lo_def all_stub_bounds(9) [OF wf s pl w t, unfolded thread_lo_def, symmetric]
  by (simp add: spawn_tasks_all_stub_def tasks_args_def g c_int flip: before_warp_def per_thread_def)

context simt_isa
begin

text \<open>What the warps of a core run, in any order of warps and threads.\<close>

lemma run_warps_total:
  assumes NT: "num_threads dv \<le> 32" and n: "1 \<le> n" "n \<le> num_warps dv"
    and stub: "\<And>w t. 0 \<le> w \<Longrightarrow> w < n \<Longrightarrow> 0 \<le> t \<Longrightarrow> t < num_threads dv \<Longrightarrow> stub w t = Some (f w t)"
  obtains cs where "run_warps hw dv stub n = Some cs"
    "mset cs = (\<Sum>w = 0..<n. \<Sum>t = 0..<num_threads dv. mset (f w t))"
proof -
  let ?NT = "num_threads dv" and ?ws = "0 # spawned hw (num_warps dv) n"
  let ?wrp = "\<lambda>w. concat (map (f w) (lanes hw ?NT (- 1)))"
  note ws = warps_running [OF n] and ls = lanes_all [OF NT]
  have run: "run_warp hw dv stub w = Some (?wrp w)" if w: "w \<in> set ?ws" for w
    unfolding run_warp_def
  proof (rule traverse_total)
    fix t assume "t \<in> set (lanes hw ?NT (- 1))"
    then have "0 \<le> t" "t < ?NT" using mset_eq_setD [OF ls] by auto
    moreover have "0 \<le> w" "w < n" using mset_eq_setD [OF ws] w by auto
    ultimately show "stub w t = Some (f w t)" by (intro stub)
  qed
  have wrp: "mset (?wrp w) = (\<Sum>t = 0..<?NT. mset (f w t))" for w
    unfolding mset_concat_upto [symmetric] by (intro mset_concat_map_cong ls refl)
  have "mset (concat (map ?wrp ?ws)) = mset (concat (map ?wrp [0..n - 1]))"
    by (intro mset_concat_map_cong ws refl)
  also have "\<dots> = (\<Sum>w = 0..<n. \<Sum>t = 0..<?NT. mset (f w t))"
    unfolding mset_concat_upto by (simp only: wrp)
  finally have m: "mset (concat (map ?wrp ?ws)) = (\<Sum>w = 0..<n. \<Sum>t = 0..<?NT. mset (f w t))" .
  have "run_warps hw dv stub n = Some (concat (map ?wrp ?ws))"
    unfolding run_warps_def by (rule traverse_total) (rule run)
  then show ?thesis by (rule that [OF _ m])
qed

text \<open>
  All the full warps of a core together, in any order of warps and threads: the blocks of the
  threads make up the tasks of the full warps.
\<close>

lemma run_warps_blocks:
  assumes wf: "wf_device dv" and s: "0 \<le> s" and pl: "pl = plan_of dv b s" and TW: "1 \<le> TW pl"
    and stub: "\<And>w t. 0 \<le> w \<Longrightarrow> w < min (TW pl) (num_warps dv) \<Longrightarrow> 0 \<le> t \<Longrightarrow> t < num_threads dv
      \<Longrightarrow> stub w t = Some (block ev (thread_lo dv pl b w t) (thread_lo dv pl b w (t + 1)))"
  obtains cs where "run_warps hw dv stub (min (TW pl) (num_warps dv)) = Some cs"
    "mset cs = mset (block ev b (b + TW pl * num_threads dv))"
proof -
  let ?NT = "num_threads dv" and ?n = "min (TW pl) (num_warps dv)"
  let ?s = "\<lambda>w. b + before_warp pl w * ?NT"
  let ?thr = "\<lambda>w t. block ev (thread_lo dv pl b w t) (thread_lo dv pl b w (t + 1))"
  note dv = wf_deviceD [OF wf] and bd = plan_of_bounds [OF wf s, of b, folded pl]
  obtain cs where run: "run_warps hw dv stub ?n = Some cs"
    and cs: "mset cs = (\<Sum>w = 0..<?n. \<Sum>t = 0..<?NT. mset (?thr w t))"
    by (rule run_warps_total [of dv ?n stub ?thr]) (use dv TW stub in auto)
  have thr: "concat (map (?thr w) [0..?NT - 1]) = block ev (?s w) (?s (w + 1))" for w
  proof -
    have "0 < per_thread pl w" using bd by (auto simp: per_thread_def c_bool_def)
    then have "concat (map (?thr w) [0..?NT - 1])
        = block ev (thread_lo dv pl b w 0) (thread_lo dv pl b w ?NT)"
      using dv by (intro concat_block) (auto simp: thread_lo_def intro: mult_right_mono)
    moreover have "?s (w + 1) = ?s w + ?NT * per_thread pl w"
      by (simp only: before_warp_Suc) (simp add: algebra_simps)
    ultimately show ?thesis by (simp add: thread_lo_def add.assoc)
  qed
  have "mset cs = mset (concat (map (\<lambda>w. block ev (?s w) (?s (w + 1))) [0..?n - 1]))"
    unfolding cs mset_concat_upto mset_concat_upto [symmetric, of "?thr _"] thr ..
  also have "concat (map (\<lambda>w. block ev (?s w) (?s (w + 1))) [0..?n - 1]) = block ev (?s 0) (?s ?n)"
  proof (rule concat_block)
    fix w :: int assume "0 \<le> w"
    then have "before_warp pl w \<le> before_warp pl (w + 1)"
      unfolding pl by (intro before_warp_mono [OF wf s]) auto
    then show "?s w \<le> ?s (w + 1)"
      using dv by (auto intro: mult_right_mono)
  qed (use TW dv in simp)
  also have "?s 0 = b" using bd(6) by (simp add: before_warp_def)
  also have "?s ?n = b + TW pl * ?NT" by (simp add: bd(7))
  finally show ?thesis by (rule that [OF run])
qed

text \<open>The threads left over: one task each, in a partial warp.\<close>

lemma run_remaining_block:
  assumes wf: "wf_device dv" and r: "0 \<le> r" "r < num_threads dv"
    and stub: "\<And>t. 0 \<le> t \<Longrightarrow> t < r \<Longrightarrow> stub t = Some [ev (off + t)]"
  obtains cs where "run_remaining hw dv stub r = Some cs" "mset cs = mset (block ev off (off + r))"
proof -
  let ?m = "word_of_int (2 ^ nat r - 1) :: u32" and ?NT = "num_threads dv"
  let ?one = "\<lambda>t. [ev (off + t)]"
  note dv = wf_deviceD [OF wf]
  have "?m = mask (nat r)"
    by (simp add: mask_eq_exp_minus_1)
  then have ls: "mset (lanes hw ?NT ?m) = mset [0..r - 1]"
    using lanes_low [of r ?NT] r dv by simp
  have sh: "c_shl 1 r = Some (2 ^ nat r)" using r dv by (simp add: c_shl_one)
  have su: "c_sub (2 ^ nat r) 1 = Some (2 ^ nat r - 1)"
    using r dv by (intro c_sub_in pow2_in_int) auto
  have run: "traverse stub (lanes hw ?NT ?m) = Some (concat (map ?one (lanes hw ?NT ?m)))"
    using mset_eq_setD [OF ls] by (intro traverse_total stub) auto
  have "mset (concat (map ?one (lanes hw ?NT ?m))) = mset (concat (map ?one [0..r - 1]))"
    by (intro mset_concat_map_cong ls refl)
  moreover have "concat (map ?one [0..r - 1]) = block ev off (off + r)"
    by (simp add: block_def flip: map_upto_shift)
  ultimately have m: "mset (concat (map ?one (lanes hw ?NT ?m))) = mset (block ev off (off + r))"
    by (simp only:)
  have "run_remaining hw dv stub r = Some (concat (map ?one (lanes hw ?NT ?m)))"
    unfolding run_remaining_def sh su Option.bind.bind_lunit by (rule run)
  then show ?thesis by (rule that [OF _ m])
qed

end

section \<open>From the cores to the launch\<close>

lemma plan_of_sel [simp]: "base (plan_of dv b s) = b" "share (plan_of dv b s) = s"
  by (simp_all add: plan_of_def Let_def)

text \<open>
  A core whose full warps cover the front of its share and whose remaining threads cover the
  rest, whatever the stubs.
\<close>

context simt_isa
begin

lemma spawn_core_block:
  assumes wf: "wf_device dv" and n: "0 \<le> n" "in_int n" and c: "0 \<le> c" "c < num_cores dv"
    and main: "\<And>b s pl. 0 \<le> b \<Longrightarrow> 0 \<le> s \<Longrightarrow> b + s \<le> n \<Longrightarrow> pl = plan_of dv b s \<Longrightarrow> 1 \<le> TW pl \<Longrightarrow>
      \<exists>cs. run_warps hw dv (all_stub (g(c \<mapsto> mk b (fW pl) (rW pl))) c) (min (TW pl) (num_warps dv)) = Some cs
        \<and> mset cs = mset (block ev b (b + TW pl * num_threads dv))"
    and rem: "\<And>off f r t. 0 \<le> off \<Longrightarrow> 0 \<le> t \<Longrightarrow> off + t < n \<Longrightarrow>
      rem_stub (g(c \<mapsto> mk off f r)) c t = Some [ev (off + t)]"
  shows "\<exists>g' cs. spawn_core hw dv n mk all_stub rem_stub g c = Some (g', cs)
      \<and> mset cs = (if c < num_active dv n
                    then mset (block ev (core_lo dv n c) (core_lo dv n (c + 1))) else {#})"
proof (cases "c < num_active dv n")
  case False
  then show ?thesis
    using spawn_plan_eq [OF wf n c(1)] by (simp add: spawn_core_def)
next
  case True
  let ?b = "core_lo dv n c" and ?s = "core_lo dv n (c + 1) - core_lo dv n c"
  define pl where pl: "pl = plan_of dv ?b ?s"
  let ?g = "g(c \<mapsto> mk ?b (fW pl) (rW pl))"
  let ?mid = "?b + TW pl * num_threads dv"
  let ?g' = "g(c \<mapsto> mk ?mid (fW pl) (rW pl))"
  note lo = core_lo_step [OF wf n(1) c(1) True]
  have s: "0 \<le> ?b" "0 \<le> ?s" "in_int (?b + ?s)" "?b + ?s \<le> n"
    using lo n(2) by (auto simp: in_int_def)
  note bd = plan_of_bounds [OF wf s(2), of ?b, folded pl]
  have plan: "spawn_plan dv n c = Some (Some pl)"
    using spawn_plan_eq [OF wf n c(1)] True by (simp add: pl)
  have core: "\<not> NUM_CORES_MAX \<le> c"
    using c wf_deviceD(2) [OF wf] by (simp add: NUM_CORES_MAX_def)
  have sel: "base pl = ?b" "share pl = ?s"
    by (simp_all add: pl)
  obtain cs where cs: "(if TW pl \<ge> 1 then run_warps hw dv (all_stub ?g c)
                (min (TW pl) (num_warps dv)) else Some []) = Some cs"
      "mset cs = mset (block ev ?b ?mid)"
  proof (cases "1 \<le> TW pl")
    case False
    with bd(1) have "TW pl = 0" by simp
    with that [of "[]"] show ?thesis by simp
  qed (use main [OF s(1,2,4) pl] that in auto)
  have mid: "?b + (?s - rT pl) = ?mid" and t: "0 \<le> TW pl * num_threads dv"
    and end_eq: "?mid + rT pl = core_lo dv n (c + 1)"
    using bd(1,4) wf_deviceD(4) [OF wf] by simp_all
  have "in_int (?s - rT pl)" "in_int (?b + (?s - rT pl))"
    by (rule in_int_between [OF _ _ s(3)]; use s mid bd t in linarith)+
  then have arith: "c_sub ?s (rT pl) = Some (?s - rT pl)" "c_add ?b (?s - rT pl) = Some ?mid"
    by (simp_all only: c_sub_in c_add_in mid)
  obtain rest where rest: "run_remaining hw dv (rem_stub ?g' c) (rT pl) = Some rest"
      "mset rest = mset (block ev ?mid (?mid + rT pl))"
  proof (rule run_remaining_block [OF wf bd(2,3)])
    fix t assume "0 \<le> t" "t < rT pl"
    then show "rem_stub ?g' c t = Some [ev (?mid + t)]"
      using s t end_eq lo \<open>0 \<le> TW pl * num_threads dv\<close> by (intro rem) auto
  qed (rule that)
  have join: "mset (block ev ?b ?mid) + mset (block ev ?mid (?mid + rT pl))
      = mset (block ev ?b (core_lo dv n (c + 1)))"
    unfolding end_eq [symmetric] mset_append [symmetric]
    using bd(2) t by (intro arg_cong [where f = mset] block_append) auto
  show ?thesis
  proof (cases "rT pl = 0")
    case True
    have "spawn_core hw dv n mk all_stub rem_stub g c = Some (?g, cs)"
      using True cs(1) core plan
      by (cases "1 \<le> TW pl") (simp_all add: spawn_core_def Let_def sel)
    then show ?thesis
      using cs(2) join True \<open>c < num_active dv n\<close> by simp
  next
    case False
    have "spawn_core hw dv n mk all_stub rem_stub g c = Some (?g', cs @ rest)"
      using False cs(1) rest(1) core plan arith
      by (cases "1 \<le> TW pl") (simp_all add: spawn_core_def Let_def sel)
    then show ?thesis
      using cs(2) rest(2) join \<open>c < num_active dv n\<close> by simp
  qed
qed

end

text \<open>If core \<open>c\<close> covers its block of the partition, the launch covers all tasks.\<close>

lemma launch_covers:
  assumes wf: "wf_device dv" and n: "0 \<le> n"
    and core: "\<And>c. 0 \<le> c \<Longrightarrow> c < num_cores dv \<Longrightarrow> \<exists>g' cs. entry c = Some (g', cs)
      \<and> mset cs = (if c < num_active dv n
                    then mset (block ev (core_lo dv n c) (core_lo dv n (c + 1))) else {#})"
  shows "\<exists>cs. launch dv entry = Some cs \<and> mset cs = mset (block ev 0 n)"
proof -
  let ?na = "num_active dv n" and ?NC = "num_cores dv"
  let ?blk = "\<lambda>c. block ev (core_lo dv n c) (core_lo dv n (c + 1))"
  let ?f = "\<lambda>c. snd (the (entry c))"
  note na = num_active_bounds [OF wf n]
  have run: "launch dv entry = Some (concat (map ?f [0..?NC - 1]))"
    unfolding launch_def using core by (intro traverse_total) force
  have f: "mset (?f c) = (if c < ?na then mset (?blk c) else {#})" if "0 \<le> c" "c < ?NC" for c
    using core [OF that] by auto
  have split: "[0..?NC - 1] = [0..?na - 1] @ [?na..?NC - 1]"
    using na by (simp add: upto_append)
  have "mset (concat (map ?f [0..?na - 1])) = mset (concat (map ?blk [0..?na - 1]))"
    using f na by (intro mset_concat_map_cong) auto
  also have "concat (map ?blk [0..?na - 1]) = block ev (core_lo dv n 0) (core_lo dv n ?na)"
    using core_lo_step [OF wf n] na by (intro concat_block) auto
  also have "core_lo dv n 0 = 0" using na by (simp add: core_lo_def)
  also have "core_lo dv n ?na = n" by (simp add: core_lo_def)
  finally have 1: "mset (concat (map ?f [0..?na - 1])) = mset (block ev 0 n)" .
  have "mset (concat (map ?f [?na..?NC - 1])) = mset (concat (map (\<lambda>_. []) [?na..?NC - 1]))"
    using f na by (intro mset_concat_map_cong) auto
  then have 2: "mset (concat (map ?f [?na..?NC - 1])) = {#}"
    by (simp add: mset_concat_map)
  show ?thesis
    using run 1 2 by (simp add: split)
qed

section \<open>The three entry functions\<close>

text \<open>Tasks in wave order: thread \<open>t\<close> of warp \<open>w\<close> runs task \<open>v * NW * NT + w * NT + t\<close> in wave \<open>v\<close>.\<close>

lemma waves_iff:
  assumes wf: "wf_device dv" and pl: "pl = plan_of dv b s"
    and w: "0 \<le> w" "w < min (TW pl) (num_warps dv)"
  shows "0 \<le> v \<and> v < per_thread pl w \<longleftrightarrow> 0 \<le> v \<and> v * num_warps dv + w < TW pl"
proof -
  let ?NW = "num_warps dv"
  note dv = wf_deviceD [OF wf]
  show ?thesis
  proof (cases "?NW \<le> TW pl")
    case True
    then have fr: "fW pl = TW pl div ?NW" "rW pl = TW pl mod ?NW"
      by (auto simp: pl plan_of_def Let_def)
    have "v * ?NW + w < TW pl \<longleftrightarrow> v * ?NW + w < fW pl * ?NW + rW pl"
      by (simp add: fr)
    moreover have "v * ?NW + w < fW pl * ?NW + rW pl \<longleftrightarrow> v < fW pl \<or> v = fW pl \<and> w < rW pl"
    proof -
      have r: "0 \<le> rW pl" "rW pl < ?NW" using fr dv by simp_all
      have "v * ?NW + w < fW pl * ?NW + rW pl" if "v < fW pl"
      proof -
        have "(v + 1) * ?NW \<le> fW pl * ?NW" using that dv by (intro mult_right_mono) auto
        then show ?thesis using w r by (simp add: algebra_simps)
      qed
      moreover have "\<not> v * ?NW + w < fW pl * ?NW + rW pl" if "fW pl < v"
      proof -
        have "(fW pl + 1) * ?NW \<le> v * ?NW" using that dv by (intro mult_right_mono) auto
        then show ?thesis using w r by (simp add: algebra_simps)
      qed
      ultimately show ?thesis by (cases v "fW pl" rule: linorder_cases) auto
    qed
    ultimately show ?thesis by (auto simp: per_thread_def c_bool_def)
  next
    case False
    then have fr: "fW pl = 1" "rW pl = 0" by (auto simp: pl plan_of_def Let_def)
    have "v * ?NW + w < TW pl \<longleftrightarrow> v = 0" if v: "0 \<le> v"
    proof -
      have le: "?NW \<le> v * ?NW" if "v \<noteq> 0"
        using mult_right_mono [of 1 v ?NW] that v dv by simp
      have "\<not> v * ?NW + w < TW pl" if "v \<noteq> 0"
        using le [OF that] w False by linarith
      moreover have "0 * ?NW + w < TW pl" using w by simp
      ultimately show ?thesis by blast
    qed
    then show ?thesis using w by (auto simp: per_thread_def c_bool_def fr)
  qed
qed

lemma waves_sum:
  fixes g :: "int \<Rightarrow> 'm::comm_monoid_add"
  assumes wf: "wf_device dv" and pl: "pl = plan_of dv b s"
  shows "(\<Sum>w = 0..<min (TW pl) (num_warps dv). \<Sum>v = 0..<per_thread pl w. g (v * num_warps dv + w))
    = (\<Sum>q = 0..<TW pl. g q)"
proof -
  let ?NW = "num_warps dv" and ?n = "min (TW pl) (num_warps dv)"
  note dv = wf_deviceD [OF wf] and waves = waves_iff [OF wf pl]
  show ?thesis
  proof (rule sum_deal)
    fix q assume q: "0 \<le> q" "q < TW pl"
    then have "q mod ?NW \<le> q" by (simp add: zmod_le_nonneg_dividend)
    with q dv show "q mod ?NW < ?n" by simp
  qed (use dv waves in auto)
qed

lemma mset_block: "mset (block ev x y) = (\<Sum>i = 0..<y - x. {#ev (x + i)#})"
proof -
  have "block ev x y = concat (map (\<lambda>i. [ev (x + i)]) [0..(y - x) - 1])"
    using map_upto_shift [of x "y - x"] by (simp add: block_def flip: map_map [unfolded comp_def])
  then show ?thesis by (simp only: mset_concat_upto) simp
qed

lemma mset_blocks_sum:
  assumes "0 \<le> n" "0 \<le> k"
  shows "(\<Sum>q = 0..<n. \<Sum>t = 0..<k. {#ev (b + q * k + t)#}) = mset (block ev b (b + n * k))"
proof -
  have "concat (map (\<lambda>q. block ev (b + q * k) (b + (q + 1) * k)) [0..n - 1])
      = block ev (b + 0 * k) (b + n * k)"
    using assms by (intro concat_block) (auto intro: mult_right_mono)
  moreover have "mset (block ev (b + q * k) (b + (q + 1) * k)) = (\<Sum>t = 0..<k. {#ev (b + q * k + t)#})" for q
    by (simp add: mset_block algebra_simps)
  ultimately show ?thesis
    using mset_concat_upto [of "\<lambda>q. block ev (b + q * k) (b + (q + 1) * k)" n] by simp
qed

text \<open>The stub of the contiguous variant: thread \<open>t\<close> of warp \<open>w\<close> runs one task per wave.\<close>

lemma contiguous_stub_eq:
  assumes wf: "wf_device dv" and s: "0 \<le> b" "0 \<le> s" "in_int (b + s)"
    and pl: "pl = plan_of dv b s"
    and w: "0 \<le> w" "w < min (TW pl) (num_warps dv)" and t: "0 \<le> t" "t < num_threads dv"
    and g: "g cid = Some (tasks_args cb a b (fW pl) (rW pl))"
  shows "spawn_tasks_contiguous_all_stub dv g cid w t
    = Some (concat (map (\<lambda>v. [Call cb (b + (v * num_warps dv + w) * num_threads dv + t) a])
        [0..per_thread pl w - 1]))"
proof -
  let ?NT = "num_threads dv" and ?NW = "num_warps dv" and ?K = "per_thread pl w"
  note dv = wf_deviceD [OF wf] and bd = plan_of_bounds [OF wf s(2), of b, folded pl]
  have task: "(v * ?NW + w) * ?NT + ?NT \<le> s" if "0 \<le> v" "v < ?K" for v
  proof -
    have "v * ?NW + w + 1 \<le> TW pl" using waves_iff [OF wf pl w, of v] that by simp
    then have "(v * ?NW + w + 1) * ?NT \<le> TW pl * ?NT" using dv by (intro mult_right_mono) auto
    then show ?thesis using bd by (simp add: algebra_simps)
  qed
  have nn: "0 \<le> w * ?NT" using w dv by simp
  have K: "0 < ?K" using bd by (auto simp: per_thread_def c_bool_def)
  have wnt: "?NT * w + ?NT \<le> s" using task [of 0] K by (simp add: mult.commute)
  have wv: "c_add (fW pl) (c_bool (w < rW pl)) = Some ?K"
    using all_stub_bounds(3) [OF wf s pl w t] by (simp add: per_thread_def c_int)
  have o: "c_mul ?NT w = Some (?NT * w)" "c_add (?NT * w) t = Some (?NT * w + t)"
    "c_add b (?NT * w + t) = Some (b + (?NT * w + t))"
    by (intro c_mul_in c_add_in in_int_between [OF _ _ s(3)];
        use wnt nn t s dv in \<open>simp add: mult.commute\<close>)+
  have one: "(do { s1 \<leftarrow> c_mul v ?NT; s2 \<leftarrow> c_mul s1 ?NW; task_id \<leftarrow> c_add (b + (?NT * w + t)) s2;
                 Some [Call cb task_id a] })
      = Some [Call cb (b + (v * ?NW + w) * ?NT + t) a]" if v: "v \<in> set [0..?K - 1]" for v
  proof -
    have v: "0 \<le> v" "v < ?K" using v by auto
    have eq: "b + (v * ?NW + w) * ?NT + t = b + (?NT * w + t) + v * ?NT * ?NW"
      by (simp add: algebra_simps)
    have vn: "0 \<le> v * ?NT" using v dv by simp
    moreover have "v * ?NT \<le> v * ?NT * ?NW"
      using vn dv by (metis mult_left_mono mult.right_neutral)
    ultimately have vn: "0 \<le> v * ?NT" "v * ?NT \<le> v * ?NT * ?NW" .
    have "b + (?NT * w + t) + v * ?NT * ?NW \<le> b + s"
      using task [OF v] t eq by linarith
    then have "in_int (v * ?NT)" "in_int (v * ?NT * ?NW)" "in_int (b + (?NT * w + t) + v * ?NT * ?NW)"
      by (intro in_int_between [OF _ _ s(3)]; use vn nn s t in \<open>simp add: mult.commute\<close>)+
    then show ?thesis unfolding eq by (simp add: c_mul_in c_add_in)
  qed
  have tr: "traverse (\<lambda>v. do { s1 \<leftarrow> c_mul v ?NT; s2 \<leftarrow> c_mul s1 ?NW;
        task_id \<leftarrow> c_add (b + (?NT * w + t)) s2; Some [Call cb task_id a] }) [0..?K - 1]
      = Some (concat (map (\<lambda>v. [Call cb (b + (v * ?NW + w) * ?NT + t) a]) [0..?K - 1]))"
    by (rule traverse_total) (rule one)
  show ?thesis
    unfolding spawn_tasks_contiguous_all_stub_def
    by (simp add: tasks_args_def g wv o tr)
qed

context simt_isa
begin

text \<open>The full warps of a core when each thread runs one task per wave.\<close>

lemma run_warps_waves:
  assumes wf: "wf_device dv" and s: "0 \<le> s" and pl: "pl = plan_of dv b s" and TW: "1 \<le> TW pl"
    and stub: "\<And>w t. 0 \<le> w \<Longrightarrow> w < min (TW pl) (num_warps dv) \<Longrightarrow> 0 \<le> t \<Longrightarrow> t < num_threads dv
      \<Longrightarrow> stub w t = Some (concat (map (\<lambda>v. [ev (b + (v * num_warps dv + w) * num_threads dv + t)])
            [0..per_thread pl w - 1]))"
  obtains cs where "run_warps hw dv stub (min (TW pl) (num_warps dv)) = Some cs"
    "mset cs = mset (block ev b (b + TW pl * num_threads dv))"
proof -
  let ?NT = "num_threads dv" and ?NW = "num_warps dv" and ?n = "min (TW pl) (num_warps dv)"
  let ?thr = "\<lambda>w t. concat (map (\<lambda>v. [ev (b + (v * ?NW + w) * ?NT + t)]) [0..per_thread pl w - 1])"
  note dv = wf_deviceD [OF wf]
  obtain cs where run: "run_warps hw dv stub ?n = Some cs"
    and cs: "mset cs = (\<Sum>w = 0..<?n. \<Sum>t = 0..<?NT. mset (?thr w t))"
    by (rule run_warps_total [of dv ?n stub ?thr]) (use dv TW stub in auto)
  have thr: "mset (?thr w t) = (\<Sum>v = 0..<per_thread pl w. {#ev (b + (v * ?NW + w) * ?NT + t)#})" for w t
    unfolding mset_concat_upto by simp
  have "mset cs = (\<Sum>w = 0..<?n. \<Sum>v = 0..<per_thread pl w. \<Sum>t = 0..<?NT. {#ev (b + (v * ?NW + w) * ?NT + t)#})"
    unfolding cs thr by (intro sum.cong refl sum.swap)
  also have "\<dots> = (\<Sum>q = 0..<TW pl. \<Sum>t = 0..<?NT. {#ev (b + q * ?NT + t)#})"
    by (rule waves_sum [OF wf pl])
  also have "\<dots> = mset (block ev b (b + TW pl * ?NT))"
    using TW dv by (intro mset_blocks_sum) auto
  finally show ?thesis by (rule that [OF run])
qed

text \<open>Every core of the two task launches covers its block of the partition.\<close>

lemma rem_stub_one:
  assumes "in_int n" "0 \<le> off" "0 \<le> t" "off + t < n"
  shows "spawn_tasks_rem_stub dv (g(c \<mapsto> tasks_args cb a off f r)) c t = Some [Call cb (off + t) a]"
proof -
  have "in_int (off + t)" by (rule in_int_between [OF _ _ assms(1)]; use assms in linarith)
  then show ?thesis by (simp add: spawn_tasks_rem_stub_def tasks_args_def c_add_in)
qed

lemma vx_spawn_tasks_core:
  assumes wf: "wf_device dv" and n: "0 \<le> n" "in_int n" and c: "0 \<le> c" "c < num_cores dv"
  shows "\<exists>g' cs. vx_spawn_tasks hw dv n cb a g c = Some (g', cs)
      \<and> mset cs = (if c < num_active dv n
          then mset (block (\<lambda>i. Call cb i a) (core_lo dv n c) (core_lo dv n (c + 1))) else {#})"
  unfolding vx_spawn_tasks_def
proof (rule spawn_core_block [OF wf n c])
  fix b s pl assume s: "0 \<le> b" "0 \<le> s" "b + s \<le> n" and pl: "pl = plan_of dv b s" and TW: "1 \<le> TW pl"
  have i: "in_int (b + s)" by (rule in_int_between [OF _ _ n(2)]; use s in linarith)
  show "\<exists>cs. run_warps hw dv (spawn_tasks_all_stub dv (g(c \<mapsto> tasks_args cb a b (fW pl) (rW pl))) c)
        (min (TW pl) (num_warps dv)) = Some cs
      \<and> mset cs = mset (block (\<lambda>i. Call cb i a) b (b + TW pl * num_threads dv))"
    by (rule run_warps_blocks [OF wf s(2) pl TW spawn_tasks_all_stub_eq
        [OF wf s(1,2) i pl, where g = "g(c \<mapsto> tasks_args cb a b (fW pl) (rW pl))" and cid = c and cb = cb and a = a]]) auto
qed (rule rem_stub_one [OF n(2)])

lemma vx_spawn_tasks_contiguous_core:
  assumes wf: "wf_device dv" and n: "0 \<le> n" "in_int n" and c: "0 \<le> c" "c < num_cores dv"
  shows "\<exists>g' cs. vx_spawn_tasks_contiguous hw dv n cb a g c = Some (g', cs)
      \<and> mset cs = (if c < num_active dv n
          then mset (block (\<lambda>i. Call cb i a) (core_lo dv n c) (core_lo dv n (c + 1))) else {#})"
  unfolding vx_spawn_tasks_contiguous_def
proof (rule spawn_core_block [OF wf n c])
  fix b s pl assume s: "0 \<le> b" "0 \<le> s" "b + s \<le> n" and pl: "pl = plan_of dv b s" and TW: "1 \<le> TW pl"
  have i: "in_int (b + s)" by (rule in_int_between [OF _ _ n(2)]; use s in linarith)
  show "\<exists>cs. run_warps hw dv
        (spawn_tasks_contiguous_all_stub dv (g(c \<mapsto> tasks_args cb a b (fW pl) (rW pl))) c)
        (min (TW pl) (num_warps dv)) = Some cs
      \<and> mset cs = mset (block (\<lambda>i. Call cb i a) b (b + TW pl * num_threads dv))"
    by (rule run_warps_waves [OF wf s(2) pl TW contiguous_stub_eq
        [OF wf s(1,2) i pl, where g = "g(c \<mapsto> tasks_args cb a b (fW pl) (rW pl))" and cid = c and cb = cb and a = a]]) auto
qed (rule rem_stub_one [OF n(2)])

end

section \<open>Properties\<close>

text \<open>C1: a launch of \<open>vx_spawn_tasks\<close> on any device, with any number of tasks, calls the
  callback exactly once for each task id \<open>0, \<dots>, n - 1\<close> and for nothing else, and
  no integer operation of the scheduler or of its stubs overflows.\<close>

theorem vx_spawn_tasks_exactly_once:
  assumes "simt_isa hw" "wf_device dv" "0 \<le> n" "in_int n"
  shows "\<exists>cs. launch dv (vx_spawn_tasks hw dv n cb a g) = Some cs
    \<and> mset cs = mset (map (\<lambda>i. Call cb i a) [0..n - 1])"
  using launch_covers [OF assms(2,3) simt_isa.vx_spawn_tasks_core [OF assms]]
  by (simp add: block_def)

theorem vx_spawn_tasks_exactly_once_witness:
  "\<exists>cs. launch \<lparr>num_cores = 2, num_warps = 4, num_threads = 8\<rparr>
      (vx_spawn_tasks std_simt \<lparr>num_cores = 2, num_warps = 4, num_threads = 8\<rparr> 1003 ''cb'' () (\<lambda>_. None)) = Some cs
    \<and> mset cs = mset (map (\<lambda>i. Call ''cb'' i ()) [0..1003 - 1])"
  by (rule vx_spawn_tasks_exactly_once [OF std.simt_isa_axioms])
    (simp_all add: wf_device_def in_int_def)

text \<open>C2: the same for \<open>vx_spawn_tasks_contiguous\<close>, whose threads stride over the
  tasks of their core wave by wave: exactly one call per task id, and no overflow.\<close>

theorem vx_spawn_tasks_contiguous_exactly_once:
  assumes "simt_isa hw" "wf_device dv" "0 \<le> n" "in_int n"
  shows "\<exists>cs. launch dv (vx_spawn_tasks_contiguous hw dv n cb a g) = Some cs
    \<and> mset cs = mset (map (\<lambda>i. Call cb i a) [0..n - 1])"
  using launch_covers [OF assms(2,3) simt_isa.vx_spawn_tasks_contiguous_core [OF assms]]
  by (simp add: block_def)

theorem vx_spawn_tasks_contiguous_exactly_once_witness:
  "\<exists>cs. launch \<lparr>num_cores = 3, num_warps = 2, num_threads = 4\<rparr>
      (vx_spawn_tasks_contiguous std_simt \<lparr>num_cores = 3, num_warps = 2, num_threads = 4\<rparr> 77 True () (\<lambda>_. None)) = Some cs
    \<and> mset cs = mset (map (\<lambda>i. Call True i ()) [0..77 - 1])"
  by (rule vx_spawn_tasks_contiguous_exactly_once [OF std.simt_isa_axioms])
    (simp_all add: wf_device_def in_int_def)

end
