(* ===== verification/Vx_Kernel_Props.thy ===== *)
theory Vx_Kernel_Props
  imports Vx_Spawn_Props
begin

text \<open>
  Correctness of \<open>vx_spawn_kernel\<close>: the bit tricks that select and implement its fast
  path, the decomposition of a work-group id into grid coordinates on both paths, and the
  coverage of the whole grid by a launch.
\<close>

section \<open>The integer logarithm\<close>

lemma clz_from_bit:
  assumes "k < n" "bit w k" "\<And>j. k < j \<Longrightarrow> j < n \<Longrightarrow> \<not> bit w j"
  shows "clz_from n w = int n - 1 - int k"
  using assms
proof (induction n)
  case (Suc n)
  show ?case
  proof (cases "k = n")
    case False
    then have "k < n" "\<not> bit w n" using Suc.prems by auto
    with Suc show ?thesis by simp
  qed (use Suc.prems in simp)
qed simp

lemma bit_of_range:
  fixes x :: int
  assumes "2 ^ k \<le> x" "x < 2 ^ Suc k"
  shows "bit x k" "\<And>j. k < j \<Longrightarrow> \<not> bit x j"
proof -
  have "x div 2 ^ k = 1"
  proof (rule div_pos_geq [THEN trans])
    show "(x - 2 ^ k) div 2 ^ k + 1 = 1" using assms by (simp add: div_pos_pos_trivial)
  qed (use assms in auto)
  then show "bit x k" by (simp add: bit_iff_odd)
  fix j assume "k < j"
  then have "(2::int) ^ Suc k \<le> 2 ^ j" by (intro power_increasing) auto
  with assms have "0 \<le> x" "x < 2 ^ j" by (auto intro: order_trans [of 0 "2 ^ k"])
  then have "x div 2 ^ j = 0" by (rule div_pos_pos_trivial)
  then show "\<not> bit x j" by (simp add: bit_iff_odd)
qed

lemma log2_fast_range:
  assumes "2 ^ k \<le> x" "x < 2 ^ Suc k" "k < 32"
  shows "log2_fast clz0 x = int k"
proof -
  have "clz_from 32 (word_of_int x) = int 32 - 1 - int k"
    using bit_of_range [OF assms(1,2)] assms(3)
    by (intro clz_from_bit) (auto simp: bit_word_of_int_iff)
  moreover have "x \<noteq> 0" using assms(1) by (auto simp: not_le)
  ultimately show ?thesis by (simp add: log2_fast_def)
qed

lemma exists_log2:
  assumes "0 < x" "in_int x"
  obtains k where "2 ^ k \<le> x" "x < 2 ^ Suc k" "k < 31"
proof -
  have "\<exists>k. 2 ^ k \<le> nat x \<and> nat x < 2 ^ (k + 1)"
    using assms by (intro ex_power_ivl1) auto
  then obtain k where k: "2 ^ k \<le> nat x" "nat x < 2 ^ (k + 1)" by blast
  have i: "2 ^ k \<le> x" "x < 2 ^ Suc k"
    using k assms by (simp_all add: nat_less_iff le_nat_iff)
  have "(2::int) ^ k < 2 ^ 31" using i assms by (auto simp: in_int_def)
  then have "k < 31" by (rule power_less_imp_less_exp [rotated]) simp
  with i show ?thesis by (rule that)
qed

lemma is_log2_range:
  assumes "2 ^ k \<le> x" "x < 2 ^ Suc k" "k < 31"
  shows "is_log2 x \<longleftrightarrow> x = 2 ^ k"
proof
  assume "x = 2 ^ k"
  moreover have "(word_of_int (2 ^ k) :: u32) AND word_of_int (2 ^ k - 1) = 0"
    using assms(3) by (intro bit_word_eqI) (auto simp: bit_simps simp flip: mask_eq_exp_minus_1)
  ultimately show "is_log2 x" by (simp add: is_log2_def)
next
  assume z: "is_log2 x"
  show "x = 2 ^ k"
  proof (rule ccontr)
    assume "x \<noteq> 2 ^ k"
    then have "bit (x - 1) k" by (intro bit_of_range) (use assms in auto)
    with bit_of_range(1) [OF assms(1,2)] assms(3)
    have "bit (word_of_int x :: u32) k" "bit (word_of_int (x - 1) :: u32) k"
      unfolding bit_word_of_int_iff by auto
    then have "bit ((word_of_int x :: u32) AND word_of_int (x - 1)) k"
      by (simp only: bit_and_iff)
    with z show False by (simp add: is_log2_def)
  qed
qed

section \<open>One work group\<close>

text \<open>The invocation for work group \<open>w\<close> of an \<open>X\<close> by \<open>Y\<close> grid: \<open>X\<close> varies fastest.\<close>

definition group_ev :: "'c \<Rightarrow> 'a \<Rightarrow> context_t \<Rightarrow> int \<Rightarrow> ('c, 'a) kcall" where
  "group_ev cb a ctx w =
     (let X = sint (num_groups0 ctx); XY = X * sint (num_groups1 ctx)
      in KCall cb a ctx (word_of_int (w mod XY mod X)) (word_of_int (w mod XY div X))
           (word_of_int (w div XY)))"

text \<open>A divisor of a power of two is one; the two shifts are the two divisions.\<close>

lemma factor_pow2:
  fixes a b :: nat
  assumes "a * b = 2 ^ k"
  shows "\<exists>j\<le>k. a = 2 ^ j"
  using assms
proof (induction k arbitrary: a b)
  case (Suc k)
  then have "even (a * b)" by simp
  then consider c where "a = 2 * c" | c where "b = 2 * c" by auto
  then show ?case
  proof cases
    case 1
    with Suc.prems have "c * b = 2 ^ k" by simp
    from Suc.IH [OF this] 1 show ?thesis by (metis Suc_le_mono power_Suc)
  next
    case 2
    with Suc.prems have "a * c = 2 ^ k" by simp
    then obtain j where "j \<le> k" "a = 2 ^ j" using Suc.IH by blast
    then show ?thesis by (intro exI [of _ j]) simp
  qed
qed simp

lemma pow2_shifts:
  fixes X Y :: int
  assumes "0 < X" "0 < Y" "in_int (X * Y)" "is_log2 (X * Y)"
  shows "\<exists>k j. X * Y = 2 ^ k \<and> X = 2 ^ j \<and> log2_fast clz0 (X * Y) = int k
    \<and> log2_fast clz0 X = int j \<and> k < 32 \<and> j < 32"
proof -
  obtain k where k: "2 ^ k \<le> X * Y" "X * Y < 2 ^ Suc k" "k < 31"
    using exists_log2 assms by (metis mult_pos_pos)
  with assms(4) have XY: "X * Y = 2 ^ k" using is_log2_range by blast
  then have "nat X * nat Y = 2 ^ k" using assms by (simp add: nat_mult_distrib [symmetric] nat_power_eq)
  then obtain j where j: "nat X = 2 ^ j" "j \<le> k" using factor_pow2 by blast
  then have X: "X = 2 ^ j" using assms(1) by (metis int_nat_eq less_imp_le of_nat_numeral of_nat_power)
  have "log2_fast clz0 X = int j" using j k X by (intro log2_fast_range) auto
  moreover have "log2_fast clz0 (X * Y) = int k" using k by (intro log2_fast_range) auto
  ultimately show ?thesis using XY X j k by auto
qed

lemma group_call_eq:
  assumes w: "0 \<le> w" "in_int w" and X: "0 < sint (num_groups0 ctx)" and Y: "0 < sint (num_groups1 ctx)"
    and XY: "in_int (sint (num_groups0 ctx) * sint (num_groups1 ctx))"
  shows "group_call (kernel_args clz0 ctx cb a off f r) w = Some [group_ev cb a ctx w]"
proof -
  let ?X = "sint (num_groups0 ctx)" and ?Y = "sint (num_groups1 ctx)" and ?p = "kernel_args clz0 ctx cb a off f r"
  let ?XY = "?X * ?Y" and ?r = "w mod (?X * ?Y)"
  have p: "0 < ?XY" using X Y by simp
  have r: "0 \<le> ?r" "?r < ?XY" using p by simp_all
  have ri: "in_int ?r" by (rule in_int_between [OF r(1) less_imp_le [OF r(2)] XY])
  have f: "(if isXYpow2 ?p then c_sar w (log2XY ?p) else c_div w ?XY) = Some (w div ?XY)"
    "(if isXYpow2 ?p then c_sar ?r (log2X ?p) else c_div ?r ?X) = Some (?r div ?X)"
    using pow2_shifts [OF X Y XY, of clz0] w r X p XY
      c_div_in [of w ?XY] c_div_in [of ?r ?X, OF r(1) X in_int_between [OF r(1) less_imp_le [OF r(2)] XY]]
    by (auto simp: kernel_args_def Let_def c_sar_def)
  note m = c_mul_in [OF XY] c_div_rest [OF w(1) p w(2)] c_div_rest [OF r(1) X ri]
  have sel: "k_ctx ?p = ctx" "k_callback ?p = cb" "k_arg ?p = a"
    by (simp_all add: kernel_args_def Let_def)
  show ?thesis
    by (simp only: group_call_def Let_def sel m f Option.bind.bind_lunit group_ev_def)
qed

section \<open>The whole grid\<close>

text \<open>The specification: one invocation per coordinate triple.\<close>

definition kernel_grid :: "'c \<Rightarrow> 'a \<Rightarrow> context_t \<Rightarrow> ('c, 'a) kcall list" where
  "kernel_grid cb a ctx =
     concat (map (\<lambda>k. concat (map (\<lambda>j. map (\<lambda>i.
         KCall cb a ctx (word_of_int i) (word_of_int j) (word_of_int k))
       [0..sint (num_groups0 ctx) - 1]) [0..sint (num_groups1 ctx) - 1]))
     [0..sint (num_groups2 ctx) - 1])"

lemma block_as_map: "block ev a (a + n) = map (\<lambda>i. ev (a + i)) [0..n - 1]" for a n :: int
  by (simp add: block_def comp_def flip: map_upto_shift)

lemma blocks_of_width:
  assumes "0 \<le> n" "0 \<le> d"
  shows "concat (map (\<lambda>j. block ev (b + j * d) (b + j * d + d)) [0..n - 1]) = block ev b (b + n * d)"
proof -
  have "concat (map (\<lambda>j. block ev (b + j * d) (b + (j + 1) * d)) [0..n - 1]) = block ev (b + 0 * d) (b + n * d)"
    using assms by (intro concat_block) (auto intro: mult_right_mono)
  then show ?thesis by (simp add: algebra_simps)
qed

lemma grid_block:
  fixes ctx :: context_t
  defines "X \<equiv> sint (num_groups0 ctx)" and "Y \<equiv> sint (num_groups1 ctx)" and "Z \<equiv> sint (num_groups2 ctx)"
  assumes "0 \<le> X" "0 \<le> Y" "0 \<le> Z"
  shows "block (group_ev cb a ctx) 0 (X * Y * Z) = kernel_grid cb a ctx"
proof -
  let ?ev = "group_ev cb a ctx"
  let ?call = "\<lambda>i j k. KCall cb a ctx (word_of_int i) (word_of_int j) (word_of_int k)"
  have ev: "?ev (k * (X * Y) + j * X + i) = ?call i j k"
    if "i \<in> set [0..X - 1]" "j \<in> set [0..Y - 1]" for i j k
  proof -
    have i: "0 \<le> i" "i < X" and j: "0 \<le> j" "j + 1 \<le> Y" using that by auto
    have "(j + 1) * X \<le> Y * X" using i j by (intro mult_right_mono) auto
    then have r: "0 \<le> j * X + i" "j * X + i < X * Y" using i j by (simp_all add: algebra_simps)
    have w: "k * (X * Y) + j * X + i = j * X + i + k * (X * Y)" by simp
    have "(k * (X * Y) + j * X + i) div (X * Y) = k" "(k * (X * Y) + j * X + i) mod (X * Y) = j * X + i"
      unfolding w using r by (simp_all only: div_mult_self1 mod_mult_self1) simp_all
    moreover have "(j * X + i) div X = j" "(j * X + i) mod X = i"
      using i by simp_all
    ultimately show ?thesis by (simp add: group_ev_def Let_def X_def Y_def)
  qed
  have "block ?ev 0 (0 + Z * (X * Y))
      = concat (map (\<lambda>k. block ?ev (0 + k * (X * Y)) (0 + k * (X * Y) + X * Y)) [0..Z - 1])"
    using assms by (intro blocks_of_width [symmetric]) auto
  also have "\<dots> = concat (map (\<lambda>k. concat (map (\<lambda>j. map (\<lambda>i. ?ev (k * (X * Y) + j * X + i)) [0..X - 1])
      [0..Y - 1])) [0..Z - 1])"
    using blocks_of_width [of Y X ?ev] assms by (simp add: block_as_map mult.commute)
  also have "\<dots> = kernel_grid cb a ctx"
    unfolding kernel_grid_def X_def [symmetric] Y_def [symmetric] Z_def [symmetric]
    by (intro arg_cong [where f = concat] map_cong refl ev)
  finally show ?thesis by (simp add: mult.commute)
qed

context simt_isa
begin

lemma vx_spawn_kernel_core:
  fixes ctx :: context_t
  defines "X \<equiv> sint (num_groups0 ctx)" and "Y \<equiv> sint (num_groups1 ctx)" and "Z \<equiv> sint (num_groups2 ctx)"
  assumes wf: "wf_device dv" and d: "0 \<le> X" "0 \<le> Y" "0 \<le> Z" "in_int (X * Y)" "in_int (X * Y * Z)"
    and c: "0 \<le> c" "c < num_cores dv"
  shows "\<exists>g' cs. vx_spawn_kernel hw dv clz0 ctx cb a g c = Some (g', cs)
      \<and> mset cs = (if c < num_active dv (X * Y * Z)
          then mset (block (group_ev cb a ctx) (core_lo dv (X * Y * Z) c) (core_lo dv (X * Y * Z) (c + 1)))
          else {#})"
proof -
  let ?n = "X * Y * Z" and ?mk = "kernel_args clz0 ctx cb a"
  have n: "0 \<le> ?n" using d by simp
  have grp: "group_call (?mk off f r) w = Some [group_ev cb a ctx w]" if "0 \<le> w" "w < ?n" for off f r w
  proof (rule group_call_eq [OF that(1)])
    show "in_int w" by (rule in_int_between [OF that(1) less_imp_le [OF that(2)] d(5)])
    have "X \<noteq> 0" "Y \<noteq> 0" using that by auto
    then show "0 < sint (num_groups0 ctx)" "0 < sint (num_groups1 ctx)" using d by (auto simp: X_def Y_def)
  qed (use d in \<open>simp add: X_def Y_def\<close>)
  have mul: "c_mul X Y = Some (X * Y)" "c_mul (X * Y) Z = Some ?n" using d by (simp_all add: c_int)
  have "\<exists>g' cs. spawn_core hw dv ?n ?mk (spawn_kernel_all_stub dv) (spawn_kernel_rem_stub dv) g c = Some (g', cs)
      \<and> mset cs = (if c < num_active dv ?n
          then mset (block (group_ev cb a ctx) (core_lo dv ?n c) (core_lo dv ?n (c + 1))) else {#})"
  proof (rule spawn_core_block [OF wf n d(5) c])
    fix b s pl assume s: "0 \<le> b" "0 \<le> s" "b + s \<le> ?n" and pl: "pl = plan_of dv b s" and TW: "1 \<le> TW pl"
    have i: "in_int (b + s)" by (rule in_int_between [OF _ _ d(5)]; use s in linarith)
    let ?g = "g(c \<mapsto> ?mk b (fW pl) (rW pl))"
    have stub: "spawn_kernel_all_stub dv ?g c w t
        = Some (block (group_ev cb a ctx) (thread_lo dv pl b w t) (thread_lo dv pl b w (t + 1)))"
      if w: "0 \<le> w" "w < min (TW pl) (num_warps dv)" and t: "0 \<le> t" "t < num_threads dv" for w t
    proof -
      note bd = all_stub_bounds [OF wf s(1,2) i pl w t]
      have tr: "traverse (group_call (?mk b (fW pl) (rW pl))) [thread_lo dv pl b w t..thread_lo dv pl b w (t + 1) - 1]
          = Some (concat (map (\<lambda>w. [group_ev cb a ctx w]) [thread_lo dv pl b w t..thread_lo dv pl b w (t + 1) - 1]))"
        using bd(10,11) s by (intro traverse_total grp) auto
      show ?thesis
        using bd(1-8) [unfolded thread_lo_def] tr
        unfolding bd(9) [symmetric] unfolding thread_lo_def
        by (simp add: spawn_kernel_all_stub_def kernel_args_def Let_def c_int block_def
            flip: before_warp_def per_thread_def)
    qed
    show "\<exists>cs. run_warps hw dv (spawn_kernel_all_stub dv ?g c) (min (TW pl) (num_warps dv)) = Some cs
        \<and> mset cs = mset (block (group_ev cb a ctx) b (b + TW pl * num_threads dv))"
      by (rule run_warps_blocks [OF wf s(2) pl TW stub]) auto
  next
    fix off f r t :: int assume t: "0 \<le> off" "0 \<le> t" "off + t < ?n"
    have "in_int (off + t)" by (rule in_int_between [OF _ _ d(5)]; use t in linarith)
    moreover have "k_offset (?mk off f r) = off" by (simp add: kernel_args_def Let_def)
    ultimately show "spawn_kernel_rem_stub dv (g(c \<mapsto> ?mk off f r)) c t = Some [group_ev cb a ctx (off + t)]"
      using t by (simp add: spawn_kernel_rem_stub_def c_add_in grp)
  qed
  then show ?thesis
    by (simp add: vx_spawn_kernel_def mul flip: X_def Y_def Z_def)
qed

end

section \<open>Properties\<close>

text \<open>C3: a launch of \<open>vx_spawn_kernel\<close> invokes the kernel callback exactly once for
  every coordinate triple \<open>(i, j, k)\<close> of the grid, whichever of the two paths (shifts when
  the product of the first two dimensions is a power of two, divisions otherwise) is taken,
  and whatever \<open>__builtin_clz(0)\<close> returns; no integer operation overflows.\<close>

theorem vx_spawn_kernel_covers_grid:
  assumes "simt_isa hw" "wf_device dv"
    and "0 \<le> sint (num_groups0 ctx)" "0 \<le> sint (num_groups1 ctx)" "0 \<le> sint (num_groups2 ctx)"
    and "in_int (sint (num_groups0 ctx) * sint (num_groups1 ctx))"
    and "in_int (sint (num_groups0 ctx) * sint (num_groups1 ctx) * sint (num_groups2 ctx))"
  shows "\<exists>cs. launch dv (vx_spawn_kernel hw dv clz0 ctx cb a g) = Some cs
    \<and> mset cs = mset (kernel_grid cb a ctx)"
  using launch_covers [OF assms(2) _ simt_isa.vx_spawn_kernel_core [OF assms(1-7)]] assms(3-5)
  by (simp add: grid_block)

theorem vx_spawn_kernel_covers_grid_witness:
  "\<exists>cs. launch \<lparr>num_cores = 2, num_warps = 4, num_threads = 8\<rparr>
      (vx_spawn_kernel std_simt \<lparr>num_cores = 2, num_warps = 4, num_threads = 8\<rparr> 32
        \<lparr>num_groups0 = 6, num_groups1 = 5, num_groups2 = 7\<rparr> True () (\<lambda>_. None)) = Some cs
    \<and> mset cs = mset (kernel_grid True () \<lparr>num_groups0 = 6, num_groups1 = 5, num_groups2 = 7\<rparr>)"
  by (rule vx_spawn_kernel_covers_grid [OF std.simt_isa_axioms])
    (simp_all add: wf_device_def in_int_def)

text \<open>On the positive integers \<open>log2_fast\<close> is the index of the highest bit set, and
  \<open>is_log2\<close> holds exactly of the powers of two.\<close>

theorem log2_fast_correct:
  assumes "0 < x" "in_int x"
  shows "0 \<le> log2_fast clz0 x \<and> 2 ^ nat (log2_fast clz0 x) \<le> x \<and> x < 2 * 2 ^ nat (log2_fast clz0 x)
    \<and> (is_log2 x \<longleftrightarrow> (\<exists>k. x = 2 ^ k))"
proof -
  obtain k where k: "2 ^ k \<le> x" "x < 2 ^ Suc k" "k < 31" using exists_log2 [OF assms] .
  have "x = 2 ^ k" if "x = 2 ^ j" for j
  proof -
    have "j < Suc k" "k \<le> j"
      using k(1,2) that power_less_imp_less_exp [of "2::int" j "Suc k"] power_le_imp_le_exp [of "2::int" k j]
      by auto
    with that show ?thesis by (simp add: le_antisym)
  qed
  with is_log2_range [OF k] have "is_log2 x \<longleftrightarrow> (\<exists>k. x = 2 ^ k)" by blast
  moreover have "log2_fast clz0 x = int k" using k by (intro log2_fast_range) auto
  ultimately show ?thesis using k by simp
qed

theorem log2_fast_correct_witness:
  "0 \<le> log2_fast 32 48 \<and> 2 ^ nat (log2_fast 32 48) \<le> (48::int) \<and> (48::int) < 2 * 2 ^ nat (log2_fast 32 48)
    \<and> (is_log2 48 \<longleftrightarrow> (\<exists>k. (48::int) = 2 ^ k))"
  by (rule log2_fast_correct) (simp_all add: in_int_def)

end
