(* ===== verification/Vx_Cluster.thy ===== *)
theory Vx_Cluster
  imports Vx_Spawn_Props
begin

text \<open>
  The cluster scheduler of \<^verbatim>\<open>lib/src/vx_spawn.c\<close>, \<open>vx_spawn_tasks_cluster\<close>:
  tasks fill the clusters one after the other, and inside a cluster the warps are dealt to
  the cores round-robin.  The first part is the model; the second determines exactly which
  tasks a launch runs, for every number of tasks.
\<close>

definition CORES_PER_CLUSTER :: int where
  "CORES_PER_CLUSTER = 8"

section \<open>Model\<close>

definition spawn_tasks_cluster_all_stub ::
    "device \<Rightarrow> ('c, 'a) gargs \<Rightarrow> int \<Rightarrow> int \<Rightarrow> int \<Rightarrow> ('c, 'a) call list option" where
  "spawn_tasks_cluster_all_stub dv g cid wid tid = do {
     core_id_in_cluster \<leftarrow> c_mod cid CORES_PER_CLUSTER;
     w1 \<leftarrow> c_mul CORES_PER_CLUSTER wid;
     wid_in_cluster \<leftarrow> c_add w1 core_id_in_cluster;
     p \<leftarrow> g cid;
     waves \<leftarrow> c_add (NWs p) (c_bool (wid < RWs p));
     o1 \<leftarrow> c_mul (num_threads dv) wid_in_cluster;
     o2 \<leftarrow> c_add o1 tid;
     off \<leftarrow> c_add (offset p) o2;
     traverse (\<lambda>wave_id. do {
       s1 \<leftarrow> c_mul wave_id (num_threads dv);
       s2 \<leftarrow> c_mul s1 (num_warps dv);
       s3 \<leftarrow> c_mul s2 CORES_PER_CLUSTER;
       task_id \<leftarrow> c_add off s3;
       Some [Call (callback p) task_id (arg p)]
     }) [0..waves - 1]
   }"

definition spawn_tasks_cluster_rem_stub ::
    "device \<Rightarrow> ('c, 'a) gargs \<Rightarrow> int \<Rightarrow> int \<Rightarrow> int \<Rightarrow> ('c, 'a) call list option" where
  "spawn_tasks_cluster_rem_stub dv g cid wid tid = do {
     core_id_in_cluster \<leftarrow> c_mod cid CORES_PER_CLUSTER;
     w1 \<leftarrow> c_mul CORES_PER_CLUSTER wid;
     wid_in_cluster \<leftarrow> c_add w1 core_id_in_cluster;
     p \<leftarrow> g cid;
     o1 \<leftarrow> c_mul (num_threads dv) wid_in_cluster;
     o2 \<leftarrow> c_add o1 tid;
     task_id \<leftarrow> c_add (offset p) o2;
     Some [Call (callback p) task_id (arg p)]
   }"

record cluster_plan =
  in_cluster :: int      \<comment> \<open>\<open>core_id_in_cluster\<close>\<close>
  cluster_tasks :: int   \<comment> \<open>\<open>num_tasks_this_cluster\<close>\<close>
  rem_threads :: int     \<comment> \<open>\<open>rem_threads_in_last_warp\<close>\<close>
  core_warps :: int      \<comment> \<open>\<open>num_warps_this_core\<close>\<close>
  full_waves :: int
  rem_warps :: int
  cluster_offset :: int

text \<open>
  The share of a core.  \<open>rem_threads_in_last_warp_this_core\<close>, which the code computes and
  never reads, is left out; \<open>num_cluster\<close>, also unread, is a division of \<open>NC\<close> by a constant.
\<close>

definition cluster_plan :: "device \<Rightarrow> int \<Rightarrow> int \<Rightarrow> cluster_plan option option" where
  "cluster_plan dv num_tasks core_id = do {
     cluster_id \<leftarrow> c_div core_id CORES_PER_CLUSTER;
     core_id_in_cluster \<leftarrow> c_mod core_id CORES_PER_CLUSTER;
     t1 \<leftarrow> c_mul CORES_PER_CLUSTER (num_warps dv);
     num_threads_in_cluster \<leftarrow> c_mul t1 (num_threads dv);
     t2 \<leftarrow> c_sub num_threads_in_cluster 1;
     t3 \<leftarrow> c_add num_tasks t2;
     num_used_clusters \<leftarrow> c_div t3 num_threads_in_cluster;
     if cluster_id \<ge> num_used_clusters then Some None else do {
       num_full_clusters \<leftarrow> c_div num_tasks num_threads_in_cluster;
       num_tasks_this_cluster \<leftarrow> (if cluster_id \<ge> num_full_clusters
                                 then c_mod num_tasks num_threads_in_cluster
                                 else Some num_threads_in_cluster);
       t4 \<leftarrow> c_sub (num_threads dv) 1;
       t5 \<leftarrow> c_add num_tasks t4;
       num_active_cores \<leftarrow> c_div t5 (num_threads dv);
       if core_id \<ge> num_active_cores then Some None else do {
         num_full_warps_this_cluster \<leftarrow> c_div num_tasks_this_cluster (num_threads dv);
         rem_threads_in_last_warp \<leftarrow> c_mod num_tasks_this_cluster (num_threads dv);
         n0 \<leftarrow> c_div num_full_warps_this_cluster CORES_PER_CLUSTER;
         num_warps_in_last_row \<leftarrow> c_mod num_full_warps_this_cluster CORES_PER_CLUSTER;
         num_warps_this_core \<leftarrow> (if core_id_in_cluster < num_warps_in_last_row
                                then c_add n0 1 else Some n0);
         num_full_waves \<leftarrow> c_div num_warps_this_core (num_warps dv);
         rem_full_warps_in_last_wave \<leftarrow> c_mod num_warps_this_core (num_warps dv);
         off \<leftarrow> c_mul cluster_id num_tasks_this_cluster;
         Some (Some \<lparr>in_cluster = core_id_in_cluster, cluster_tasks = num_tasks_this_cluster,
           rem_threads = rem_threads_in_last_warp, core_warps = num_warps_this_core,
           full_waves = num_full_waves, rem_warps = rem_full_warps_in_last_wave,
           cluster_offset = off\<rparr>)
       }
     }
   }"

definition vx_spawn_tasks_cluster ::
    "simt \<Rightarrow> device \<Rightarrow> int \<Rightarrow> 'c \<Rightarrow> 'a \<Rightarrow> ('c, 'a) gargs \<Rightarrow> int
       \<Rightarrow> (('c, 'a) gargs \<times> ('c, 'a) call list) option" where
  "vx_spawn_tasks_cluster hw dv num_tasks cb a g core_id =
     (if core_id \<ge> NUM_CORES_MAX then Some (g, [])
      else do {
        plo \<leftarrow> cluster_plan dv num_tasks core_id;
        case plo of None \<Rightarrow> Some (g, [])
        | Some pl \<Rightarrow> do {
            let g = g(core_id \<mapsto> tasks_args cb a (cluster_offset pl) (full_waves pl) (rem_warps pl));
            main \<leftarrow> (if core_warps pl > 0
                     then run_warps hw dv (spawn_tasks_cluster_all_stub dv g core_id)
                            (min (core_warps pl) (num_warps dv))
                     else Some []);
            if rem_threads pl \<noteq> 0 \<and> in_cluster pl = 0 then do {
              d \<leftarrow> c_sub (cluster_tasks pl) (rem_threads pl);
              off \<leftarrow> c_add (cluster_offset pl) d;
              let g = g(core_id \<mapsto> tasks_args cb a off (full_waves pl) (rem_warps pl));
              rest \<leftarrow> run_remaining hw dv (spawn_tasks_cluster_rem_stub dv g core_id 0) (rem_threads pl);
              Some (g, main @ rest)
            } else Some (g, main)
          }
      })"

section \<open>The share of a core, in closed form\<close>

definition cluster_threads :: "device \<Rightarrow> int" where
  "cluster_threads dv = 8 * num_warps dv * num_threads dv"

text \<open>The tasks a cluster is given, and the warps one of its cores is dealt.\<close>

definition tasks_of :: "device \<Rightarrow> int \<Rightarrow> int \<Rightarrow> int" where
  "tasks_of dv n k = (if k < n div cluster_threads dv then cluster_threads dv
                      else n mod cluster_threads dv)"

definition warps_of :: "device \<Rightarrow> int \<Rightarrow> int \<Rightarrow> int" where
  "warps_of dv r i = r div num_threads dv div 8 + c_bool (i < r div num_threads dv mod 8)"

definition cluster_plan_of :: "device \<Rightarrow> int \<Rightarrow> int \<Rightarrow> int \<Rightarrow> cluster_plan" where
  "cluster_plan_of dv n k i =
     (let r = tasks_of dv n k; w = warps_of dv r i in
      \<lparr>in_cluster = i, cluster_tasks = r, rem_threads = r mod num_threads dv, core_warps = w,
       full_waves = w div num_warps dv, rem_warps = w mod num_warps dv, cluster_offset = k * r\<rparr>)"

lemma tasks_of_bounds:
  assumes wf: "wf_device dv" and n: "0 \<le> n" and k: "0 \<le> k" "k \<le> n div cluster_threads dv"
  shows "0 < cluster_threads dv" "0 \<le> tasks_of dv n k" "tasks_of dv n k \<le> cluster_threads dv"
    "k * tasks_of dv n k + tasks_of dv n k \<le> n" "0 \<le> k * tasks_of dv n k" "k \<le> n"
proof -
  let ?T = "cluster_threads dv" and ?r = "tasks_of dv n k"
  note dv = wf_deviceD [OF wf]
  show T: "0 < ?T" using dv by (simp add: cluster_threads_def)
  have n_eq: "n = n div ?T * ?T + n mod ?T" and md: "0 \<le> n mod ?T" "n mod ?T < ?T"
    using T by simp_all
  show r: "0 \<le> ?r" "?r \<le> ?T" using T md by (auto simp: tasks_of_def)
  show "0 \<le> k * ?r" using k r by simp
  have "k \<le> k * ?T" using T k by (simp add: mult_le_cancel_left1)
  moreover have "k * ?T \<le> n div ?T * ?T" using T k by (intro mult_right_mono) auto
  ultimately show "k \<le> n" using n_eq md by linarith
  show "k * ?r + ?r \<le> n"
  proof (cases "k < n div ?T")
    case True
    then have "(k + 1) * ?T \<le> n div ?T * ?T" using T by (intro mult_right_mono) auto
    moreover have "?r = ?T" using True by (simp add: tasks_of_def)
    ultimately have "k * ?T + ?T \<le> n" "?r = ?T" using n_eq md unfolding distrib_right by linarith+
    then show ?thesis by simp
  next
    case False
    then have "k * ?r \<le> n div ?T * ?T" using k r T by (intro mult_mono) auto
    moreover have "?r = n mod ?T" using False by (simp add: tasks_of_def)
    ultimately show ?thesis using n_eq by linarith
  qed
qed

lemma warps_of_bounds:
  assumes wf: "wf_device dv" and r: "0 \<le> r" "r \<le> cluster_threads dv" and i: "0 \<le> i" "i < 8"
  shows "0 \<le> warps_of dv r i" "warps_of dv r i \<le> num_warps dv"
    "\<And>w. w < warps_of dv r i \<longleftrightarrow> w * 8 + i < r div num_threads dv"
proof -
  note dv = wf_deviceD [OF wf]
  show *: "w < warps_of dv r i \<longleftrightarrow> w * 8 + i < r div num_threads dv" for w
    unfolding warps_of_def by (rule deal_count [OF i])
  have F: "0 \<le> r div num_threads dv" using r dv by (simp add: pos_imp_zdiv_nonneg_iff)
  have "r div num_threads dv \<le> cluster_threads dv div num_threads dv"
    using r dv by (intro zdiv_mono1) auto
  also have "\<dots> = 8 * num_warps dv" using dv by (simp add: cluster_threads_def)
  finally have "\<not> num_warps dv * 8 + i < r div num_threads dv" using i by simp
  then show "warps_of dv r i \<le> num_warps dv" using * [of "num_warps dv"] by linarith
  show "0 \<le> warps_of dv r i" using F by (simp add: warps_of_def c_bool_def)
qed

text \<open>A core that the code sends home has nothing to do.\<close>

lemma cluster_idle:
  assumes wf: "wf_device dv" and n: "0 \<le> n" and k: "0 \<le> k" "k \<le> n div cluster_threads dv"
    and i: "0 \<le> i" "i < 8"
    and idle: "(n + cluster_threads dv - 1) div cluster_threads dv \<le> k
      \<or> (n + num_threads dv - 1) div num_threads dv \<le> k * 8 + i"
  shows "warps_of dv (tasks_of dv n k) i = 0" "i = 0 \<Longrightarrow> tasks_of dv n k mod num_threads dv = 0"
proof -
  let ?T = "cluster_threads dv" and ?NT = "num_threads dv" and ?r = "tasks_of dv n k"
  note dv = wf_deviceD [OF wf] and tb = tasks_of_bounds [OF wf n k]
    and wb = warps_of_bounds [OF wf tb(2,3) i]
  have n_eq: "n = n div ?T * ?T + n mod ?T" and md: "0 \<le> n mod ?T" "n mod ?T < ?T"
    using tb(1) by simp_all
  have le: "?r \<le> i * ?NT"
    using idle
  proof
    assume "(n + ?T - 1) div ?T \<le> k"
    from le_div_less [OF this tb(1)] have lt: "n \<le> k * ?T" by linarith
    moreover have "k * ?T \<le> n div ?T * ?T" using k tb(1) by (intro mult_right_mono) auto
    ultimately have "n mod ?T = 0" "k * ?T = n div ?T * ?T" using n_eq md by linarith+
    then have "?r = 0" using tb(1) by (simp add: tasks_of_def)
    then show ?thesis using i dv by simp
  next
    assume "(n + ?NT - 1) div ?NT \<le> k * 8 + i"
    from le_div_less [OF this] have "n \<le> (k * 8 + i) * ?NT" using dv by linarith
    then have lt: "n \<le> k * 8 * ?NT + i * ?NT" unfolding distrib_right .
    have "k * 8 * ?NT \<le> k * ?T"
      using k dv mult_left_mono [of 1 "num_warps dv" "k * 8 * ?NT"]
      by (simp add: cluster_threads_def algebra_simps)
    with lt have lt': "n \<le> k * ?T + i * ?NT" by linarith
    show ?thesis
    proof (cases "k < n div ?T")
      case True
      then have "(k + 1) * ?T \<le> n div ?T * ?T" using tb(1) by (intro mult_right_mono) auto
      moreover have "?r = ?T" using True by (simp add: tasks_of_def)
      ultimately show ?thesis using lt' n_eq md unfolding distrib_right by linarith
    next
      case False
      then have "k = n div ?T" using k by simp
      then have "?r = n mod ?T" "k * ?T = n div ?T * ?T" by (simp_all add: tasks_of_def)
      then show ?thesis using lt' n_eq by linarith
    qed
  qed
  then have "?r div ?NT \<le> i * ?NT div ?NT" using dv by (intro zdiv_mono1) auto
  then have "\<not> 0 * 8 + i < ?r div ?NT" using dv by simp
  then show "warps_of dv ?r i = 0" using wb(1) wb(3) [of 0] by linarith
  show "?r mod ?NT = 0" if "i = 0" using le that tb by simp
qed

text \<open>The checked arithmetic computes this share, without overflow.\<close>

lemma used_clusters: "0 < T \<Longrightarrow> (n + T - 1) div T \<le> n div T + 1" for n T :: int
  using zdiv_mono1 [of "n + T - 1" "n + T" T] div_add_self2 [of T n] by simp

lemma cluster_plan_eq:
  assumes wf: "wf_device dv" and n: "0 \<le> n" "in_int (n + cluster_threads dv)"
    and k: "0 \<le> k" "k * 8 + i < num_cores dv" and i: "0 \<le> i" "i < 8"
  shows "cluster_plan dv n (k * 8 + i) =
    Some (if (n + cluster_threads dv - 1) div cluster_threads dv \<le> k
            \<or> (n + num_threads dv - 1) div num_threads dv \<le> k * 8 + i
          then None else Some (cluster_plan_of dv n k i))"
proof -
  let ?T = "cluster_threads dv" and ?NT = "num_threads dv" and ?NW = "num_warps dv"
  let ?r = "tasks_of dv n k" and ?w = "warps_of dv (tasks_of dv n k) i" and ?c = "k * 8 + i"
  let ?used = "(n + ?T - 1) div ?T" and ?act = "(n + ?NT - 1) div ?NT"
  note dv = wf_deviceD [OF wf]
  have T: "0 < ?T" "?NT \<le> ?T" "8 * ?NW \<le> ?T"
    using dv mult_left_mono [of 1 ?NT "8 * ?NW"] mult_right_mono [of 1 "8 * ?NW" ?NT]
    by (simp_all add: cluster_threads_def)
  have small: "in_int x" if "0 \<le> x" "x \<le> n + ?T" for x
    using that n(2) by (rule in_int_between)
  have ci: "in_int ?c" "?c div 8 = k" "?c mod 8 = i" "0 \<le> ?c"
    using k i dv by (auto simp: in_int_def)
  have c: "c_div ?c 8 = Some k" "c_mod ?c 8 = Some i"
    using ci by (simp_all only: c_div_in c_mod_in zero_less_numeral)
  have ii: "in_int (8 * ?NW)" "in_int ?T" "in_int (?T - 1)" "in_int (n + ?T - 1)" "in_int n"
    "in_int (?NT - 1)" "in_int (n + ?NT - 1)"
    by (rule small; use T n dv in linarith)+
  have t: "c_mul 8 ?NW = Some (8 * ?NW)" "c_mul (8 * ?NW) ?NT = Some ?T" "c_sub ?T 1 = Some (?T - 1)"
    "c_add n (?T - 1) = Some (n + ?T - 1)" "c_div (n + ?T - 1) ?T = Some ?used"
    "c_div n ?T = Some (n div ?T)" "c_mod n ?T = Some (n mod ?T)"
    "c_sub ?NT 1 = Some (?NT - 1)" "c_add n (?NT - 1) = Some (n + ?NT - 1)"
    "c_div (n + ?NT - 1) ?NT = Some ?act"
    using ii n dv T by (simp_all add: c_int c_add_def add_diff_eq flip: cluster_threads_def)
  show ?thesis
  proof (cases "?used \<le> k")
    case True
    then show ?thesis
      by (simp add: cluster_plan_def CORES_PER_CLUSTER_def c t)
  next
    case False
    then have "k \<le> n div ?T" using used_clusters [of ?T n] T by linarith
    note tb = tasks_of_bounds [OF wf n(1) k(1) this]
    note wb = warps_of_bounds [OF wf tb(2,3) i]
    have r: "(if n div ?T \<le> k then Some (n mod ?T) else Some ?T) = Some ?r"
      by (simp add: tasks_of_def)
    have F: "0 \<le> ?r div ?NT" "?r div ?NT \<le> ?r"
      using tb dv by (simp_all add: div_facts)
    have F8: "0 \<le> ?r div ?NT div 8" "?r div ?NT div 8 \<le> ?r div ?NT" using F(1) by (simp_all add: div_facts)
    have w: "(if i < ?r div ?NT mod 8 then c_add (?r div ?NT div 8) 1 else Some (?r div ?NT div 8)) = Some ?w"
    proof -
      have wi: "in_int ?w" by (rule small; use wb(1,2) T n dv in linarith)
      show ?thesis
      proof (cases "i < ?r div ?NT mod 8")
        case True
        then have "?w = ?r div ?NT div 8 + 1" by (simp add: warps_of_def c_bool_def)
        with wi True show ?thesis by (simp add: c_add_in)
      qed (simp add: warps_of_def c_bool_def)
    qed
    have m: "c_div ?r ?NT = Some (?r div ?NT)" "c_mod ?r ?NT = Some (?r mod ?NT)"
      "c_div (?r div ?NT) 8 = Some (?r div ?NT div 8)" "c_mod (?r div ?NT) 8 = Some (?r div ?NT mod 8)"
      "c_div ?w ?NW = Some (?w div ?NW)" "c_mod ?w ?NW = Some (?w mod ?NW)" "c_mul k ?r = Some (k * ?r)"
      using F tb dv n T wb small [of ?r] small [of "?r div ?NT"] small [of ?w] small [of "k * ?r"]
      by (simp_all add: c_int)
    have "cluster_plan dv n ?c
        = (if ?act \<le> ?c then Some None else Some (Some (cluster_plan_of dv n k i)))"
      by (simp only: cluster_plan_def CORES_PER_CLUSTER_def c t r w m cluster_plan_of_def Let_def
          Option.bind.bind_lunit if_not_P [OF False])
    then show ?thesis using False by simp
  qed
qed

section \<open>What a core and a cluster run\<close>

text \<open>A full warp runs one task per thread: every share fits in one wave.\<close>

lemma cluster_all_stub_eq:
  assumes wf: "wf_device dv" and n: "0 \<le> n" "in_int (n + cluster_threads dv)"
    and k: "0 \<le> k" "k \<le> n div cluster_threads dv" and c: "k * 8 + i < num_cores dv" and i: "0 \<le> i" "i < 8"
    and w: "0 \<le> w" "w < warps_of dv (tasks_of dv n k) i" and t: "0 \<le> t" "t < num_threads dv"
    and g: "g (k * 8 + i) = Some (tasks_args cb a (k * tasks_of dv n k)
      (warps_of dv (tasks_of dv n k) i div num_warps dv) (warps_of dv (tasks_of dv n k) i mod num_warps dv))"
  shows "spawn_tasks_cluster_all_stub dv g (k * 8 + i) w t
    = Some [Call cb (k * tasks_of dv n k + (w * 8 + i) * num_threads dv + t) a]"
proof -
  let ?T = "cluster_threads dv" and ?NT = "num_threads dv" and ?NW = "num_warps dv"
  let ?r = "tasks_of dv n k" and ?w = "warps_of dv (tasks_of dv n k) i"
  note dv = wf_deviceD [OF wf] and tb = tasks_of_bounds [OF wf n(1) k]
    and wb = warps_of_bounds [OF wf tb(2,3) i]
  have small: "in_int x" if "0 \<le> x" "x \<le> n" for x
    by (rule in_int_between [OF that(1) _ n(2)]) (use that tb in linarith)
  have ci: "in_int (k * 8 + i)" "(k * 8 + i) mod 8 = i" "0 \<le> k * 8 + i"
    using k i c dv by (auto simp: in_int_def)
  have "0 * ?NW + w < ?w" "\<not> 1 * ?NW + w < ?w" using w wb(2) by simp_all
  moreover have "w < ?NW" using w wb(2) by simp
  ultimately have waves: "?w div ?NW + c_bool (w < ?w mod ?NW) = 1"
    using deal_count [OF w(1), of ?NW 0 ?w] deal_count [OF w(1), of ?NW 1 ?w] by linarith
  have cc: "c_mod (k * 8 + i) 8 = Some i" using ci by (simp add: c_mod_in)
  have q: "0 \<le> w * 8 + i" "w * 8 + i + 1 \<le> ?r div ?NT" using w i wb(3) [of w] by simp_all
  then have "(w * 8 + i + 1) * ?NT \<le> ?r div ?NT * ?NT" using dv by (intro mult_right_mono) auto
  also have "\<dots> \<le> ?r" using tb dv by (simp add: div_facts)
  finally have le: "(w * 8 + i) * ?NT + ?NT \<le> ?r" by (simp add: distrib_right)
  have nn: "0 \<le> (w * 8 + i) * ?NT" "w * 8 + i \<le> (w * 8 + i) * ?NT"
    using q dv by (simp_all add: mult_le_cancel_left1)
  have comm: "?NT * (8 * w + i) = (w * 8 + i) * ?NT" by simp
  have ii: "in_int (8 * w)" "in_int (8 * w + i)" "in_int (?NT * (8 * w + i))"
    "in_int (?NT * (8 * w + i) + t)" "in_int (k * ?r + (?NT * (8 * w + i) + t))"
    unfolding comm by (rule small; use nn le tb w i t in linarith)+
  have wv: "c_add (?w div ?NW) (c_bool (w < ?w mod ?NW)) = Some 1"
    by (simp only: c_add_def waves) (simp add: ck_def in_int_def)
  have z: "c_mul 0 x = Some 0" "c_add y 0 = ck y" for x y
    by (simp_all add: c_mul_def c_add_def ck_def in_int_def)
  show ?thesis
    unfolding spawn_tasks_cluster_all_stub_def CORES_PER_CLUSTER_def
    using ii by (simp add: cc g tasks_args_def wv z c_int)
qed

lemma cluster_rem_stub_eq:
  assumes "0 \<le> k" "in_int (k * 8)" "in_int (off + t)" "in_int t" "g (k * 8) = Some (tasks_args cb a off f r)"
  shows "spawn_tasks_cluster_rem_stub dv g (k * 8) 0 t = Some [Call cb (off + t) a]"
proof -
  have "c_mod (k * 8) 8 = Some 0" using assms by (simp add: c_mod_in)
  moreover have "c_mul x 0 = Some 0" "c_mul 8 0 = Some 0" "c_add 0 0 = Some 0" "c_add 0 t = ck t" for x
    by (simp_all add: c_mul_def c_add_def ck_def in_int_def)
  ultimately show ?thesis
    using assms by (simp add: spawn_tasks_cluster_rem_stub_def CORES_PER_CLUSTER_def tasks_args_def c_int)
qed

definition core_share :: "device \<Rightarrow> int \<Rightarrow> (int \<Rightarrow> 'e) \<Rightarrow> int \<Rightarrow> int \<Rightarrow> 'e multiset" where
  "core_share dv n ev k i =
     (let r = tasks_of dv n k; off = k * r; NT = num_threads dv in
      if k \<le> n div cluster_threads dv
      then (\<Sum>w = 0..<warps_of dv r i. \<Sum>t = 0..<NT. {#ev (off + (w * 8 + i) * NT + t)#})
           + (if i = 0 then mset (block ev (off + r div NT * NT) (off + r)) else {#})
      else {#})"

context simt_isa
begin

lemma vx_spawn_tasks_cluster_core:
  assumes wf: "wf_device dv" and n: "0 \<le> n" "in_int (n + cluster_threads dv)"
    and k: "0 \<le> k" and c: "k * 8 + i < num_cores dv" and i: "0 \<le> i" "i < 8"
  shows "\<exists>g' cs. vx_spawn_tasks_cluster hw dv n cb a g (k * 8 + i) = Some (g', cs)
    \<and> mset cs = core_share dv n (\<lambda>x. Call cb x a) k i"
proof -
  let ?T = "cluster_threads dv" and ?NT = "num_threads dv" and ?r = "tasks_of dv n k"
  let ?w = "warps_of dv (tasks_of dv n k) i" and ?ev = "\<lambda>x. Call cb x a"
  note dv = wf_deviceD [OF wf] and plan = cluster_plan_eq [OF wf n k c i]
  have T: "0 < ?T" using dv by (simp add: cluster_threads_def)
  have core: "\<not> NUM_CORES_MAX \<le> k * 8 + i" using c dv by (simp add: NUM_CORES_MAX_def)
  show ?thesis
  proof (cases "(n + ?T - 1) div ?T \<le> k \<or> (n + ?NT - 1) div ?NT \<le> k * 8 + i")
    case True
    have "core_share dv n ?ev k i = {#}"
    proof (cases "k \<le> n div ?T")
      case le: True
      note idle = cluster_idle [OF wf n(1) k le i True]
      have "i = 0 \<Longrightarrow> ?r div ?NT * ?NT = ?r" using idle(2) by auto
      then show ?thesis using idle(1) by (simp add: core_share_def Let_def)
    qed (simp add: core_share_def)
    then show ?thesis using True core plan by (simp add: vx_spawn_tasks_cluster_def)
  next
    case False
    then have kn: "k \<le> n div ?T" using used_clusters [OF T, of n] by linarith
    note tb = tasks_of_bounds [OF wf n(1) k kn] and wb = warps_of_bounds [OF wf tasks_of_bounds(2,3) [OF wf n(1) k kn] i]
    define pl where "pl = cluster_plan_of dv n k i"
    have sel: "in_cluster pl = i" "cluster_tasks pl = ?r" "rem_threads pl = ?r mod ?NT" "core_warps pl = ?w"
      "full_waves pl = ?w div num_warps dv" "rem_warps pl = ?w mod num_warps dv" "cluster_offset pl = k * ?r"
      by (simp_all add: pl_def cluster_plan_of_def Let_def)
    let ?mk = "\<lambda>off. tasks_args cb a off (?w div num_warps dv) (?w mod num_warps dv)"
    let ?g = "g(k * 8 + i \<mapsto> ?mk (k * ?r))" and ?off = "k * ?r + (?r - ?r mod ?NT)"
    let ?g' = "g(k * 8 + i \<mapsto> ?mk ?off)"
    have eq: "vx_spawn_tasks_cluster hw dv n cb a g (k * 8 + i) = do {
        main \<leftarrow> (if ?w > 0 then run_warps hw dv (spawn_tasks_cluster_all_stub dv ?g (k * 8 + i)) (min ?w (num_warps dv))
                 else Some []);
        if ?r mod ?NT \<noteq> 0 \<and> i = 0 then do {
          d \<leftarrow> c_sub ?r (?r mod ?NT);
          off \<leftarrow> c_add (k * ?r) d;
          let g = g(k * 8 + i \<mapsto> ?mk off);
          rest \<leftarrow> run_remaining hw dv (spawn_tasks_cluster_rem_stub dv g (k * 8 + i) 0) (?r mod ?NT);
          Some (g, main @ rest)
        } else Some (?g, main) }"
    proof -
      have "cluster_plan dv n (k * 8 + i) = Some (Some pl)" using plan False by (simp add: pl_def)
      then show ?thesis
        by (simp only: vx_spawn_tasks_cluster_def if_not_P [OF core] Option.bind.bind_lunit option.case sel Let_def fun_upd_upd)
    qed
    obtain main where main: "(if ?w > 0 then run_warps hw dv (spawn_tasks_cluster_all_stub dv ?g (k * 8 + i))
          (min ?w (num_warps dv)) else Some []) = Some main"
      "mset main = (\<Sum>w = 0..<?w. \<Sum>t = 0..<?NT. {#?ev (k * ?r + (w * 8 + i) * ?NT + t)#})"
    proof (cases "?w > 0")
      case True
      obtain cs where "run_warps hw dv (spawn_tasks_cluster_all_stub dv ?g (k * 8 + i)) ?w = Some cs"
        "mset cs = (\<Sum>w = 0..<?w. \<Sum>t = 0..<?NT. mset [?ev (k * ?r + (w * 8 + i) * ?NT + t)])"
        by (rule run_warps_total [of dv ?w "spawn_tasks_cluster_all_stub dv ?g (k * 8 + i)"
              "\<lambda>w t. [?ev (k * ?r + (w * 8 + i) * ?NT + t)]"])
          (use True dv wb(2) in \<open>auto intro!: cluster_all_stub_eq [OF wf n k kn c i]\<close>)
      with that [of cs] True wb(2) show ?thesis by (simp add: min_absorb1)
    qed (use that [of "[]"] wb(1) in simp)
    have md: "0 \<le> ?r mod ?NT" "?r mod ?NT < ?NT" "?r - ?r mod ?NT = ?r div ?NT * ?NT" "?r mod ?NT \<le> ?r"
      using dv tb by (simp_all add: minus_mod_eq_div_mult zmod_le_nonneg_dividend)
    have small: "in_int x" if "0 \<le> x" "x \<le> n" for x
      by (rule in_int_between [OF that(1) _ n(2)]) (use that T in linarith)
    have ar: "c_sub ?r (?r mod ?NT) = Some (?r - ?r mod ?NT)" "c_add (k * ?r) (?r - ?r mod ?NT) = Some ?off"
      by (intro c_sub_in c_add_in small; use md tb in linarith)+
    show ?thesis
    proof (cases "?r mod ?NT \<noteq> 0 \<and> i = 0")
      case True
      obtain rest where rest: "run_remaining hw dv (spawn_tasks_cluster_rem_stub dv ?g' (k * 8 + i) 0) (?r mod ?NT) = Some rest"
        "mset rest = mset (block ?ev ?off (?off + ?r mod ?NT))"
      proof (rule run_remaining_block [OF wf md(1,2)])
        fix t assume t: "0 \<le> t" "t < ?r mod ?NT"
        have "in_int (?off + t)" "in_int t" by (rule small; use t md tb in linarith)+
        moreover have "in_int (k * 8)" using k c dv True by (auto simp: in_int_def)
        ultimately show "spawn_tasks_cluster_rem_stub dv ?g' (k * 8 + i) 0 t = Some [?ev (?off + t)]"
          using k True by (simp add: cluster_rem_stub_eq)
      qed (rule that)
      have "vx_spawn_tasks_cluster hw dv n cb a g (k * 8 + i) = Some (?g', main @ rest)"
        unfolding eq
        by (simp only: main(1) ar rest(1) Option.bind.bind_lunit Let_def if_P [OF True])
      moreover have "mset (main @ rest) = core_share dv n ?ev k i"
        using True main(2) rest(2) kn md(3) by (simp add: core_share_def Let_def add.commute)
      ultimately show ?thesis by blast
    next
      case False
      have "vx_spawn_tasks_cluster hw dv n cb a g (k * 8 + i) = Some (?g, main)"
        unfolding eq by (simp only: main(1) Option.bind.bind_lunit if_not_P [OF False])
      moreover have "i = 0 \<Longrightarrow> ?r div ?NT * ?NT = ?r" using False md(3) by simp
      then have "mset main = core_share dv n ?ev k i"
        using main(2) kn by (simp add: core_share_def Let_def)
      ultimately show ?thesis by blast
    qed
  qed
qed

end

text \<open>The tasks that cluster \<open>k\<close> runs: as many as it should, from the offset of the code.\<close>

definition cluster_block :: "device \<Rightarrow> int \<Rightarrow> (int \<Rightarrow> 'e) \<Rightarrow> int \<Rightarrow> 'e list" where
  "cluster_block dv n ev k = block ev (k * tasks_of dv n k) (k * tasks_of dv n k + tasks_of dv n k)"

lemma cluster_shares:
  assumes wf: "wf_device dv" and n: "0 \<le> n" and k: "0 \<le> k" "k \<le> n div cluster_threads dv"
  shows "(\<Sum>i = 0..<8. core_share dv n ev k i) = mset (cluster_block dv n ev k)"
proof -
  let ?NT = "num_threads dv" and ?r = "tasks_of dv n k"
  let ?off = "k * ?r" and ?F = "?r div ?NT"
  let ?g = "\<lambda>q. \<Sum>t = 0..<?NT. {#ev (?off + q * ?NT + t)#}"
  note dv = wf_deviceD [OF wf] and tb = tasks_of_bounds [OF wf n k]
  have F: "0 \<le> ?F" "?F * ?NT \<le> ?r" "0 \<le> ?F * ?NT" using tb dv by (simp_all add: div_facts)
  have "(\<Sum>i = 0..<8. core_share dv n ev k i) = (\<Sum>i = 0..<8. \<Sum>w = 0..<warps_of dv ?r i. ?g (w * 8 + i))
      + (\<Sum>i = 0..<(8::int). if i = 0 then mset (block ev (?off + ?F * ?NT) (?off + ?r)) else {#})"
    using k by (simp add: core_share_def Let_def sum.distrib)
  also have "(\<Sum>i = 0..<8. \<Sum>w = 0..<warps_of dv ?r i. ?g (w * 8 + i)) = (\<Sum>q = 0..<?F. ?g q)"
    using warps_of_bounds(3) [OF wf tb(2,3)] by (intro sum_deal) auto
  also have "\<dots> = mset (block ev ?off (?off + ?F * ?NT))"
    using F dv by (intro mset_blocks_sum) auto
  also have "(\<Sum>i = 0..<(8::int). if i = 0 then mset (block ev (?off + ?F * ?NT) (?off + ?r)) else {#})
      = mset (block ev (?off + ?F * ?NT) (?off + ?r))"
    by simp
  also have "mset (block ev ?off (?off + ?F * ?NT)) + \<dots> = mset (cluster_block dv n ev k)"
    unfolding mset_append [symmetric] cluster_block_def
    using F by (intro arg_cong [where f = mset] block_append) auto
  finally show ?thesis .
qed

lemma cluster_launch:
  assumes hw: "simt_isa hw" and wf: "wf_device dv" and nc: "num_cores dv = K * 8"
    and n: "0 \<le> n" "in_int (n + cluster_threads dv)"
  shows "\<exists>cs. launch dv (vx_spawn_tasks_cluster hw dv n cb a g) = Some cs
    \<and> mset cs = mset (concat (map (cluster_block dv n (\<lambda>x. Call cb x a))
        [0..min K (n div cluster_threads dv + 1) - 1]))"
proof -
  let ?e = "vx_spawn_tasks_cluster hw dv n cb a g" and ?ev = "\<lambda>x. Call cb x a"
  let ?f = "\<lambda>c. snd (the (?e c))" and ?q = "n div cluster_threads dv"
  note dv = wf_deviceD [OF wf]
  have q: "0 \<le> ?q" using n dv by (simp add: cluster_threads_def pos_imp_zdiv_nonneg_iff)
  have K: "0 < K" using nc dv by simp
  have core: "\<exists>g' cs. ?e (k * 8 + i) = Some (g', cs) \<and> mset cs = core_share dv n ?ev k i"
    if "0 \<le> k" "k < K" "0 \<le> i" "i < 8" for k i
    using that nc by (intro simt_isa.vx_spawn_tasks_cluster_core [OF hw wf n]) auto
  have run: "launch dv ?e = Some (concat (map ?f [0..num_cores dv - 1]))"
    unfolding launch_def
  proof (rule traverse_total)
    fix c assume c: "c \<in> set [0..num_cores dv - 1]"
    have "c div 8 * 8 + c mod 8 = c" by simp
    with core [of "c div 8" "c mod 8"] c nc
    show "map_option snd (?e c) = Some (?f c)" by (force simp: pos_imp_zdiv_nonneg_iff div_less_iff_less_mult)
  qed
  have "mset (concat (map ?f [0..num_cores dv - 1])) = (\<Sum>c = 0..<K * 8. mset (?f c))"
    by (simp only: mset_concat_upto nc)
  also have "\<dots> = (\<Sum>i = 0..<8. \<Sum>k = 0..<K. mset (?f (k * 8 + i)))"
    by (rule sum_deal [symmetric]) auto
  also have "\<dots> = (\<Sum>k = 0..<K. \<Sum>i = 0..<8. core_share dv n ?ev k i)"
    using core by (subst sum.swap) (intro sum.cong refl, fastforce)
  also have "\<dots> = (\<Sum>k = 0..<min K (?q + 1). \<Sum>i = 0..<8. core_share dv n ?ev k i)"
    by (rule sum.mono_neutral_right) (auto simp: core_share_def)
  also have "\<dots> = (\<Sum>k = 0..<min K (?q + 1). mset (cluster_block dv n ?ev k))"
    by (intro sum.cong refl cluster_shares [OF wf n(1)]) auto
  finally show ?thesis by (simp add: run mset_concat_upto)
qed

section \<open>Properties\<close>

text \<open>C4: on a device of whole clusters, a cluster launch without remainder problem (every
  cluster that gets tasks is full, or only the first one gets any) and with at most as many tasks as
  the device has threads calls the callback exactly once for each task id; nothing overflows.\<close>

theorem vx_spawn_tasks_cluster_exactly_once:
  assumes "simt_isa hw" "wf_device dv" "num_cores dv = K * 8" "0 \<le> n" "in_int (n + cluster_threads dv)"
    and fit: "n \<le> K * cluster_threads dv" and whole: "n mod cluster_threads dv = 0 \<or> n < cluster_threads dv"
  shows "\<exists>cs. launch dv (vx_spawn_tasks_cluster hw dv n cb a g) = Some cs
    \<and> mset cs = mset (map (\<lambda>i. Call cb i a) [0..n - 1])"
proof -
  let ?T = "cluster_threads dv" and ?ev = "\<lambda>x. Call cb x a" and ?q = "n div cluster_threads dv"
  note dv = wf_deviceD [OF assms(2)]
  have T: "0 < ?T" and K: "0 < K" using dv assms(3) by (simp_all add: cluster_threads_def)
  have "concat (map (cluster_block dv n ?ev) [0..min K (?q + 1) - 1]) = block ?ev 0 n"
  proof (cases "n < ?T")
    case True
    then show ?thesis using assms(4) K by (simp add: cluster_block_def tasks_of_def div_pos_pos_trivial)
  next
    case False
    then have r: "n mod ?T = 0" using whole by simp
    then have n_eq: "n = ?q * ?T" by auto
    then have q: "?q \<le> K" using fit T by (metis mult_le_cancel_right not_less)
    have q0: "0 \<le> ?q" using assms(4) T by (simp add: pos_imp_zdiv_nonneg_iff)
    have "concat (map (cluster_block dv n ?ev) [0..min K (?q + 1) - 1])
        = concat (map (cluster_block dv n ?ev) [0..?q - 1]) @ concat (map (cluster_block dv n ?ev) [?q..min K (?q + 1) - 1])"
      using q q0 by (simp add: upto_append flip: concat_append map_append)
    also have "concat (map (cluster_block dv n ?ev) [?q..min K (?q + 1) - 1]) = []"
      using r by (auto simp: cluster_block_def tasks_of_def)
    also have "concat (map (cluster_block dv n ?ev) [0..?q - 1])
        = concat (map (\<lambda>k. block ?ev (k * ?T) ((k + 1) * ?T)) [0..?q - 1])"
      by (intro arg_cong [where f = concat] map_cong) (auto simp: cluster_block_def tasks_of_def distrib_right)
    also have "\<dots> = block ?ev (0 * ?T) (?q * ?T)"
      using q0 T by (intro concat_block) (auto intro: mult_right_mono)
    finally show ?thesis using n_eq by simp
  qed
  with cluster_launch [OF assms(1-5), of cb a g] show ?thesis by (simp add: block_def)
qed

theorem vx_spawn_tasks_cluster_exactly_once_witness:
  "\<exists>cs. launch \<lparr>num_cores = 16, num_warps = 4, num_threads = 8\<rparr>
      (vx_spawn_tasks_cluster std_simt \<lparr>num_cores = 16, num_warps = 4, num_threads = 8\<rparr> 203 True () (\<lambda>_. None)) = Some cs
    \<and> mset cs = mset (map (\<lambda>i. Call True i ()) [0..203 - 1])"
  by (rule vx_spawn_tasks_cluster_exactly_once [OF std.simt_isa_axioms, where K = 2])
    (simp_all add: wf_device_def in_int_def cluster_threads_def)

text \<open>C5: in general, cluster \<open>k\<close> runs the right number of tasks, \<open>tasks_of dv n k\<close>,
  but starting from \<open>k\<close> times that number, and only the clusters that exist run any.\<close>

theorem vx_spawn_tasks_cluster_runs:
  assumes "simt_isa hw" "wf_device dv" "num_cores dv = K * 8" "0 \<le> n" "in_int (n + cluster_threads dv)"
  shows "\<exists>cs. launch dv (vx_spawn_tasks_cluster hw dv n cb a g) = Some cs
    \<and> mset cs = mset (concat (map (\<lambda>k. map (\<lambda>i. Call cb (k * tasks_of dv n k + i) a) [0..tasks_of dv n k - 1])
        [0..min K (n div cluster_threads dv + 1) - 1]))"
proof -
  have "cluster_block dv n (\<lambda>x. Call cb x a)
      = (\<lambda>k. map (\<lambda>i. Call cb (k * tasks_of dv n k + i) a) [0..tasks_of dv n k - 1])"
    by (rule ext) (simp add: cluster_block_def block_def comp_def flip: map_upto_shift)
  with cluster_launch [OF assms, of cb a g] show ?thesis by simp
qed

theorem vx_spawn_tasks_cluster_runs_witness:
  "\<exists>cs. launch \<lparr>num_cores = 16, num_warps = 1, num_threads = 4\<rparr>
      (vx_spawn_tasks_cluster std_simt \<lparr>num_cores = 16, num_warps = 1, num_threads = 4\<rparr> 45 True () (\<lambda>_. None)) = Some cs
    \<and> mset cs = mset (concat (map (\<lambda>k. map (\<lambda>i. Call True
          (k * tasks_of \<lparr>num_cores = 16, num_warps = 1, num_threads = 4\<rparr> 45 k + i) ())
        [0..tasks_of \<lparr>num_cores = 16, num_warps = 1, num_threads = 4\<rparr> 45 k - 1])
        [0..min 2 (45 div cluster_threads \<lparr>num_cores = 16, num_warps = 1, num_threads = 4\<rparr> + 1) - 1]))"
  by (rule vx_spawn_tasks_cluster_runs [OF std.simt_isa_axioms])
    (simp_all add: wf_device_def in_int_def cluster_threads_def)

text \<open>A consequence of that offset: when the last cluster with tasks is a partial one and
  not the first, the last task of the launch is never run, although the device has the threads for it.\<close>

theorem vx_spawn_tasks_cluster_drops_last:
  assumes "simt_isa hw" "wf_device dv" "num_cores dv = K * 8" "in_int (n + cluster_threads dv)"
    and part: "cluster_threads dv < n" "n mod cluster_threads dv \<noteq> 0"
  shows "\<exists>cs. launch dv (vx_spawn_tasks_cluster hw dv n cb a g) = Some cs \<and> Call cb (n - 1) a \<notin> set cs"
proof -
  let ?T = "cluster_threads dv" and ?ev = "\<lambda>x. Call cb x a" and ?q = "n div cluster_threads dv"
  have T: "0 < ?T" using wf_deviceD [OF assms(2)] by (simp add: cluster_threads_def)
  then have n: "0 \<le> n" using part by simp
  obtain cs where cs: "launch dv (vx_spawn_tasks_cluster hw dv n cb a g) = Some cs"
    "mset cs = mset (concat (map (cluster_block dv n ?ev) [0..min K (?q + 1) - 1]))"
    using cluster_launch [OF assms(1-3) n assms(4), of cb a g] by blast
  have md: "n = ?q * ?T + n mod ?T" "n mod ?T < ?T" "0 < n mod ?T"
    using T part pos_mod_sign [OF T, of n] by (simp, simp, linarith)
  have "?ev (n - 1) \<notin> set (cluster_block dv n ?ev k)" if k: "0 \<le> k" "k \<le> ?q" for k
  proof (cases "k = ?q")
    case True
    have "1 \<le> ?q" using T part(1) by (simp add: int_one_le_iff_zero_less pos_imp_zdiv_pos_iff)
    then have "?q * (n mod ?T) + 1 \<le> ?q * ?T"
      using md mult_left_mono [of "n mod ?T + 1" ?T ?q] by (simp add: distrib_left)
    then have "?q * (n mod ?T) + n mod ?T \<le> n - 1" using md(1) by linarith
    then show ?thesis using True by (auto simp: cluster_block_def block_def tasks_of_def)
  next
    case False
    then have "(k + 1) * ?T \<le> ?q * ?T" using k T by (intro mult_right_mono) auto
    then have "k * ?T + ?T \<le> n - 1" using md unfolding distrib_right by linarith
    then show ?thesis using False k by (auto simp: cluster_block_def block_def tasks_of_def)
  qed
  with cs mset_eq_setD [OF cs(2)] show ?thesis by auto
qed

theorem vx_spawn_tasks_cluster_drops_last_witness:
  "\<exists>cs. launch \<lparr>num_cores = 16, num_warps = 1, num_threads = 1\<rparr>
      (vx_spawn_tasks_cluster std_simt \<lparr>num_cores = 16, num_warps = 1, num_threads = 1\<rparr> 9 True () (\<lambda>_. None)) = Some cs
    \<and> Call True (9 - 1) () \<notin> set cs"
  by (rule vx_spawn_tasks_cluster_drops_last [OF std.simt_isa_axioms, where K = 2])
    (simp_all add: wf_device_def in_int_def cluster_threads_def)

end
