(* ===== verification/C_Float.thy ===== *)
theory C_Float
  imports Complex_Main Prelude
begin

text \<open>
  The floating-point arithmetic of C on the repository's targets, IEEE 754 with
  round-to-nearest-even, as executable definitions on rationals: a format is given by its
  numbers of mantissa and exponent bits, a number is not-a-number, an infinity or a signed
  finite magnitude, and every operation rounds the exact rational result.  The encodings as
  bit patterns are included, since the code inspects them through unions.
\<close>

section \<open>Formats and numbers\<close>

record ffmt =
  mbits :: nat
  ebits :: nat

definition binary64 :: ffmt where "binary64 = \<lparr>mbits = 52, ebits = 11\<rparr>"
definition binary32 :: ffmt where "binary32 = \<lparr>mbits = 23, ebits = 8\<rparr>"

datatype fnum = FNan | FInf bool | FFin bool rat

definition fbias :: "ffmt \<Rightarrow> int" where
  "fbias F = 2 ^ (ebits F - 1) - 1"

text \<open>The exponent of the smallest normal number, and the encoding of infinity.\<close>

definition femin :: "ffmt \<Rightarrow> int" where
  "femin F = 1 - fbias F"

definition finf_bits :: "ffmt \<Rightarrow> int" where
  "finf_bits F = (2 ^ ebits F - 1) * 2 ^ mbits F"

definition pow2 :: "int \<Rightarrow> rat" where
  "pow2 k = (if 0 \<le> k then 2 ^ nat k else 1 / 2 ^ nat (- k))"

section \<open>Rounding\<close>

function blen :: "int \<Rightarrow> int" where
  "blen n = (if n \<le> 0 then 0 else 1 + blen (n div 2))"
  by auto
termination by (relation "measure nat") auto

declare blen.simps [simp del]

text \<open>The exponent of a positive rational: \<open>2 ^ ilog2 r \<le> r < 2 ^ (ilog2 r + 1)\<close>.\<close>

definition ilog2 :: "rat \<Rightarrow> int" where
  "ilog2 r = (let (a, b) = quotient_of r; k = blen a - blen b
              in if r < pow2 k then k - 1 else k)"

definition round_even :: "rat \<Rightarrow> int" where
  "round_even q = (let f = \<lfloor>q\<rfloor>; d = q - of_int f
                   in if d < 1 / 2 \<or> d = 1 / 2 \<and> even f then f else f + 1)"

text \<open>The unit in the last place for magnitudes with the exponent of \<open>r\<close>.\<close>

definition fulp :: "ffmt \<Rightarrow> rat \<Rightarrow> rat" where
  "fulp F r = pow2 (max (ilog2 r) (femin F) - int (mbits F))"

definition fround :: "ffmt \<Rightarrow> bool \<Rightarrow> rat \<Rightarrow> fnum" where
  "fround F s r =
     (if r = 0 then FFin s 0
      else let v = of_int (round_even (r / fulp F r)) * fulp F r
           in if pow2 (fbias F + 1) \<le> v then FInf s else FFin s v)"

section \<open>Arithmetic\<close>

fun fval :: "fnum \<Rightarrow> rat" where
  "fval (FFin s r) = (if s then - r else r)"
| "fval _ = 0"

fun fneg :: "fnum \<Rightarrow> fnum" where
  "fneg FNan = FNan"
| "fneg (FInf s) = FInf (\<not> s)"
| "fneg (FFin s r) = FFin (\<not> s) r"

definition fround_val :: "ffmt \<Rightarrow> bool \<Rightarrow> rat \<Rightarrow> fnum" where
  "fround_val F z v = (if v = 0 then FFin z 0 else fround F (v < 0) \<bar>v\<bar>)"

fun fadd :: "ffmt \<Rightarrow> fnum \<Rightarrow> fnum \<Rightarrow> fnum" where
  "fadd F (FFin s r) (FFin t q) = fround_val F (s \<and> t) (fval (FFin s r) + fval (FFin t q))"
| "fadd F FNan _ = FNan"
| "fadd F _ FNan = FNan"
| "fadd F (FInf s) (FInf t) = (if s = t then FInf s else FNan)"
| "fadd F (FInf s) _ = FInf s"
| "fadd F _ (FInf t) = FInf t"

definition fsub :: "ffmt \<Rightarrow> fnum \<Rightarrow> fnum \<Rightarrow> fnum" where
  "fsub F x y = fadd F x (fneg y)"

fun fmul :: "ffmt \<Rightarrow> fnum \<Rightarrow> fnum \<Rightarrow> fnum" where
  "fmul F (FFin s r) (FFin t q) = fround F (s \<noteq> t) (r * q)"
| "fmul F FNan _ = FNan"
| "fmul F _ FNan = FNan"
| "fmul F (FInf s) (FInf t) = FInf (s \<noteq> t)"
| "fmul F (FInf s) (FFin t q) = (if q = 0 then FNan else FInf (s \<noteq> t))"
| "fmul F (FFin s r) (FInf t) = (if r = 0 then FNan else FInf (s \<noteq> t))"

fun fdiv :: "ffmt \<Rightarrow> fnum \<Rightarrow> fnum \<Rightarrow> fnum" where
  "fdiv F (FFin s r) (FFin t q) =
     (if q = 0 then if r = 0 then FNan else FInf (s \<noteq> t) else fround F (s \<noteq> t) (r / q))"
| "fdiv F FNan _ = FNan"
| "fdiv F _ FNan = FNan"
| "fdiv F (FInf s) (FInf t) = FNan"
| "fdiv F (FInf s) (FFin t q) = FInf (s \<noteq> t)"
| "fdiv F (FFin s r) (FInf t) = FFin (s \<noteq> t) 0"

text \<open>Comparisons are false on not-a-number, and the two zeros are equal.\<close>

fun flt :: "fnum \<Rightarrow> fnum \<Rightarrow> bool" where
  "flt (FFin s r) (FFin t q) = (fval (FFin s r) < fval (FFin t q))"
| "flt FNan _ = False"
| "flt _ FNan = False"
| "flt (FInf s) (FInf t) = (s \<and> \<not> t)"
| "flt (FInf s) (FFin t q) = s"
| "flt (FFin s r) (FInf t) = (\<not> t)"

fun feq :: "fnum \<Rightarrow> fnum \<Rightarrow> bool" where
  "feq (FFin s r) (FFin t q) = (fval (FFin s r) = fval (FFin t q))"
| "feq (FInf s) (FInf t) = (s = t)"
| "feq _ _ = False"

definition fle :: "fnum \<Rightarrow> fnum \<Rightarrow> bool" where
  "fle x y = (flt x y \<or> feq x y)"

section \<open>Conversions\<close>

definition of_int_f :: "ffmt \<Rightarrow> int \<Rightarrow> fnum" where
  "of_int_f F n = fround_val F False (of_int n)"

text \<open>A decimal constant of the source, rounded to the format.\<close>

definition const_f :: "ffmt \<Rightarrow> rat \<Rightarrow> fnum" where
  "const_f F q = fround_val F False q"

text \<open>Truncation toward zero; undefined for what is not finite.\<close>

fun ftrunc :: "fnum \<Rightarrow> int option" where
  "ftrunc (FFin s r) = Some (if s then - \<lfloor>r\<rfloor> else \<lfloor>r\<rfloor>)"
| "ftrunc _ = None"

text \<open>The conversions \<open>(int)x\<close> and \<open>(unsigned)x\<close>: undefined outside the range.\<close>

definition f_to_int :: "fnum \<Rightarrow> int option" where
  "f_to_int x = do { t \<leftarrow> ftrunc x; ck t }"

definition f_to_u32 :: "fnum \<Rightarrow> u32 option" where
  "f_to_u32 x = do { t \<leftarrow> ftrunc x; if 0 \<le> t \<and> t < 2 ^ 32 then Some (word_of_int t) else None }"

section \<open>Encodings\<close>

definition dec_mag :: "ffmt \<Rightarrow> int \<Rightarrow> rat" where
  "dec_mag F m = (let e = m div 2 ^ mbits F; f = m mod 2 ^ mbits F
     in if e = 0 then of_int f * pow2 (femin F - int (mbits F))
        else of_int (2 ^ mbits F + f) * pow2 (e - 1 + femin F - int (mbits F)))"

definition fdec :: "ffmt \<Rightarrow> int \<Rightarrow> fnum" where
  "fdec F b = (let k = mbits F + ebits F; s = odd (b div 2 ^ k); m = b mod 2 ^ k
     in if finf_bits F < m then FNan else if m = finf_bits F then FInf s
        else FFin s (dec_mag F m))"

definition enc_mag :: "ffmt \<Rightarrow> rat \<Rightarrow> int" where
  "enc_mag F r = (if r = 0 then 0
     else (max (ilog2 r) (femin F) - femin F) * 2 ^ mbits F + \<lfloor>r / fulp F r\<rfloor>)"

fun fenc :: "ffmt \<Rightarrow> fnum \<Rightarrow> int" where
  "fenc F FNan = finf_bits F + 2 ^ (mbits F - 1)"
| "fenc F (FInf s) = c_bool s * 2 ^ (mbits F + ebits F) + finf_bits F"
| "fenc F (FFin s r) = c_bool s * 2 ^ (mbits F + ebits F) + enc_mag F r"

section \<open>Facts\<close>

lemma pow2_pos [simp]: "0 < pow2 k"
  by (simp add: pow2_def)

lemma pow2_nonzero [simp]: "pow2 k \<noteq> 0"
  by (metis pow2_pos less_irrefl)

lemma round_even_of_int [simp]: "round_even (of_int n) = n"
  by (simp add: round_even_def)

text \<open>Rounding to nearest: the result is within one half.\<close>

lemma round_even_half: "\<bar>of_int (round_even q) - q\<bar> \<le> 1 / 2"
proof -
  have "of_int \<lfloor>q\<rfloor> \<le> q" "q < of_int \<lfloor>q\<rfloor> + 1" by linarith+
  then show ?thesis by (auto simp: round_even_def Let_def abs_le_iff)
qed

lemma fval_fneg [simp]: "fval (fneg x) = - fval x"
  by (cases x) auto

end
