(* ===== verification/Printf.thy ===== *)
theory Printf
  imports C_Float
begin

text \<open>
  The formatted output of \<^verbatim>\<open>lib/src/tinyprintf.c\<close>, translated function by
  function for the 32-bit target (\<open>int\<close>, \<open>long\<close>, pointers and \<open>size_t\<close> have 32
  bits, \<open>long long\<close> and \<open>intmax_t\<close> 64, plain \<open>char\<close> is unsigned as in the RISC-V ABI).
  A C string or buffer argument is the list of the bytes from the pointer to the end of
  the array it points into, so that reading past the end is \<^const>\<open>None\<close>, as is every
  other undefined operation.  The static buffers \<open>buf[32]\<close>, which the code only writes at
  \<open>buf[len++]\<close>, are the list of their first \<open>len\<close> bytes.
\<close>

section \<open>Output functions\<close>

text \<open>
  \<open>out(character, buffer, idx, maxlen)\<close> acts on a state \<open>'s\<close>: the memory behind \<open>buffer\<close>,
  or what the console has received.
\<close>

type_synonym 's sink = "u8 \<Rightarrow> u32 \<Rightarrow> u32 \<Rightarrow> 's \<Rightarrow> 's option"

definition out_buffer :: "u8 list sink" where
  "out_buffer character idx maxlen buf =
     (if idx < maxlen
      then if unat idx < length buf then Some (buf[unat idx := character]) else None
      else Some buf)"

definition out_null :: "'s sink" where
  "out_null character idx maxlen s = Some s"

text \<open>\<open>vx_putchar\<close> and the callback of the wrapper are arguments.\<close>

definition out_char :: "(u8 \<Rightarrow> 's \<Rightarrow> 's option) \<Rightarrow> 's sink" where
  "out_char putchar character idx maxlen s = (if character \<noteq> 0 then putchar character s else Some s)"

definition out_fct :: "(u8 \<Rightarrow> 's \<Rightarrow> 's option) \<Rightarrow> 's sink" where
  "out_fct fct character idx maxlen s = (if character \<noteq> 0 then fct character s else Some s)"

text \<open>\<open>out(c, buffer, idx++, maxlen)\<close>\<close>

definition put :: "'s sink \<Rightarrow> u32 \<Rightarrow> u8 \<Rightarrow> u32 \<times> 's \<Rightarrow> (u32 \<times> 's) option" where
  "put out maxlen c st = do { s \<leftarrow> out c (fst st) maxlen (snd st); Some (fst st + 1, s) }"

section \<open>Flags and helpers\<close>

definition FLAGS_ZEROPAD :: u32 where "FLAGS_ZEROPAD = 1"
definition FLAGS_LEFT :: u32 where "FLAGS_LEFT = 2"
definition FLAGS_PLUS :: u32 where "FLAGS_PLUS = 4"
definition FLAGS_SPACE :: u32 where "FLAGS_SPACE = 8"
definition FLAGS_HASH :: u32 where "FLAGS_HASH = 16"
definition FLAGS_UPPERCASE :: u32 where "FLAGS_UPPERCASE = 32"
definition FLAGS_CHAR :: u32 where "FLAGS_CHAR = 64"
definition FLAGS_SHORT :: u32 where "FLAGS_SHORT = 128"
definition FLAGS_LONG :: u32 where "FLAGS_LONG = 256"
definition FLAGS_LONG_LONG :: u32 where "FLAGS_LONG_LONG = 512"
definition FLAGS_PRECISION :: u32 where "FLAGS_PRECISION = 1024"
definition FLAGS_ADAPT_EXP :: u32 where "FLAGS_ADAPT_EXP = 2048"

text \<open>\<open>flags & mask\<close> as a condition.\<close>

definition on :: "u32 \<Rightarrow> u32 \<Rightarrow> bool" where
  "on flags m \<longleftrightarrow> flags AND m \<noteq> 0"

fun strnlen_s :: "u8 list \<Rightarrow> u32 \<Rightarrow> u32 option" where
  "strnlen_s [] maxsize = None"
| "strnlen_s (c # s) maxsize =
     (if c \<noteq> 0 \<and> maxsize \<noteq> 0 then map_option (\<lambda>n. n + 1) (strnlen_s s (maxsize - 1)) else Some 0)"

definition is_digit :: "u8 \<Rightarrow> bool" where
  "is_digit c \<longleftrightarrow> ascii CHR ''0'' \<le> c \<and> c \<le> ascii CHR ''9''"

fun atoi :: "u8 list \<Rightarrow> u32 \<Rightarrow> (u32 \<times> u8 list) option" where
  "atoi [] i = None"
| "atoi (c # s) i =
     (if is_digit c then atoi s (i * 10 + ucast (c - ascii CHR ''0'')) else Some (i, c # s))"

lemma unat_less_inc: "unat (i + 1) = Suc (unat i)" if "i < (w :: 'a::len word)"
proof -
  have "Suc (unat i) < 2 ^ LENGTH('a)"
    using that unsigned_less [of w, where 'a = nat] unfolding word_less_nat_alt by linarith
  then show ?thesis by (simp add: unat_word_ariths)
qed

text \<open>\<open>for (; i < width; i++) out(' ', ...)\<close>, also the code's \<open>while (i++ < width) out(' ', ...)\<close>.\<close>

function spaces_from :: "'s sink \<Rightarrow> u32 \<Rightarrow> u32 \<Rightarrow> u32 \<Rightarrow> u32 \<times> 's \<Rightarrow> (u32 \<times> 's) option" where
  "spaces_from out maxlen i width st =
     (if i < width
      then do { st \<leftarrow> put out maxlen (ascii CHR '' '') st; spaces_from out maxlen (i + 1) width st }
      else Some st)"
  by auto
termination
  by (relation "measure (\<lambda>(out, m, i, w, st). unat w - unat i)")
    (auto simp: unat_less_inc word_less_nat_alt intro: diff_less_mono2)

text \<open>\<open>while (idx - start_idx < width) out(' ', ...)\<close>\<close>

function spaces_until :: "'s sink \<Rightarrow> u32 \<Rightarrow> u32 \<Rightarrow> u32 \<Rightarrow> u32 \<times> 's \<Rightarrow> (u32 \<times> 's) option" where
  "spaces_until out maxlen start width (idx, s) =
     (if idx - start < width
      then do { s \<leftarrow> out (ascii CHR '' '') idx maxlen s; spaces_until out maxlen start width (idx + 1, s) }
      else Some (idx, s))"
  by auto
termination
proof (relation "measure (\<lambda>(out, m, start, w, idx, s). unat w - unat (idx - start))", goal_cases)
  case (2 out m start w idx s s')
  have "unat (idx + 1 - start) = Suc (unat (idx - start))"
    using unat_less_inc [OF 2(1)] by (simp add: algebra_simps)
  then show ?case using 2(1) by (simp add: word_less_nat_alt)
qed simp

declare spaces_from.simps [simp del] spaces_until.simps [simp del]

text \<open>\<open>while (len) out(buf[--len], ...)\<close>\<close>

fun rev_loop :: "'s sink \<Rightarrow> u32 \<Rightarrow> u8 list \<Rightarrow> nat \<Rightarrow> u32 \<times> 's \<Rightarrow> (u32 \<times> 's) option" where
  "rev_loop out maxlen buf 0 st = Some st"
| "rev_loop out maxlen buf (Suc len) st =
     (if len < length buf
      then do { st \<leftarrow> put out maxlen (buf ! len) st; rev_loop out maxlen buf len st }
      else None)"

definition out_rev ::
    "'s sink \<Rightarrow> u32 \<Rightarrow> u8 list \<Rightarrow> nat \<Rightarrow> u32 \<Rightarrow> u32 \<Rightarrow> u32 \<times> 's \<Rightarrow> (u32 \<times> 's) option" where
  "out_rev out maxlen buf len width flags st = do {
     let start_idx = fst st;
     st \<leftarrow> (if \<not> on flags FLAGS_LEFT \<and> \<not> on flags FLAGS_ZEROPAD
           then spaces_from out maxlen (of_nat len) width st else Some st);
     st \<leftarrow> rev_loop out maxlen buf len st;
     if on flags FLAGS_LEFT then spaces_until out maxlen start_idx width st else Some st
   }"

section \<open>Integers\<close>

definition BUFFER_SIZE :: nat where "BUFFER_SIZE = 32"

text \<open>\<open>buf[len++] = c\<close> in a buffer of 32 bytes.\<close>

definition push :: "u8 \<Rightarrow> u8 list \<Rightarrow> u8 list option" where
  "push c buf = (if length buf < BUFFER_SIZE then Some (buf @ [c]) else None)"

text \<open>\<open>while ((len < bound) && (len < PRINTF_NTOA_BUFFER_SIZE)) buf[len++] = '0';\<close>\<close>

function zero_fill :: "nat \<Rightarrow> u8 list \<Rightarrow> u8 list" where
  "zero_fill bound buf =
     (if length buf < bound \<and> length buf < BUFFER_SIZE then zero_fill bound (buf @ [ascii CHR ''0'']) else buf)"
  by auto
termination by (relation "measure (\<lambda>(bound, buf). BUFFER_SIZE - length buf)") auto

text \<open>The three stages of \<open>_ntoa_format\<close> before the output: leading zeros (which may take one
  from \<open>width\<close>), the prefix of the hash flag, and the sign.\<close>

definition ntoa_pad :: "u8 list \<Rightarrow> bool \<Rightarrow> u32 \<Rightarrow> u32 \<Rightarrow> u32 \<Rightarrow> u8 list \<times> u32" where
  "ntoa_pad buf negative prec width flags =
     (if \<not> on flags FLAGS_LEFT
      then let width = (if width \<noteq> 0 \<and> on flags FLAGS_ZEROPAD
                           \<and> (negative \<or> on flags (FLAGS_PLUS OR FLAGS_SPACE)) then width - 1 else width);
               buf = zero_fill (unat prec) buf;
               buf = (if on flags FLAGS_ZEROPAD then zero_fill (unat width) buf else buf)
           in (buf, width)
      else (buf, width))"

definition hash_cut :: "u8 list \<Rightarrow> u32 \<Rightarrow> u32 \<Rightarrow> u32 \<Rightarrow> u32 \<Rightarrow> u8 list" where
  "hash_cut buf base prec width flags =
     (if \<not> on flags FLAGS_PRECISION \<and> length buf \<noteq> 0
         \<and> (length buf = unat prec \<or> length buf = unat width)
      then let b = butlast buf in if length b \<noteq> 0 \<and> base = 16 then butlast b else b
      else buf)"

definition ntoa_hash :: "u8 list \<Rightarrow> u32 \<Rightarrow> u32 \<Rightarrow> u32 \<Rightarrow> u32 \<Rightarrow> u8 list option" where
  "ntoa_hash buf base prec width flags =
     (if on flags FLAGS_HASH
      then do {
        let buf = hash_cut buf base prec width flags;
        buf \<leftarrow> (if base = 16 \<and> \<not> on flags FLAGS_UPPERCASE \<and> length buf < BUFFER_SIZE
               then push (ascii CHR ''x'') buf
               else if base = 16 \<and> on flags FLAGS_UPPERCASE \<and> length buf < BUFFER_SIZE
               then push (ascii CHR ''X'') buf
               else if base = 2 \<and> length buf < BUFFER_SIZE
               then push (ascii CHR ''b'') buf
               else Some buf);
        if length buf < BUFFER_SIZE then push (ascii CHR ''0'') buf else Some buf
      } else Some buf)"

definition ntoa_sign :: "u8 list \<Rightarrow> bool \<Rightarrow> u32 \<Rightarrow> u8 list option" where
  "ntoa_sign buf negative flags =
     (if length buf < BUFFER_SIZE
      then if negative then push (ascii CHR ''-'') buf
           else if on flags FLAGS_PLUS then push (ascii CHR ''+'') buf
           else if on flags FLAGS_SPACE then push (ascii CHR '' '') buf
           else Some buf
      else Some buf)"

definition ntoa_format_buf ::
    "u8 list \<Rightarrow> bool \<Rightarrow> u32 \<Rightarrow> u32 \<Rightarrow> u32 \<Rightarrow> u32 \<Rightarrow> (u8 list \<times> u32) option" where
  "ntoa_format_buf buf negative base prec width flags = do {
     let (buf, width) = ntoa_pad buf negative prec width flags;
     buf \<leftarrow> ntoa_hash buf base prec width flags;
     buf \<leftarrow> ntoa_sign buf negative flags;
     Some (buf, width)
   }"

definition ntoa_format ::
    "'s sink \<Rightarrow> u32 \<Rightarrow> u8 list \<Rightarrow> bool \<Rightarrow> u32 \<Rightarrow> u32 \<Rightarrow> u32 \<Rightarrow> u32 \<Rightarrow> u32 \<times> 's \<Rightarrow> (u32 \<times> 's) option" where
  "ntoa_format out maxlen buf negative base prec width flags st = do {
     (buf, width) \<leftarrow> ntoa_format_buf buf negative base prec width flags;
     out_rev out maxlen buf (length buf) width flags st
   }"

definition digit_char :: "bool \<Rightarrow> u8 \<Rightarrow> u8" where
  "digit_char upper digit =
     (if digit < 10 then ascii CHR ''0'' + digit
      else (if upper then ascii CHR ''A'' else ascii CHR ''a'') + digit - 10)"

text \<open>
  The digit loop, at the width of its argument: \<open>unsigned long\<close> in \<open>_ntoa_long\<close>,
  \<open>unsigned long long\<close> in \<open>_ntoa_long_long\<close>, whose texts are the same.
\<close>

function ntoa_digits :: "'a::len word \<Rightarrow> 'a word \<Rightarrow> bool \<Rightarrow> u8 list \<Rightarrow> u8 list option" where
  "ntoa_digits base value upper buf =
     (if length buf < BUFFER_SIZE
      then let buf = buf @ [digit_char upper (ucast (value mod base))];
               value = value div base
           in if value \<noteq> 0 \<and> length buf < BUFFER_SIZE then ntoa_digits base value upper buf else Some buf
      else None)"
  by auto
termination by (relation "measure (\<lambda>(b, v, u, buf). BUFFER_SIZE - length buf)") auto

declare zero_fill.simps [simp del] ntoa_digits.simps [simp del]

definition ntoa_buf :: "'a::len word \<Rightarrow> 'a word \<Rightarrow> u32 \<Rightarrow> u8 list option" where
  "ntoa_buf base value flags =
     (if \<not> on flags FLAGS_PRECISION \<or> value \<noteq> 0
      then ntoa_digits base value (on flags FLAGS_UPPERCASE) [] else Some [])"

definition ntoa_long ::
    "'s sink \<Rightarrow> u32 \<Rightarrow> u32 \<Rightarrow> bool \<Rightarrow> u32 \<Rightarrow> u32 \<Rightarrow> u32 \<Rightarrow> u32 \<Rightarrow> u32 \<times> 's \<Rightarrow> (u32 \<times> 's) option" where
  "ntoa_long out maxlen value negative base prec width flags st = do {
     let flags = (if value = 0 then flags AND NOT FLAGS_HASH else flags);
     buf \<leftarrow> ntoa_buf base value flags;
     ntoa_format out maxlen buf negative base prec width flags st
   }"

definition ntoa_long_long ::
    "'s sink \<Rightarrow> u32 \<Rightarrow> u64 \<Rightarrow> bool \<Rightarrow> u64 \<Rightarrow> u32 \<Rightarrow> u32 \<Rightarrow> u32 \<Rightarrow> u32 \<times> 's \<Rightarrow> (u32 \<times> 's) option" where
  "ntoa_long_long out maxlen value negative base prec width flags st = do {
     let flags = (if value = 0 then flags AND NOT FLAGS_HASH else flags);
     buf \<leftarrow> ntoa_buf base value flags;
     ntoa_format out maxlen buf negative (ucast base) prec width flags st
   }"

section \<open>Floating point\<close>

abbreviation "B64 \<equiv> binary64"

definition DBL_MAX :: fnum where
  "DBL_MAX = FFin False (of_int ((2 ^ 53 - 1) * 2 ^ 971))"

definition PRINTF_MAX_FLOAT :: fnum where
  "PRINTF_MAX_FLOAT = FFin False 1000000000"

definition PRINTF_DEFAULT_FLOAT_PRECISION :: u32 where
  "PRINTF_DEFAULT_FLOAT_PRECISION = 6"

text \<open>The table \<open>pow10[]\<close> of ten entries.\<close>

definition pow10 :: "u32 \<Rightarrow> fnum option" where
  "pow10 prec = (if prec < 10 then Some (FFin False (10 ^ unat prec)) else None)"

text \<open>\<open>while ((len < PRINTF_FTOA_BUFFER_SIZE) && (prec > 9U))\<close>\<close>

function limit_prec :: "u32 \<Rightarrow> u8 list \<Rightarrow> u32 \<times> u8 list" where
  "limit_prec prec buf =
     (if length buf < BUFFER_SIZE \<and> 9 < prec then limit_prec (prec - 1) (buf @ [ascii CHR ''0''])
      else (prec, buf))"
  by auto
termination by (relation "measure (\<lambda>(p, buf). BUFFER_SIZE - length buf)") auto

text \<open>The digits of the fraction; \<open>count\<close> is \<open>unsigned\<close> and may wrap.\<close>

function frac_digits :: "u32 \<Rightarrow> u32 \<Rightarrow> u8 list \<Rightarrow> u32 \<times> u8 list" where
  "frac_digits frc cnt buf =
     (if length buf < BUFFER_SIZE
      then let cnt = cnt - 1; buf = buf @ [ucast (48 + frc mod 10)]; frc = frc div 10
           in if frc = 0 then (cnt, buf) else frac_digits frc cnt buf
      else (cnt, buf))"
  by auto
termination by (relation "measure (\<lambda>(f, c, buf). BUFFER_SIZE - length buf)") auto

text \<open>\<open>while ((len < PRINTF_FTOA_BUFFER_SIZE) && (count-- > 0U)) buf[len++] = '0';\<close>\<close>

function extra_zeros :: "u32 \<Rightarrow> u8 list \<Rightarrow> u8 list" where
  "extra_zeros cnt buf =
     (if length buf < BUFFER_SIZE \<and> 0 < cnt then extra_zeros (cnt - 1) (buf @ [ascii CHR ''0'']) else buf)"
  by auto
termination by (relation "measure (\<lambda>(c, buf). BUFFER_SIZE - length buf)") auto

function whole_digits :: "int \<Rightarrow> u8 list \<Rightarrow> u8 list" where
  "whole_digits whole buf =
     (if length buf < BUFFER_SIZE
      then let buf = buf @ [word_of_int (48 + whole smod 10)]; whole = whole sdiv 10
           in if whole = 0 then buf else whole_digits whole buf
      else buf)"
  by auto
termination by (relation "measure (\<lambda>(w, buf). BUFFER_SIZE - length buf)") auto

declare limit_prec.simps [simp del] frac_digits.simps [simp del] extra_zeros.simps [simp del]
  whole_digits.simps [simp del]

text \<open>
  The stages of \<open>_ftoa\<close> between the special values and the final output.  First the split
  of the non-negative \<open>value\<close> into a whole part and a fraction scaled by \<open>10 ^ prec\<close>.
\<close>

definition f_half :: fnum where "f_half = FFin False (1 / 2)"

definition ftoa_split :: "fnum \<Rightarrow> u32 \<Rightarrow> (u32 \<times> int) option" where
  "ftoa_split value prec = do {
     whole \<leftarrow> f_to_int value;
     scale \<leftarrow> pow10 prec;
     let tmp = fmul B64 (fsub B64 value (of_int_f B64 whole)) scale;
     frc \<leftarrow> f_to_u32 tmp;
     let diff = fsub B64 tmp (of_int_f B64 (uint frc));
     if flt f_half diff
     then let frc = frc + 1
          in if fle scale (of_int_f B64 (uint frc)) then do { w \<leftarrow> c_add whole 1; Some (0, w) }
             else Some (frc, whole)
     else if flt diff f_half then Some (frc, whole)
     else if frc = 0 \<or> odd (uint frc) then Some (frc + 1, whole)
     else Some (frc, whole)
   }"

text \<open>The digits of both parts, lowest first.\<close>

definition ftoa_digits :: "fnum \<Rightarrow> u32 \<Rightarrow> u32 \<Rightarrow> int \<Rightarrow> u8 list \<Rightarrow> u8 list option" where
  "ftoa_digits value prec frc whole buf = do {
     (buf, whole) \<leftarrow>
       (if prec = 0
        then let diff = fsub B64 value (of_int_f B64 whole)
             in if (\<not> flt diff f_half \<or> flt f_half diff) \<and> odd whole
                then do { w \<leftarrow> c_add whole 1; Some (buf, w) } else Some (buf, whole)
        else let (cnt, buf) = frac_digits frc prec buf;
                 buf = extra_zeros cnt buf;
                 buf = (if length buf < BUFFER_SIZE then buf @ [ascii CHR ''.''] else buf)
             in Some (buf, whole));
     Some (whole_digits whole buf)
   }"

text \<open>Leading zeros and the sign.\<close>

definition ftoa_finish :: "u8 list \<Rightarrow> bool \<Rightarrow> u32 \<Rightarrow> u32 \<Rightarrow> u8 list \<times> u32" where
  "ftoa_finish buf negative width flags =
     (let (buf, width) =
        (if \<not> on flags FLAGS_LEFT \<and> on flags FLAGS_ZEROPAD
         then let width = (if width \<noteq> 0 \<and> (negative \<or> on flags (FLAGS_PLUS OR FLAGS_SPACE))
                           then width - 1 else width)
              in (zero_fill (unat width) buf, width)
         else (buf, width));
        buf = (if length buf < BUFFER_SIZE
               then if negative then buf @ [ascii CHR ''-'']
                    else if on flags FLAGS_PLUS then buf @ [ascii CHR ''+'']
                    else if on flags FLAGS_SPACE then buf @ [ascii CHR '' '']
                    else buf
               else buf)
      in (buf, width))"

definition ftoa_buf :: "fnum \<Rightarrow> u32 \<Rightarrow> u32 \<Rightarrow> u32 \<Rightarrow> (u8 list \<times> u32) option" where
  "ftoa_buf value prec width flags = do {
     let negative = flt value (FFin False 0);
     let value = (if negative then fsub B64 (FFin False 0) value else value);
     let prec = (if \<not> on flags FLAGS_PRECISION then PRINTF_DEFAULT_FLOAT_PRECISION else prec);
     let (prec, buf) = limit_prec prec [];
     (frc, whole) \<leftarrow> ftoa_split value prec;
     buf \<leftarrow> ftoa_digits value prec frc whole buf;
     Some (ftoa_finish buf negative width flags)
   }"

text \<open>
  The part of \<open>_etoa\<close> before any output: the rescaled value, precision, flags, width of the
  floating part, exponent and width of the exponent.  The union \<open>conv\<close> reinterprets the
  encoding of a \<open>double\<close>.
\<close>

record etoa_plan =
  e_value :: fnum
  e_prec :: u32
  e_flags :: u32
  e_fwidth :: u32
  e_expval :: int
  e_minwidth :: u32

text \<open>Decimal exponent and power of ten: \<open>expval\<close> and \<open>conv.F\<close> before the correction.\<close>

definition etoa_estimate :: "fnum \<Rightarrow> (int \<times> fnum) option" where
  "etoa_estimate value = do {
     let U = fenc B64 value;
     let exp2 = (U div 2 ^ 52) mod 2048 - 1023;
     let F = fdec B64 (U mod 2 ^ 52 + 1023 * 2 ^ 52);
     expval \<leftarrow> f_to_int
       (fadd B64
         (fadd B64 (const_f B64 (1760912590558 / 10 ^ 13))
           (fmul B64 (of_int_f B64 exp2) (const_f B64 (301029995663981 / 10 ^ 15))))
         (fmul B64 (fsub B64 F (const_f B64 (3 / 2))) (const_f B64 (289529654602168 / 10 ^ 15))));
     exp2 \<leftarrow> f_to_int (fadd B64 (fmul B64 (of_int_f B64 expval) (const_f B64 (3321928094887362 / 10 ^ 15)))
                                   (const_f B64 (1 / 2)));
     let z = fsub B64 (fmul B64 (of_int_f B64 expval) (const_f B64 (2302585092994046 / 10 ^ 15)))
                      (fmul B64 (of_int_f B64 exp2) (const_f B64 (6931471805599453 / 10 ^ 16)));
     let z2 = fmul B64 z z;
     let F = fdec B64 ((exp2 + 1023) mod 2 ^ 64 * 2 ^ 52 mod 2 ^ 64);
     let n = of_int_f B64;
     let cf = fdiv B64 (fmul B64 (n 2) z)
                (fadd B64 (fsub B64 (n 2) z)
                  (fdiv B64 z2 (fadd B64 (n 6) (fdiv B64 z2 (fadd B64 (n 10) (fdiv B64 z2 (n 14)))))));
     Some (expval, fmul B64 F (fadd B64 (n 1) cf))
   }"

definition etoa_prepare :: "fnum \<Rightarrow> u32 \<Rightarrow> u32 \<Rightarrow> u32 \<Rightarrow> etoa_plan option" where
  "etoa_prepare value0 prec width flags = do {
     let negative = flt value0 (FFin False 0);
     let value = (if negative then fneg value0 else value0);
     let prec = (if \<not> on flags FLAGS_PRECISION then PRINTF_DEFAULT_FLOAT_PRECISION else prec);
     (expval, F) \<leftarrow> etoa_estimate value;
     let (expval, F) = (if flt value F then (expval - 1, fdiv B64 F (of_int_f B64 10)) else (expval, F));
     let minwidth = (if expval < 100 \<and> - 100 < expval then 4 else 5 :: u32);
     (prec, flags, minwidth, expval) \<leftarrow>
       (if on flags FLAGS_ADAPT_EXP
        then if fle (const_f B64 (1 / 10000)) value \<and> flt value (const_f B64 1000000)
             then do {
               prec \<leftarrow> (if expval < sint prec
                       then do { t \<leftarrow> c_sub (sint prec) expval; t \<leftarrow> c_sub t 1; Some (word_of_int t) }
                       else Some 0);
               Some (prec, flags OR FLAGS_PRECISION, 0, 0)
             }
             else Some (if 0 < prec \<and> on flags FLAGS_PRECISION then prec - 1 else prec,
                        flags, minwidth, expval)
        else Some (prec, flags, minwidth, expval));
     let fwidth = (if minwidth < width then width - minwidth else 0);
     let fwidth = (if on flags FLAGS_LEFT \<and> minwidth \<noteq> 0 then 0 else fwidth);
     let value = (if expval \<noteq> 0 then fdiv B64 value F else value);
     Some \<lparr>e_value = (if negative then fneg value else value), e_prec = prec, e_flags = flags,
           e_fwidth = fwidth, e_expval = expval, e_minwidth = minwidth\<rparr>
   }"

text \<open>
  \<open>_ftoa\<close> (with \<open>False\<close>) and \<open>_etoa\<close> (with \<open>True\<close>), which call each other; the first
  argument bounds the depth of these calls.
\<close>

fun fltoa :: "nat \<Rightarrow> bool \<Rightarrow> 's sink \<Rightarrow> u32 \<Rightarrow> fnum \<Rightarrow> u32 \<Rightarrow> u32 \<Rightarrow> u32 \<Rightarrow> u32 \<times> 's \<Rightarrow> (u32 \<times> 's) option" where
  "fltoa 0 e out maxlen value prec width flags st = None"
| "fltoa (Suc d) False out maxlen value prec width flags st =
     (if \<not> feq value value
      then out_rev out maxlen (map ascii ''nan'') 3 width flags st
      else if flt value (fneg DBL_MAX)
      then out_rev out maxlen (map ascii ''fni-'') 4 width flags st
      else if flt DBL_MAX value
      then out_rev out maxlen (if on flags FLAGS_PLUS then map ascii ''fni+'' else map ascii ''fni'')
             (if on flags FLAGS_PLUS then 4 else 3) width flags st
      else if flt PRINTF_MAX_FLOAT value \<or> flt value (fneg PRINTF_MAX_FLOAT)
      then fltoa d True out maxlen value prec width flags st
      else do {
        (buf, width) \<leftarrow> ftoa_buf value prec width flags;
        out_rev out maxlen buf (length buf) width flags st
      })"
| "fltoa (Suc d) True out maxlen value prec width flags st =
     (if \<not> feq value value \<or> flt DBL_MAX value \<or> flt value (fneg DBL_MAX)
      then fltoa d False out maxlen value prec width flags st
      else do {
        p \<leftarrow> etoa_prepare value prec width flags;
        let start_idx = fst st;
        st \<leftarrow> fltoa d False out maxlen (e_value p) (e_prec p) (e_fwidth p)
                (e_flags p AND NOT FLAGS_ADAPT_EXP) st;
        if e_minwidth p \<noteq> 0
        then do {
          st \<leftarrow> put out maxlen (if on (e_flags p) FLAGS_UPPERCASE then ascii CHR ''E'' else ascii CHR ''e'') st;
          st \<leftarrow> ntoa_long out maxlen (word_of_int \<bar>e_expval p\<bar>) (e_expval p < 0) 10 0 (e_minwidth p - 1)
                  (FLAGS_ZEROPAD OR FLAGS_PLUS) st;
          if on (e_flags p) FLAGS_LEFT then spaces_until out maxlen start_idx width st else Some st
        } else Some st
      })"

section \<open>The directives of a format\<close>

text \<open>
  An argument slot: a 32-bit value (\<open>int\<close>, \<open>long\<close>, a pointer), a 64-bit value, a
  \<open>double\<close>, or a pointer to characters.  Fetching an argument of another type is undefined.
\<close>

datatype va_arg = VWord u32 | VLong u64 | VDouble fnum | VStr "u8 list"

fun va_word :: "va_arg list \<Rightarrow> (u32 \<times> va_arg list) option" where
  "va_word (VWord w # va) = Some (w, va)"
| "va_word _ = None"

fun va_long :: "va_arg list \<Rightarrow> (u64 \<times> va_arg list) option" where
  "va_long (VLong w # va) = Some (w, va)"
| "va_long _ = None"

fun va_double :: "va_arg list \<Rightarrow> (fnum \<times> va_arg list) option" where
  "va_double (VDouble x # va) = Some (x, va)"
| "va_double _ = None"

fun va_str :: "va_arg list \<Rightarrow> (u8 list \<times> va_arg list) option" where
  "va_str (VStr p # va) = Some (p, va)"
| "va_str _ = None"

text \<open>\<open>*format\<close>, undefined past the end of the array.\<close>

fun deref :: "u8 list \<Rightarrow> u8 option" where
  "deref [] = None"
| "deref (c # s) = Some c"

fun parse_flags :: "u8 list \<Rightarrow> u32 \<Rightarrow> (u32 \<times> u8 list) option" where
  "parse_flags [] flags = None"
| "parse_flags (c # s) flags =
     (if c = ascii CHR ''0'' then parse_flags s (flags OR FLAGS_ZEROPAD)
      else if c = ascii CHR ''-'' then parse_flags s (flags OR FLAGS_LEFT)
      else if c = ascii CHR ''+'' then parse_flags s (flags OR FLAGS_PLUS)
      else if c = ascii CHR '' '' then parse_flags s (flags OR FLAGS_SPACE)
      else if c = ascii CHR ''#'' then parse_flags s (flags OR FLAGS_HASH)
      else Some (flags, c # s))"

definition parse_width ::
    "u8 list \<Rightarrow> va_arg list \<Rightarrow> u32 \<Rightarrow> (u32 \<times> u32 \<times> u8 list \<times> va_arg list) option" where
  "parse_width format va flags = do {
     c \<leftarrow> deref format;
     if is_digit c then do { (width, format) \<leftarrow> atoi format 0; Some (flags, width, format, va) }
     else if c = ascii CHR ''*'' then do {
       (w, va) \<leftarrow> va_word va;
       if sint w < 0
       then do { m \<leftarrow> c_sub 0 (sint w); Some (flags OR FLAGS_LEFT, word_of_int m, tl format, va) }
       else Some (flags, w, tl format, va)
     }
     else Some (flags, 0, format, va)
   }"

definition parse_precision ::
    "u8 list \<Rightarrow> va_arg list \<Rightarrow> u32 \<Rightarrow> (u32 \<times> u32 \<times> u8 list \<times> va_arg list) option" where
  "parse_precision format va flags = do {
     c \<leftarrow> deref format;
     if c = ascii CHR ''.'' then do {
       let flags = flags OR FLAGS_PRECISION;
       let format = tl format;
       c \<leftarrow> deref format;
       if is_digit c then do { (precision, format) \<leftarrow> atoi format 0; Some (flags, precision, format, va) }
       else if c = ascii CHR ''*'' then do {
         (prec, va) \<leftarrow> va_word va;
         Some (flags, if 0 < sint prec then prec else 0, tl format, va)
       }
       else Some (flags, 0, format, va)
     }
     else Some (flags, 0, format, va)
   }"

text \<open>On this target \<open>ptrdiff_t\<close> and \<open>size_t\<close> have the size of \<open>long\<close>, \<open>intmax_t\<close> has not.\<close>

definition parse_length :: "u8 list \<Rightarrow> u32 \<Rightarrow> (u32 \<times> u8 list) option" where
  "parse_length format flags = do {
     c \<leftarrow> deref format;
     if c = ascii CHR ''l'' then do {
       let flags = flags OR FLAGS_LONG;
       let format = tl format;
       c \<leftarrow> deref format;
       if c = ascii CHR ''l'' then Some (flags OR FLAGS_LONG_LONG, tl format) else Some (flags, format)
     }
     else if c = ascii CHR ''h'' then do {
       let flags = flags OR FLAGS_SHORT;
       let format = tl format;
       c \<leftarrow> deref format;
       if c = ascii CHR ''h'' then Some (flags OR FLAGS_CHAR, tl format) else Some (flags, format)
     }
     else if c = ascii CHR ''t'' then Some (flags OR FLAGS_LONG, tl format)
     else if c = ascii CHR ''j'' then Some (flags OR FLAGS_LONG_LONG, tl format)
     else if c = ascii CHR ''z'' then Some (flags OR FLAGS_LONG, tl format)
     else Some (flags, format)
   }"

record directive =
  d_flags :: u32
  d_width :: u32
  d_precision :: u32

definition parse_directive ::
    "u8 list \<Rightarrow> va_arg list \<Rightarrow> (directive \<times> u8 list \<times> va_arg list) option" where
  "parse_directive format va = do {
     (flags, format) \<leftarrow> parse_flags format 0;
     (flags, width, format, va) \<leftarrow> parse_width format va flags;
     (flags, precision, format, va) \<leftarrow> parse_precision format va flags;
     (flags, format) \<leftarrow> parse_length format flags;
     Some (\<lparr>d_flags = flags, d_width = width, d_precision = precision\<rparr>, format, va)
   }"

section \<open>Conversions\<close>

text \<open>The magnitude \<open>value > 0 ? value : 0 - value\<close>, undefined for the least value.\<close>

definition magnitude :: "'a::len word \<Rightarrow> 'a word option" where
  "magnitude w =
     (if 0 < sint w then Some w
      else if sint w = - (2 ^ (LENGTH('a) - 1)) then None else Some (- w))"

text \<open>The base and the flags of an integer conversion (lines 690-718).\<close>

definition int_base :: "u8 \<Rightarrow> u32" where
  "int_base c = (if c = ascii CHR ''x'' \<or> c = ascii CHR ''X'' then 16
                 else if c = ascii CHR ''o'' then 8 else if c = ascii CHR ''b'' then 2 else 10)"

definition int_flags :: "u8 \<Rightarrow> u32 \<Rightarrow> u32" where
  "int_flags c flags =
     (let flags = (if int_base c = 10 then flags AND NOT FLAGS_HASH else flags);
          flags = (if c = ascii CHR ''X'' then flags OR FLAGS_UPPERCASE else flags);
          flags = (if c \<noteq> ascii CHR ''i'' \<and> c \<noteq> ascii CHR ''d''
                   then flags AND NOT (FLAGS_PLUS OR FLAGS_SPACE) else flags)
      in if on flags FLAGS_PRECISION then flags AND NOT FLAGS_ZEROPAD else flags)"

definition conv_int ::
    "'s sink \<Rightarrow> u32 \<Rightarrow> u8 \<Rightarrow> directive \<Rightarrow> va_arg list \<Rightarrow> u32 \<times> 's \<Rightarrow> (va_arg list \<times> u32 \<times> 's) option" where
  "conv_int out maxlen c d va st = do {
     let base = int_base c;
     let flags = int_flags c (d_flags d);
     if c = ascii CHR ''i'' \<or> c = ascii CHR ''d''
     then if on flags FLAGS_LONG_LONG
       then do {
         (value, va) \<leftarrow> va_long va;
         m \<leftarrow> magnitude value;
         st \<leftarrow> ntoa_long_long out maxlen m (sint value < 0) (ucast base) (d_precision d) (d_width d) flags st;
         Some (va, st)
       }
       else do {
         (w, va) \<leftarrow> va_word va;
         let value = (if on flags FLAGS_LONG then w
                      else if on flags FLAGS_CHAR then ucast (ucast w :: u8)
                      else if on flags FLAGS_SHORT then scast (ucast w :: u16) else w);
         m \<leftarrow> magnitude value;
         st \<leftarrow> ntoa_long out maxlen m (sint value < 0) base (d_precision d) (d_width d) flags st;
         Some (va, st)
       }
     else if on flags FLAGS_LONG_LONG
       then do {
         (value, va) \<leftarrow> va_long va;
         st \<leftarrow> ntoa_long_long out maxlen value False (ucast base) (d_precision d) (d_width d) flags st;
         Some (va, st)
       }
       else do {
         (w, va) \<leftarrow> va_word va;
         let value = (if on flags FLAGS_LONG then w
                      else if on flags FLAGS_CHAR then ucast (ucast w :: u8)
                      else if on flags FLAGS_SHORT then ucast (ucast w :: u16) else w);
         st \<leftarrow> ntoa_long out maxlen value False base (d_precision d) (d_width d) flags st;
         Some (va, st)
       }
   }"

definition conv_char ::
    "'s sink \<Rightarrow> u32 \<Rightarrow> directive \<Rightarrow> va_arg list \<Rightarrow> u32 \<times> 's \<Rightarrow> (va_arg list \<times> u32 \<times> 's) option" where
  "conv_char out maxlen d va st = do {
     let left = on (d_flags d) FLAGS_LEFT;
     st \<leftarrow> (if \<not> left then spaces_from out maxlen 1 (d_width d) st else Some st);
     (w, va) \<leftarrow> va_word va;
     st \<leftarrow> put out maxlen (ucast w) st;
     st \<leftarrow> (if left then spaces_from out maxlen 1 (d_width d) st else Some st);
     Some (va, st)
   }"

text \<open>\<open>while ((*p != 0) && (!(flags & FLAGS_PRECISION) || precision--)) out(*(p++), ...);\<close>\<close>

fun str_loop :: "'s sink \<Rightarrow> u32 \<Rightarrow> bool \<Rightarrow> u8 list \<Rightarrow> u32 \<Rightarrow> u32 \<times> 's \<Rightarrow> (u32 \<times> 's) option" where
  "str_loop out maxlen limited [] precision st = None"
| "str_loop out maxlen limited (c # p) precision st =
     (if c \<noteq> 0 \<and> (\<not> limited \<or> precision \<noteq> 0)
      then do {
        st \<leftarrow> put out maxlen c st;
        str_loop out maxlen limited p (if limited then precision - 1 else precision) st
      }
      else Some st)"

definition conv_str ::
    "'s sink \<Rightarrow> u32 \<Rightarrow> directive \<Rightarrow> va_arg list \<Rightarrow> u32 \<times> 's \<Rightarrow> (va_arg list \<times> u32 \<times> 's) option" where
  "conv_str out maxlen d va st = do {
     let limited = on (d_flags d) FLAGS_PRECISION;
     let left = on (d_flags d) FLAGS_LEFT;
     (p, va) \<leftarrow> va_str va;
     l \<leftarrow> strnlen_s p (if d_precision d \<noteq> 0 then d_precision d else - 1);
     let l = (if limited then if l < d_precision d then l else d_precision d else l);
     st \<leftarrow> (if \<not> left then spaces_from out maxlen l (d_width d) st else Some st);
     st \<leftarrow> str_loop out maxlen limited p (d_precision d) st;
     st \<leftarrow> (if left then spaces_from out maxlen l (d_width d) st else Some st);
     Some (va, st)
   }"

text \<open>The \<open>switch\<close> on the conversion specifier \<open>c\<close>.\<close>

definition convert ::
    "nat \<Rightarrow> 's sink \<Rightarrow> u32 \<Rightarrow> u8 \<Rightarrow> directive \<Rightarrow> va_arg list \<Rightarrow> u32 \<times> 's \<Rightarrow> (va_arg list \<times> u32 \<times> 's) option" where
  "convert depth out maxlen c d va st =
     (if c \<in> set (map ascii ''diuxXob'') then conv_int out maxlen c d va st
      else if c = ascii CHR ''f'' \<or> c = ascii CHR ''F'' then do {
        let flags = (if c = ascii CHR ''F'' then d_flags d OR FLAGS_UPPERCASE else d_flags d);
        (value, va) \<leftarrow> va_double va;
        st \<leftarrow> fltoa depth False out maxlen value (d_precision d) (d_width d) flags st;
        Some (va, st)
      }
      else if c \<in> set (map ascii ''eEgG'') then do {
        let flags = (if c = ascii CHR ''g'' \<or> c = ascii CHR ''G'' then d_flags d OR FLAGS_ADAPT_EXP else d_flags d);
        let flags = (if c = ascii CHR ''E'' \<or> c = ascii CHR ''G'' then flags OR FLAGS_UPPERCASE else flags);
        (value, va) \<leftarrow> va_double va;
        st \<leftarrow> fltoa depth True out maxlen value (d_precision d) (d_width d) flags st;
        Some (va, st)
      }
      else if c = ascii CHR ''c'' then conv_char out maxlen d va st
      else if c = ascii CHR ''s'' then conv_str out maxlen d va st
      else if c = ascii CHR ''p'' then do {
        (w, va) \<leftarrow> va_word va;
        st \<leftarrow> ntoa_long out maxlen w False 16 (d_precision d) 8
               (d_flags d OR (FLAGS_ZEROPAD OR FLAGS_UPPERCASE)) st;
        Some (va, st)
      }
      else do { st \<leftarrow> put out maxlen c st; Some (va, st) })"

section \<open>The main loop\<close>

text \<open>Parsing never moves the format pointer backwards, so the loop ends.\<close>

lemma parse_flags_len: "parse_flags s f = Some (f', s') \<Longrightarrow> length s' \<le> length s"
  by (induction s f arbitrary: f' s' rule: parse_flags.induct) (auto split: if_splits intro: le_SucI)

lemma atoi_len: "atoi s i = Some (n, s') \<Longrightarrow> length s' \<le> length s"
  by (induction s i arbitrary: n s' rule: atoi.induct) (auto split: if_splits intro: le_SucI)

lemma parse_width_len: "parse_width s va f = Some (f', w, s', va') \<Longrightarrow> length s' \<le> length s"
  by (auto simp: parse_width_def bind_eq_Some_conv dest: atoi_len split: if_splits)

lemma parse_precision_len: "parse_precision s va f = Some (f', p, s', va') \<Longrightarrow> length s' \<le> length s"
  by (auto simp: parse_precision_def bind_eq_Some_conv Let_def dest!: atoi_len split: if_splits)

lemma parse_length_len: "parse_length s f = Some (f', s') \<Longrightarrow> length s' \<le> length s"
  by (auto simp: parse_length_def bind_eq_Some_conv Let_def split: if_splits)

lemma parse_directive_len:
  assumes "parse_directive s va = Some (d, s', va')"
  shows "length s' \<le> length s"
  using assms
  by (auto simp: parse_directive_def bind_eq_Some_conv
      dest!: parse_flags_len parse_width_len parse_precision_len parse_length_len)

function vsn_loop ::
    "nat \<Rightarrow> 's sink \<Rightarrow> u32 \<Rightarrow> u8 list \<Rightarrow> va_arg list \<Rightarrow> u32 \<times> 's \<Rightarrow> (u32 \<times> 's) option" where
  "vsn_loop depth out maxlen [] va st = None"
| "vsn_loop depth out maxlen (c # format) va st =
     (if c = 0 then Some st
      else if c \<noteq> ascii CHR ''%''
      then do { st \<leftarrow> put out maxlen c st; vsn_loop depth out maxlen format va st }
      else do {
        (d, format, va) \<leftarrow> parse_directive format va;
        c \<leftarrow> deref format;
        (va, st) \<leftarrow> convert depth out maxlen c d va st;
        vsn_loop depth out maxlen (tl format) va st
      })"
  by pat_completeness auto
termination
  by (relation "measure (\<lambda>(n, out, m, format, va, st). length format)")
    (auto dest: parse_directive_len)

declare vsn_loop.simps(2) [simp del]

text \<open>
  \<open>_vsnprintf\<close> with a non-null buffer, and the functions of the interface.  A null
  \<open>buffer\<close> selects \<open>_out_null\<close>.  The result is the number of characters, as an \<open>int\<close>.
\<close>

definition vsnprintf ::
    "nat \<Rightarrow> 's sink \<Rightarrow> u32 \<Rightarrow> u8 list \<Rightarrow> va_arg list \<Rightarrow> 's \<Rightarrow> (int \<times> 's) option" where
  "vsnprintf depth out maxlen format va s = do {
     (idx, s) \<leftarrow> vsn_loop depth out maxlen format va (0, s);
     s \<leftarrow> out 0 (if idx < maxlen then idx else maxlen - 1) maxlen s;
     Some (sint idx, s)
   }"

definition tiny_printf ::
    "nat \<Rightarrow> (u8 \<Rightarrow> 's \<Rightarrow> 's option) \<Rightarrow> u8 list \<Rightarrow> va_arg list \<Rightarrow> 's \<Rightarrow> (int \<times> 's) option" where
  "tiny_printf depth putchar format va s = vsnprintf depth (out_char putchar) (- 1) format va s"

definition tiny_vprintf ::
    "nat \<Rightarrow> (u8 \<Rightarrow> 's \<Rightarrow> 's option) \<Rightarrow> u8 list \<Rightarrow> va_arg list \<Rightarrow> 's \<Rightarrow> (int \<times> 's) option" where
  "tiny_vprintf depth putchar format va s = vsnprintf depth (out_char putchar) (- 1) format va s"

definition tiny_vsnprintf ::
    "nat \<Rightarrow> u8 list option \<Rightarrow> u32 \<Rightarrow> u8 list \<Rightarrow> va_arg list \<Rightarrow> (int \<times> u8 list option) option" where
  "tiny_vsnprintf depth buffer maxlen format va =
     (case buffer of
        None \<Rightarrow> map_option (\<lambda>(n, s). (n, None)) (vsnprintf depth out_null maxlen format va ())
      | Some b \<Rightarrow> map_option (\<lambda>(n, b). (n, Some b)) (vsnprintf depth out_buffer maxlen format va b))"

definition tiny_snprintf ::
    "nat \<Rightarrow> u8 list option \<Rightarrow> u32 \<Rightarrow> u8 list \<Rightarrow> va_arg list \<Rightarrow> (int \<times> u8 list option) option" where
  "tiny_snprintf depth buffer cnt format va = tiny_vsnprintf depth buffer cnt format va"

definition tiny_sprintf ::
    "nat \<Rightarrow> u8 list option \<Rightarrow> u8 list \<Rightarrow> va_arg list \<Rightarrow> (int \<times> u8 list option) option" where
  "tiny_sprintf depth buffer format va = tiny_vsnprintf depth buffer (- 1) format va"

end
