(* ===== verification/Printf_Emit.thy ===== *)
theory Printf_Emit
  imports Printf
begin

text \<open>
  What \<open>_vsnprintf\<close> prints, apart from where it prints it: the characters of a format are
  a function of the format and the arguments alone, and every output function of the code
  receives exactly these, one after the other, at consecutive indices.  This is the abstract
  specification that the buffer and console variants refine.
\<close>

section \<open>Emission\<close>

fun emit :: "'s sink \<Rightarrow> u32 \<Rightarrow> u8 list \<Rightarrow> u32 \<times> 's \<Rightarrow> (u32 \<times> 's) option" where
  "emit out maxlen [] st = Some st"
| "emit out maxlen (c # cs) st = do { st \<leftarrow> put out maxlen c st; emit out maxlen cs st }"

lemma emit_append: "emit out m (xs @ ys) st = do { st \<leftarrow> emit out m xs st; emit out m ys st }"
  by (induction xs arbitrary: st) (auto split: bind_splits)

lemma emit_idx: "emit out m cs st = Some st' \<Longrightarrow> fst st' = fst st + of_nat (length cs)"
  by (induction cs arbitrary: st) (auto simp: put_def bind_eq_Some_conv algebra_simps)

text \<open>An operation that emits the characters \<open>r\<close>, if they are defined.\<close>

definition emits :: "u8 list option \<Rightarrow> 's sink \<Rightarrow> u32 \<Rightarrow> (u32 \<times> 's \<Rightarrow> (u32 \<times> 's) option) \<Rightarrow> bool" where
  "emits r out m f \<longleftrightarrow> (\<forall>st. f st = do { cs \<leftarrow> r; emit out m cs st })"

named_theorems emits \<open>what the operations emit\<close>

lemma emitsD: "emits r out m f \<Longrightarrow> f st = do { cs \<leftarrow> r; emit out m cs st }"
  unfolding emits_def by blast

lemma emit_Nil_fun [simp]: "emit out m [] = Some"
  by (rule ext) simp

lemma emits_skip [emits]: "emits (Some []) out m Some"
  by (simp add: emits_def)

lemma emits_fail [emits]: "emits None out m (\<lambda>st. None)"
  by (simp add: emits_def)

lemma emits_put [emits]: "emits (Some [c]) out m (put out m c)"
  by (simp add: emits_def)

lemma emits_seq [emits]:
  "emits r out m f \<Longrightarrow> emits q out m g
    \<Longrightarrow> emits (do { a \<leftarrow> r; b \<leftarrow> q; Some (a @ b) }) out m (\<lambda>st. do { st \<leftarrow> f st; g st })"
  by (cases r; cases q) (auto simp: emits_def emit_append split: bind_splits)

lemma emits_if [emits]:
  "(b \<Longrightarrow> emits r out m f) \<Longrightarrow> (\<not> b \<Longrightarrow> emits q out m g)
    \<Longrightarrow> emits (if b then r else q) out m (\<lambda>st. if b then f st else g st)"
  by simp

lemma emits_pure:
  "(\<And>x. p = Some x \<Longrightarrow> emits (r x) out m (f x)) \<Longrightarrow> emits (do { x \<leftarrow> p; r x }) out m (\<lambda>st. do { x \<leftarrow> p; f x st })"
  by (cases p) (auto simp: emits_def)

section \<open>Padding and reversal\<close>

definition blanks :: "nat \<Rightarrow> u32 \<Rightarrow> u8 list" where
  "blanks len width = replicate (unat width - len) (ascii CHR '' '')"

lemma spaces_from_emits [emits]: "emits (Some (blanks (unat i) width)) out m (spaces_from out m i width)"
  unfolding emits_def
proof
  fix st show "spaces_from out m i width st = do { cs \<leftarrow> Some (blanks (unat i) width); emit out m cs st }"
  proof (induction out m i width st rule: spaces_from.induct)
    case (1 out m i width st)
    show ?case
    proof (cases "i < width")
      case True
      then have "blanks (unat i) width = ascii CHR '' '' # blanks (unat (i + 1)) width"
        by (simp add: blanks_def unat_less_inc word_less_nat_alt Suc_diff_Suc flip: replicate_Suc)
      then show ?thesis using True 1
        by (subst spaces_from.simps) (auto split: bind_splits)
    next
      case False
      then show ?thesis
        by (subst spaces_from.simps) (simp add: blanks_def word_less_nat_alt)
    qed
  qed
qed

lemma spaces_until_emits:
  "spaces_until out m start width st = emit out m (blanks (unat (fst st - start)) width) st"
proof (induction out m start width st rule: spaces_until.induct)
  case (1 out m start width idx s)
  show ?case
  proof (cases "idx - start < width")
    case True
    have "blanks (unat (idx - start)) width = ascii CHR '' '' # blanks (unat (idx + 1 - start)) width"
      using True unat_less_inc [OF True]
      by (simp add: blanks_def word_less_nat_alt Suc_diff_Suc diff_add_eq flip: replicate_Suc)
    then show ?thesis using True 1
      by (simp add: spaces_until.simps [of out m start width idx s] put_def split: bind_splits)
  next
    case False
    then show ?thesis
      by (simp add: spaces_until.simps [of out m start width idx s] blanks_def word_less_nat_alt)
  qed
qed

lemma rev_loop_emits: "len \<le> length buf \<Longrightarrow> emits (Some (rev (take len buf))) out m (rev_loop out m buf len)"
proof (induction len)
  case (Suc len)
  then show ?case by (auto simp: emits_def take_Suc_conv_app_nth split: bind_splits)
qed (simp add: emits_def)

definition rev_chars :: "u8 list \<Rightarrow> u32 \<Rightarrow> u32 \<Rightarrow> u8 list" where
  "rev_chars buf width flags =
     (if \<not> on flags FLAGS_LEFT \<and> \<not> on flags FLAGS_ZEROPAD then blanks (length buf) width else [])
     @ rev buf @ (if on flags FLAGS_LEFT then blanks (length buf) width else [])"

lemma out_rev_emits:
  assumes "length buf < 2 ^ 32" "len = length buf"
  shows "emits (Some (rev_chars buf width flags)) out m (out_rev out m buf len width flags)"
  unfolding emits_def
proof
  fix st
  have u: "unat (of_nat (length buf) :: u32) = length buf"
    using assms by (simp add: unat_of_nat)
  show "out_rev out m buf len width flags st = do { cs \<leftarrow> Some (rev_chars buf width flags); emit out m cs st }"
    unfolding assms(2)
    by (auto simp: out_rev_def rev_chars_def emitsD [OF spaces_from_emits] emitsD [OF rev_loop_emits]
        spaces_until_emits u emit_append emit_idx split: bind_splits)
qed

section \<open>The internal buffers\<close>

text \<open>
  Neither \<open>buf[PRINTF_NTOA_BUFFER_SIZE]\<close> nor \<open>buf[PRINTF_FTOA_BUFFER_SIZE]\<close> is ever
  written outside its 32 bytes.
\<close>

lemma push_in: "length buf < BUFFER_SIZE \<Longrightarrow> push c buf = Some (buf @ [c])"
  by (simp add: push_def)

lemma zero_fill_eq:
  "zero_fill bound buf = buf @ replicate (min bound BUFFER_SIZE - length buf) (ascii CHR ''0'')"
proof (induction bound buf rule: zero_fill.induct)
  case (1 bound buf)
  show ?case
  proof (cases "length buf < bound \<and> length buf < BUFFER_SIZE")
    case True
    then show ?thesis using 1
      by (subst zero_fill.simps) (simp add: Suc_diff_Suc flip: replicate_Suc)
  qed (subst zero_fill.simps, auto)
qed

lemma zero_fill_len: "length (zero_fill bound buf) = max (length buf) (min bound BUFFER_SIZE)"
  by (simp add: zero_fill_eq)

lemma ntoa_digits_total:
  assumes "length buf < BUFFER_SIZE"
  shows "\<exists>b. ntoa_digits base value upper buf = Some b \<and> length b \<le> BUFFER_SIZE"
  using assms
proof (induction base "value" upper buf rule: ntoa_digits.induct)
  case (1 base "value" upper buf)
  then show ?case by (subst (1) ntoa_digits.simps) (auto simp: Let_def)
qed

lemma ntoa_buf_total: "\<exists>b. ntoa_buf base value flags = Some b \<and> length b \<le> BUFFER_SIZE"
  using ntoa_digits_total [of "[]"] by (auto simp: ntoa_buf_def BUFFER_SIZE_def)

lemma ntoa_pad_len:
  "length buf \<le> BUFFER_SIZE \<Longrightarrow> length (fst (ntoa_pad buf negative prec width flags)) \<le> BUFFER_SIZE"
  by (simp add: ntoa_pad_def Let_def zero_fill_len)

lemma hash_cut_len: "length (hash_cut buf base prec width flags) \<le> length buf"
  by (simp add: hash_cut_def Let_def)

lemma ntoa_hash_total:
  assumes "length buf \<le> BUFFER_SIZE"
  shows "\<exists>b. ntoa_hash buf base prec width flags = Some b \<and> length b \<le> BUFFER_SIZE"
  using assms hash_cut_len [of buf base prec width flags]
  by (auto simp: ntoa_hash_def Let_def push_def)

lemma ntoa_sign_total:
  "length buf \<le> BUFFER_SIZE \<Longrightarrow> \<exists>b. ntoa_sign buf negative flags = Some b \<and> length b \<le> BUFFER_SIZE"
  by (auto simp: ntoa_sign_def push_def)

lemma ntoa_format_buf_total:
  assumes "length buf \<le> BUFFER_SIZE"
  shows "\<exists>b w. ntoa_format_buf buf negative base prec width flags = Some (b, w) \<and> length b \<le> BUFFER_SIZE"
proof -
  obtain b w where p: "ntoa_pad buf negative prec width flags = (b, w)" by fastforce
  then have "length b \<le> BUFFER_SIZE" using ntoa_pad_len [OF assms] by (metis fst_conv)
  then obtain b1 where b1: "ntoa_hash b base prec w flags = Some b1" "length b1 \<le> BUFFER_SIZE"
    using ntoa_hash_total by blast
  then obtain b2 where "ntoa_sign b1 negative flags = Some b2" "length b2 \<le> BUFFER_SIZE"
    using ntoa_sign_total by blast
  then show ?thesis using p b1 by (simp add: ntoa_format_buf_def)
qed

lemma limit_prec_len:
  "length buf \<le> BUFFER_SIZE \<Longrightarrow> length (snd (limit_prec prec buf)) \<le> BUFFER_SIZE"
proof (induction prec buf rule: limit_prec.induct)
  case (1 prec buf)
  then show ?case by (subst limit_prec.simps) auto
qed

lemma frac_digits_len:
  "length buf \<le> BUFFER_SIZE \<Longrightarrow> length (snd (frac_digits f c buf)) \<le> BUFFER_SIZE"
proof (induction f c buf rule: frac_digits.induct)
  case (1 f c buf)
  then show ?case by (subst frac_digits.simps) (auto simp: Let_def)
qed

lemma extra_zeros_len: "length buf \<le> BUFFER_SIZE \<Longrightarrow> length (extra_zeros c buf) \<le> BUFFER_SIZE"
proof (induction c buf rule: extra_zeros.induct)
  case (1 c buf)
  then show ?case by (subst extra_zeros.simps) auto
qed

lemma whole_digits_len: "length buf \<le> BUFFER_SIZE \<Longrightarrow> length (whole_digits w buf) \<le> BUFFER_SIZE"
proof (induction w buf rule: whole_digits.induct)
  case (1 w buf)
  then show ?case by (subst whole_digits.simps) (auto simp: Let_def)
qed

lemma ftoa_digits_len:
  assumes "length buf \<le> BUFFER_SIZE" "ftoa_digits value prec frc whole buf = Some b"
  shows "length b \<le> BUFFER_SIZE"
proof -
  obtain cnt b1 where fd: "frac_digits frc prec buf = (cnt, b1)" by fastforce
  then have "length b1 \<le> BUFFER_SIZE" using frac_digits_len [OF assms(1), of frc prec] by simp
  then show ?thesis
    using assms fd extra_zeros_len [of b1 cnt]
    by (auto simp: ftoa_digits_def Let_def bind_eq_Some_conv intro!: whole_digits_len split: if_splits)
qed

lemma ftoa_finish_len:
  "length buf \<le> BUFFER_SIZE \<Longrightarrow> length (fst (ftoa_finish buf negative width flags)) \<le> BUFFER_SIZE"
  by (auto simp: ftoa_finish_def Let_def zero_fill_len)

lemma ftoa_buf_len:
  assumes "ftoa_buf value prec width flags = Some (b, w)"
  shows "length b \<le> BUFFER_SIZE"
proof -
  have "length (snd (limit_prec p [])) \<le> BUFFER_SIZE" for p
    by (rule limit_prec_len) simp
  with assms show ?thesis
    by (auto simp: ftoa_buf_def Let_def bind_eq_Some_conv split: prod.splits
        dest!: ftoa_digits_len [rotated]) (metis fst_conv ftoa_finish_len snd_conv)+
qed

section \<open>The characters of the conversions\<close>

definition ntoa_format_chars :: "u8 list \<Rightarrow> bool \<Rightarrow> u32 \<Rightarrow> u32 \<Rightarrow> u32 \<Rightarrow> u32 \<Rightarrow> u8 list option" where
  "ntoa_format_chars buf negative base prec width flags = do {
     (buf, width) \<leftarrow> ntoa_format_buf buf negative base prec width flags;
     Some (rev_chars buf width flags)
   }"

definition ntoa_chars :: "'a::len word \<Rightarrow> bool \<Rightarrow> 'a word \<Rightarrow> u32 \<Rightarrow> u32 \<Rightarrow> u32 \<Rightarrow> u8 list option" where
  "ntoa_chars value negative base prec width flags = do {
     let flags = (if value = 0 then flags AND NOT FLAGS_HASH else flags);
     buf \<leftarrow> ntoa_buf base value flags;
     ntoa_format_chars buf negative (ucast base) prec width flags
   }"

lemma ntoa_format_emits:
  assumes "length buf \<le> BUFFER_SIZE"
  shows "emits (ntoa_format_chars buf negative base prec width flags) out m
           (ntoa_format out m buf negative base prec width flags)"
proof -
  obtain b w where *: "ntoa_format_buf buf negative base prec width flags = Some (b, w)" "length b \<le> BUFFER_SIZE"
    using ntoa_format_buf_total [OF assms] by blast
  then have "length b < 2 ^ 32" by (simp add: BUFFER_SIZE_def)
  with * out_rev_emits [of b "length b"] show ?thesis
    by (simp add: emits_def ntoa_format_chars_def ntoa_format_def)
qed

lemma ntoa_long_emits [emits]:
  "emits (ntoa_chars value negative base prec width flags) out m
     (ntoa_long out m value negative base prec width flags)"
proof -
  let ?f = "if value = 0 then flags AND NOT FLAGS_HASH else flags"
  obtain b where b: "ntoa_buf base value ?f = Some b" "length b \<le> BUFFER_SIZE"
    using ntoa_buf_total by blast
  show ?thesis
    by (simp add: emits_def ntoa_chars_def ntoa_long_def b(1) Let_def emitsD [OF ntoa_format_emits [OF b(2)]])
qed

lemma ntoa_long_long_emits [emits]:
  "emits (ntoa_chars value negative base prec width flags) out m
     (ntoa_long_long out m value negative base prec width flags)"
proof -
  let ?f = "if value = 0 then flags AND NOT FLAGS_HASH else flags"
  obtain b where b: "ntoa_buf base value ?f = Some b" "length b \<le> BUFFER_SIZE"
    using ntoa_buf_total by blast
  show ?thesis
    by (simp add: emits_def ntoa_chars_def ntoa_long_long_def b(1) Let_def emitsD [OF ntoa_format_emits [OF b(2)]])
qed

lemma out_rev_eq:
  "length buf < 2 ^ 32 \<Longrightarrow> len = length buf
    \<Longrightarrow> out_rev out m buf len width flags st = emit out m (rev_chars buf width flags) st"
  using emitsD [OF out_rev_emits] by simp

fun fltoa_chars :: "nat \<Rightarrow> bool \<Rightarrow> fnum \<Rightarrow> u32 \<Rightarrow> u32 \<Rightarrow> u32 \<Rightarrow> u8 list option" where
  "fltoa_chars 0 e value prec width flags = None"
| "fltoa_chars (Suc d) False value prec width flags =
     (if \<not> feq value value then Some (rev_chars (map ascii ''nan'') width flags)
      else if flt value (fneg DBL_MAX) then Some (rev_chars (map ascii ''fni-'') width flags)
      else if flt DBL_MAX value
      then Some (rev_chars (if on flags FLAGS_PLUS then map ascii ''fni+'' else map ascii ''fni'') width flags)
      else if flt PRINTF_MAX_FLOAT value \<or> flt value (fneg PRINTF_MAX_FLOAT)
      then fltoa_chars d True value prec width flags
      else do { (buf, width) \<leftarrow> ftoa_buf value prec width flags; Some (rev_chars buf width flags) })"
| "fltoa_chars (Suc d) True value prec width flags =
     (if \<not> feq value value \<or> flt DBL_MAX value \<or> flt value (fneg DBL_MAX)
      then fltoa_chars d False value prec width flags
      else do {
        p \<leftarrow> etoa_prepare value prec width flags;
        cs \<leftarrow> fltoa_chars d False (e_value p) (e_prec p) (e_fwidth p) (e_flags p AND NOT FLAGS_ADAPT_EXP);
        if e_minwidth p \<noteq> 0
        then do {
          e \<leftarrow> ntoa_chars (word_of_int \<bar>e_expval p\<bar>) (e_expval p < 0) (10 :: u32) 0 (e_minwidth p - 1)
                 (FLAGS_ZEROPAD OR FLAGS_PLUS);
          let cs = cs @ (if on (e_flags p) FLAGS_UPPERCASE then ascii CHR ''E'' else ascii CHR ''e'') # e;
          Some (cs @ (if on (e_flags p) FLAGS_LEFT then blanks (unat (of_nat (length cs) :: u32)) width else []))
        } else Some cs
      })"

lemma fltoa_emits [emits]:
  "emits (fltoa_chars d e value prec width flags) out m (fltoa d e out m value prec width flags)"
proof (induction d arbitrary: e "value" prec width flags)
  case (Suc d)
  note IH = emitsD [OF Suc]
  show ?case
  proof (cases e)
    case False
    have len: "length b < 2 ^ 32" if "ftoa_buf value prec width flags = Some (b, w)" for b w
      using ftoa_buf_len [OF that] by (simp add: BUFFER_SIZE_def)
    show ?thesis
      unfolding emits_def
    proof
      fix st
      show "fltoa (Suc d) e out m value prec width flags st
        = do { cs \<leftarrow> fltoa_chars (Suc d) e value prec width flags; emit out m cs st }"
        using False len
        by (cases "ftoa_buf value prec width flags") (auto simp: IH out_rev_eq)
    qed
  next
    case True
    then have e: "e = True" by simp
    show ?thesis
      unfolding emits_def e
    proof
      fix st
      show "fltoa (Suc d) True out m value prec width flags st
        = do { cs \<leftarrow> fltoa_chars (Suc d) True value prec width flags; emit out m cs st }"
        by (auto simp: IH emitsD [OF ntoa_long_emits] spaces_until_emits emit_append emit_idx put_def
            add.left_commute split: bind_splits dest!: emit_idx)
    qed
  qed
qed (simp add: emits_def)

section \<open>The characters of a format\<close>

definition int_chars :: "u8 \<Rightarrow> directive \<Rightarrow> va_arg list \<Rightarrow> (va_arg list \<times> u8 list) option" where
  "int_chars c d va = do {
     let base = int_base c;
     let flags = int_flags c (d_flags d);
     let is_sgd = (c = ascii CHR ''i'' \<or> c = ascii CHR ''d'');
     if on flags FLAGS_LONG_LONG
     then do {
       (w, va) \<leftarrow> va_long va;
       v \<leftarrow> (if is_sgd then magnitude w else Some w);
       cs \<leftarrow> ntoa_chars v (is_sgd \<and> sint w < 0) (ucast base) (d_precision d) (d_width d) flags;
       Some (va, cs)
     }
     else do {
       (w, va) \<leftarrow> va_word va;
       let w = (if on flags FLAGS_LONG then w
                else if on flags FLAGS_CHAR then ucast (ucast w :: u8)
                else if on flags FLAGS_SHORT
                then if is_sgd then scast (ucast w :: u16) else ucast (ucast w :: u16) else w);
       v \<leftarrow> (if is_sgd then magnitude w else Some w);
       cs \<leftarrow> ntoa_chars v (is_sgd \<and> sint w < 0) base (d_precision d) (d_width d) flags;
       Some (va, cs)
     }
   }"

definition padded :: "bool \<Rightarrow> u32 \<Rightarrow> u32 \<Rightarrow> u8 list \<Rightarrow> u8 list" where
  "padded left l width cs =
     (if left then cs @ blanks (unat l) width else blanks (unat l) width @ cs)"

fun str_chars :: "bool \<Rightarrow> u8 list \<Rightarrow> u32 \<Rightarrow> u8 list option" where
  "str_chars limited [] precision = None"
| "str_chars limited (c # p) precision =
     (if c \<noteq> 0 \<and> (\<not> limited \<or> precision \<noteq> 0)
      then map_option ((#) c) (str_chars limited p (if limited then precision - 1 else precision))
      else Some [])"

definition conv_chars ::
    "nat \<Rightarrow> u8 \<Rightarrow> directive \<Rightarrow> va_arg list \<Rightarrow> (va_arg list \<times> u8 list) option" where
  "conv_chars depth c d va =
     (if c \<in> set (map ascii ''diuxXob'') then int_chars c d va
      else if c = ascii CHR ''f'' \<or> c = ascii CHR ''F'' then do {
        (x, va) \<leftarrow> va_double va;
        cs \<leftarrow> fltoa_chars depth False x (d_precision d) (d_width d)
                (if c = ascii CHR ''F'' then d_flags d OR FLAGS_UPPERCASE else d_flags d);
        Some (va, cs)
      }
      else if c \<in> set (map ascii ''eEgG'') then do {
        let flags = (if c = ascii CHR ''g'' \<or> c = ascii CHR ''G'' then d_flags d OR FLAGS_ADAPT_EXP else d_flags d);
        let flags = (if c = ascii CHR ''E'' \<or> c = ascii CHR ''G'' then flags OR FLAGS_UPPERCASE else flags);
        (x, va) \<leftarrow> va_double va;
        cs \<leftarrow> fltoa_chars depth True x (d_precision d) (d_width d) flags;
        Some (va, cs)
      }
      else if c = ascii CHR ''c'' then do {
        (w, va) \<leftarrow> va_word va;
        Some (va, padded (on (d_flags d) FLAGS_LEFT) 1 (d_width d) [ucast w])
      }
      else if c = ascii CHR ''s'' then do {
        let limited = on (d_flags d) FLAGS_PRECISION;
        (p, va) \<leftarrow> va_str va;
        l \<leftarrow> strnlen_s p (if d_precision d \<noteq> 0 then d_precision d else - 1);
        cs \<leftarrow> str_chars limited p (d_precision d);
        Some (va, padded (on (d_flags d) FLAGS_LEFT) (if limited then min l (d_precision d) else l) (d_width d) cs)
      }
      else if c = ascii CHR ''p'' then do {
        (w, va) \<leftarrow> va_word va;
        cs \<leftarrow> ntoa_chars w False 16 (d_precision d) 8 (d_flags d OR (FLAGS_ZEROPAD OR FLAGS_UPPERCASE));
        Some (va, cs)
      }
      else Some (va, [c]))"

function format_chars :: "nat \<Rightarrow> u8 list \<Rightarrow> va_arg list \<Rightarrow> u8 list option" where
  "format_chars depth [] va = None"
| "format_chars depth (c # format) va =
     (if c = 0 then Some []
      else if c \<noteq> ascii CHR ''%'' then map_option ((#) c) (format_chars depth format va)
      else do {
        (d, format, va) \<leftarrow> parse_directive format va;
        c \<leftarrow> deref format;
        (va, cs) \<leftarrow> conv_chars depth c d va;
        rest \<leftarrow> format_chars depth (tl format) va;
        Some (cs @ rest)
      })"
  by pat_completeness auto
termination
  by (relation "measure (\<lambda>(n, format, va). length format)") (auto dest: parse_directive_len)

declare format_chars.simps(2) [simp del]

section \<open>Every sink receives the characters of the format\<close>

lemma conv_int_emits:
  "conv_int out m c d va st = do { (va, cs) \<leftarrow> int_chars c d va; st \<leftarrow> emit out m cs st; Some (va, st) }"
proof -
  have u: "ucast (ucast (int_base c) :: u64) = int_base c" by (auto simp: int_base_def)
  show ?thesis
    by (auto simp: conv_int_def int_chars_def Let_def emitsD [OF ntoa_long_emits]
        emitsD [OF ntoa_long_long_emits] u split: bind_splits)
qed

lemma str_loop_emits:
  "str_loop out m limited p precision st = do { cs \<leftarrow> str_chars limited p precision; emit out m cs st }"
  by (induction limited p precision arbitrary: st rule: str_chars.induct) (auto split: bind_splits)

lemmas spaces_eq = emitsD [OF spaces_from_emits]

lemma min_if: "(if l < p then l else p) = min l p" for l p :: u32
  by (auto simp: min_def)

lemma conv_str_emits:
  "conv_str out m d va st = do {
      (p, va) \<leftarrow> va_str va;
      l \<leftarrow> strnlen_s p (if d_precision d \<noteq> 0 then d_precision d else - 1);
      cs \<leftarrow> str_chars (on (d_flags d) FLAGS_PRECISION) p (d_precision d);
      st \<leftarrow> emit out m (padded (on (d_flags d) FLAGS_LEFT)
              (if on (d_flags d) FLAGS_PRECISION then min l (d_precision d) else l) (d_width d) cs) st;
      Some (va, st) }"
proof (cases "va_str va")
  case (Some pv)
  obtain p va' where pv: "pv = (p, va')" by fastforce
  note [simp] = conv_str_def Let_def spaces_eq str_loop_emits padded_def emit_append Some pv min_if
  let ?m = "if d_precision d \<noteq> 0 then d_precision d else - 1"
  let ?limited = "on (d_flags d) FLAGS_PRECISION"
  show ?thesis
    by (cases "strnlen_s p ?m"; cases "str_chars ?limited p (d_precision d)";
        cases ?limited; cases "on (d_flags d) FLAGS_LEFT"; simp split: bind_splits)
qed (simp add: conv_str_def)

lemma bind_if:
  "f = Option.bind r k \<Longrightarrow> g = Option.bind q k \<Longrightarrow> (if b then f else g) = Option.bind (if b then r else q) k"
  by simp

lemma convert_emits:
  "convert depth out m c d va st = do { (va, cs) \<leftarrow> conv_chars depth c d va; st \<leftarrow> emit out m cs st; Some (va, st) }"
proof -
  have char: "conv_char out m d va st = do { (w, va) \<leftarrow> va_word va;
      st \<leftarrow> emit out m (padded (on (d_flags d) FLAGS_LEFT) 1 (d_width d) [ucast w]) st; Some (va, st) }"
    by (auto simp: conv_char_def Let_def spaces_eq padded_def emit_append split: bind_splits)
  show ?thesis
    unfolding convert_def conv_chars_def char conv_str_emits conv_int_emits
    by (intro bind_if; simp only: Let_def emitsD [OF fltoa_emits] emitsD [OF ntoa_long_emits]
        case_prod_unfold Option.bind_assoc Option.bind.bind_lunit emit.simps prod.sel if_cancel)
qed

lemma vsn_loop_emits:
  "vsn_loop depth out m format va st = do { cs \<leftarrow> format_chars depth format va; emit out m cs st }"
proof (induction depth format va arbitrary: st rule: format_chars.induct)
  case (2 depth c format va)
  then show ?case
    by (auto simp: vsn_loop.simps(2) format_chars.simps(2) convert_emits emit_append split: bind_splits)
qed simp

end
