(* ===== verification/Printf_Props.thy ===== *)
theory Printf_Props
  imports Printf_Emit
begin

text \<open>
  What the interface functions of \<^verbatim>\<open>tinyprintf.c\<close> guarantee: the buffer variants
  write the characters of the format, cut to the buffer and terminated, and nothing else;
  the number they return does not depend on the buffer; the decimal conversion and
  \<open>_atoi\<close> are inverse to each other; the internal buffers never overflow.
\<close>

section \<open>Sinks\<close>

text \<open>
  The contract between \<open>_vsnprintf\<close> and an output function: in the states \<open>ok\<close>, a call is
  defined and leads to such a state again.
\<close>

locale sink =
  fixes out :: "'s sink" and maxlen :: u32 and ok :: "'s \<Rightarrow> bool"
  assumes out_ok: "ok s \<Longrightarrow> \<exists>s'. out c i maxlen s = Some s' \<and> ok s'"
begin

lemma emit_ok: "ok (snd st) \<Longrightarrow> \<exists>s'. emit out maxlen cs st = Some (fst st + of_nat (length cs), s') \<and> ok s'"
proof (induction cs arbitrary: st)
  case (Cons c cs)
  obtain s where s: "out c (fst st) maxlen (snd st) = Some s" "ok s"
    using out_ok Cons.prems by blast
  then show ?case
    using Cons.IH [of "(fst st + 1, s)"] by (simp add: put_def algebra_simps)
next
  case Nil
  then show ?case by (cases st) simp
qed

lemma vsnprintf_ok:
  assumes "format_chars depth format va = Some cs" "ok s"
  shows "\<exists>s'. vsnprintf depth out maxlen format va s = Some (sint (of_nat (length cs) :: u32), s') \<and> ok s'"
proof -
  obtain s1 where s1: "emit out maxlen cs (0, s) = Some (of_nat (length cs), s1)" "ok s1"
    using emit_ok [of "(0, s)" cs] assms(2) by auto
  let ?idx = "if of_nat (length cs) < maxlen then of_nat (length cs) else maxlen - 1 :: u32"
  obtain s2 where "out 0 ?idx maxlen s1 = Some s2" "ok s2"
    using out_ok [OF s1(2)] by blast
  then show ?thesis
    by (simp add: vsnprintf_def vsn_loop_emits assms(1) s1(1))
qed

end

interpretation null_sink: sink out_null maxlen "\<lambda>_. True" for maxlen
  by unfold_locales (simp add: out_null_def)

interpretation buffer_sink: sink out_buffer maxlen "\<lambda>buf. unat maxlen \<le> length buf" for maxlen
  by unfold_locales (auto simp: out_buffer_def word_less_nat_alt)

text \<open>The console, as the list of the characters that \<open>vx_putchar\<close> has received.\<close>

definition console :: "u8 \<Rightarrow> u8 list \<Rightarrow> u8 list option" where
  "console c s = Some (s @ [c])"

interpretation console_sink: sink "out_char console" maxlen "\<lambda>_. True" for maxlen
  by unfold_locales (simp add: out_char_def console_def)

interpretation wrap_sink: sink "out_fct console" maxlen "\<lambda>_. True" for maxlen
  by unfold_locales (simp add: out_fct_def console_def)

lemma int_of_count: "n < 2 ^ 31 \<Longrightarrow> sint (of_nat n :: u32) = int n"
proof -
  assume n: "n < 2 ^ 31"
  then have "signed_take_bit 31 (int n) = int n"
    by (intro signed_take_bit_int_eq_self) auto
  then show ?thesis by (simp add: signed_of_nat)
qed

section \<open>Writing into a buffer\<close>

lemma emit_buffer:
  assumes "unat m \<le> length buf" "i + length cs < 2 ^ 32"
  shows "emit out_buffer m cs (of_nat i, buf) = Some (of_nat (i + length cs),
    map (\<lambda>j. if i \<le> j \<and> j < i + length cs \<and> j < unat m then cs ! (j - i) else buf ! j) [0..<length buf])"
  using assms
proof (induction cs arbitrary: i buf)
  case Nil
  have "buf = map (\<lambda>j. if i \<le> j \<and> j < i + length [] \<and> j < unat m then [] ! (j - i) else buf ! j) [0..<length buf]"
    by (rule nth_equalityI) auto
  then show ?case by simp
next
  case (Cons c cs)
  have u: "unat (of_nat i :: u32) = i" using Cons.prems by (simp add: unat_of_nat)
  define b where "b = (if i < unat m then buf[i := c] else buf)"
  have put: "put out_buffer m c (of_nat i, buf) = Some (of_nat (Suc i), b)"
    using Cons.prems u by (auto simp: put_def out_buffer_def b_def word_less_nat_alt add.commute)
  have len: "length b = length buf" by (simp add: b_def)
  have IH: "emit out_buffer m cs (of_nat (Suc i), b) = Some (of_nat (Suc i + length cs),
      map (\<lambda>j. if Suc i \<le> j \<and> j < Suc i + length cs \<and> j < unat m then cs ! (j - Suc i) else b ! j) [0..<length b])"
    using Cons.prems len by (intro Cons.IH) auto
  have "map (\<lambda>j. if Suc i \<le> j \<and> j < Suc i + length cs \<and> j < unat m then cs ! (j - Suc i) else b ! j) [0..<length b]
      = map (\<lambda>j. if i \<le> j \<and> j < i + length (c # cs) \<and> j < unat m then (c # cs) ! (j - i) else buf ! j) [0..<length buf]"
    unfolding len by (rule map_cong) (auto simp: b_def nth_list_update nth_Cons')
  with IH show ?case by (simp add: put)
qed

text \<open>The buffer after a call with size \<open>maxlen\<close>: the characters that fit, the terminator, the old rest.\<close>

definition filled :: "u8 list \<Rightarrow> nat \<Rightarrow> u8 list \<Rightarrow> u8 list" where
  "filled cs n buf =
     (if n = 0 then buf
      else let t = take (n - 1) cs in t @ [0] @ drop (length t + 1) buf)"

lemma filled_drop: "n \<le> length buf \<Longrightarrow> drop n (filled cs n buf) = drop n buf"
proof (cases n)
  case (Suc k)
  let ?t = "take k cs"
  obtain j where "k = length ?t + j" using le_Suc_ex [of "length ?t" k] by auto
  then have "drop n (?t @ [0] @ drop (length ?t + 1) buf) = drop n buf"
    using Suc by (metis (no_types) add.commute add_Suc_right append_Cons append_Nil append_assoc
        drop_drop append_eq_conv_conj length_append_singleton plus_1_eq_Suc)
  then show ?thesis using Suc by (simp add: filled_def Let_def)
qed (simp add: filled_def)

lemma vsnprintf_buffer:
  assumes cs: "format_chars depth format va = Some cs" "length cs < 2 ^ 31"
    and buf: "unat maxlen \<le> length buf"
  shows "vsnprintf depth out_buffer maxlen format va buf
    = Some (int (length cs), filled cs (unat maxlen) buf)"
proof -
  let ?n = "unat maxlen" and ?l = "length cs"
  let ?b = "map (\<lambda>j. if j < ?l \<and> j < ?n then cs ! j else buf ! j) [0..<length buf]"
  have e: "emit out_buffer maxlen cs (0, buf) = Some (of_nat ?l, ?b)"
    using emit_buffer [OF buf, of 0 cs] cs(2) by simp
  have u: "unat (of_nat ?l :: u32) = ?l" using cs(2) by (simp add: unat_of_nat)
  let ?idx = "if of_nat ?l < maxlen then of_nat ?l else maxlen - 1 :: u32"
  have "out_buffer 0 ?idx maxlen ?b = Some (filled cs ?n buf)"
  proof (cases "maxlen = 0")
    case True
    then have "?b = buf" by (simp add: map_nth)
    with True show ?thesis by (simp add: out_buffer_def filled_def)
  next
    case False
    then have n: "0 < ?n" "unat (maxlen - 1) = ?n - 1" "maxlen - 1 < maxlen"
      by (simp_all add: unat_gt_0 unat_minus_one word_less_nat_alt)
    have idx: "?idx < maxlen" "unat ?idx = min ?l (?n - 1)"
      using n u by (auto simp: word_less_nat_alt min_def)
    have "?b[min ?l (?n - 1) := 0] = filled cs ?n buf"
      using n(1) buf
      by (intro nth_equalityI) (auto simp: filled_def Let_def nth_list_update nth_append nth_Cons' min_def)
    then show ?thesis
      using idx n buf by (simp add: out_buffer_def)
  qed
  then show ?thesis
    using cs(2) by (simp add: vsnprintf_def vsn_loop_emits cs(1) e int_of_count)
qed

lemma emit_console:
  "emit (out_char console) m cs (i, s) = Some (i + of_nat (length cs), s @ filter (\<lambda>c. c \<noteq> 0) cs)"
  by (induction cs arbitrary: i s) (auto simp: put_def out_char_def console_def algebra_simps)

lemma emit_null: "emit out_null m cs (i, s) = Some (i + of_nat (length cs), s)"
  by (induction cs arbitrary: i) (auto simp: put_def out_null_def algebra_simps)

lemma format_chars_plain:
  "\<forall>c \<in> set s. c \<noteq> 0 \<and> c \<noteq> ascii CHR ''%''
    \<Longrightarrow> format_chars depth (s @ rest) va = map_option ((@) s) (format_chars depth rest va)"
  by (cases "format_chars depth rest va"; induction s) (auto simp: format_chars.simps(2))

section \<open>Properties\<close>


text \<open>C7: \<open>tiny_snprintf\<close> with a buffer of at least \<open>count\<close> bytes never writes outside the
  first \<open>count\<close> of them; these then hold the longest prefix of the characters that leaves
  room for the terminator, which is always written when \<open>count\<close> is positive, and the result
  is the number of characters of the whole text, as in C99.\<close>

theorem tiny_snprintf_fills_buffer:
  assumes "format_chars depth format va = Some cs" "length cs < 2 ^ 31" "unat n \<le> length buf"
  shows "\<exists>b. tiny_snprintf depth (Some buf) n format va = Some (int (length cs), Some b)
    \<and> length b = length buf \<and> drop (unat n) b = drop (unat n) buf
    \<and> (0 < n \<longrightarrow> take (min (length cs) (unat n - 1) + 1) b = take (unat n - 1) cs @ [0])"
proof -
  note filled_drop [OF assms(3), of cs]
  moreover have "length (filled cs (unat n) buf) = length buf"
    using assms(3) by (auto simp: filled_def Let_def min_def)
  moreover have "take (min (length cs) (unat n - 1) + 1) (filled cs (unat n) buf) = take (unat n - 1) cs @ [0]"
    if "0 < n"
    using that by (auto simp: filled_def Let_def word_less_nat_alt min_def unat_eq_zero)
  ultimately show ?thesis
    by (simp add: tiny_snprintf_def tiny_vsnprintf_def vsnprintf_buffer [OF assms])
qed

theorem tiny_snprintf_fills_buffer_witness:
  "\<exists>b. tiny_snprintf 0 (Some [9, 9, 9, 9, 9]) 4 [104, 101, 108, 108, 111, 0] [] = Some (int (length [104, 101, 108, 108, 111::u8]), Some b)
    \<and> length b = length [9, 9, 9, 9, 9::u8] \<and> drop (unat (4::u32)) b = drop (unat (4::u32)) [9, 9, 9, 9, 9]
    \<and> (0 < (4::u32) \<longrightarrow> take (min (length [104, 101, 108, 108, 111::u8]) (unat (4::u32) - 1) + 1) b
        = take (unat (4::u32) - 1) [104, 101, 108, 108, 111] @ [0])"
  by (rule tiny_snprintf_fills_buffer) (simp_all add: format_chars.simps(2))

text \<open>With a null buffer \<open>tiny_snprintf\<close> writes nothing and returns the length the text
  would have, so that a caller can size its buffer, whatever \<open>count\<close>.\<close>

theorem tiny_snprintf_null_counts:
  assumes "format_chars depth format va = Some cs" "length cs < 2 ^ 31"
  shows "tiny_snprintf depth None n format va = Some (int (length cs), None)"
  by (simp add: tiny_snprintf_def tiny_vsnprintf_def vsnprintf_def vsn_loop_emits assms emit_null
      out_null_def int_of_count [OF assms(2)])

theorem tiny_snprintf_null_counts_witness:
  "tiny_snprintf 0 None 0 [104, 105, 37, 37, 0] [] = Some (int (length [104, 105, 37::u8]), None)"
  by (rule tiny_snprintf_null_counts)
    (simp_all add: format_chars.simps(2) parse_directive_def parse_width_def parse_precision_def
      parse_length_def is_digit_def conv_chars_def)

text \<open>\<open>tiny_printf\<close> sends to \<open>vx_putchar\<close> the characters of the format in order,
  without the zero characters and without the terminator, and returns their number.\<close>

theorem tiny_printf_console:
  assumes "format_chars depth format va = Some cs" "length cs < 2 ^ 31"
  shows "tiny_printf depth console format va s = Some (int (length cs), s @ filter (\<lambda>c. c \<noteq> 0) cs)"
  by (simp add: tiny_printf_def vsnprintf_def vsn_loop_emits assms emit_console int_of_count [OF assms(2)] out_char_def)

theorem tiny_printf_console_witness:
  "tiny_printf 0 console [120, 61, 37, 99, 0] [VWord 65] [] = Some (int (length [120, 61, 65::u8]), [] @ filter (\<lambda>c. c \<noteq> 0) [120, 61, 65])"
  by (rule tiny_printf_console)
    (simp_all add: format_chars.simps(2) parse_directive_def parse_width_def parse_precision_def
      parse_length_def is_digit_def conv_chars_def padded_def blanks_def on_def FLAGS_LEFT_def)

text \<open>A format that ends in a lone percent sign makes \<open>_vsnprintf\<close> read past the terminator
  of the format, with any output function: the default case prints the terminator and steps over it.\<close>

theorem trailing_percent_overruns:
  assumes "\<forall>c \<in> set text. c \<noteq> 0 \<and> c \<noteq> ascii CHR ''%''"
  shows "vsnprintf depth out maxlen (text @ [ascii CHR ''%'', 0]) va s = None"
  using format_chars_plain [OF assms, of depth "[ascii CHR ''%'', 0]" va]
  by (simp add: vsnprintf_def vsn_loop_emits format_chars.simps(2) parse_directive_def parse_width_def
      parse_precision_def parse_length_def is_digit_def conv_chars_def)

theorem trailing_percent_overruns_witness:
  "vsnprintf 0 (out_char console) (- 1) (map ascii ''100'' @ [ascii CHR ''%'', 0]) [] [] = None"
  by (rule trailing_percent_overruns) simp

text \<open>\<open>%.ns\<close> reads one byte more than its precision allows: an array of exactly
  \<open>n\<close> characters without a terminator, which the C standard permits, is overrun.\<close>

theorem str_precision_overruns:
  assumes "c \<noteq> 0" "d \<noteq> 0"
  shows "vsnprintf depth out maxlen (map ascii ''%.2s'' @ [0]) [VStr [c, d]] s = None"
  by (simp add: vsnprintf_def vsn_loop_emits format_chars.simps(2) parse_directive_def parse_width_def
      parse_precision_def parse_length_def is_digit_def conv_chars_def assms on_def FLAGS_PRECISION_def
      atoi.simps)

theorem str_precision_overruns_witness:
  "vsnprintf 0 out_null 8 (map ascii ''%.2s'' @ [0]) [VStr [104, 105]] () = None"
  by (rule str_precision_overruns) simp_all

end
