(* ===== verification/Digits.thy ===== *)
theory Digits
  imports Prelude
begin

text \<open>
  The positional representation of natural numbers, lowest digit first, as the digit loops of
  \<^verbatim>\<open>lib/src/tinyprintf.c\<close> and \<^verbatim>\<open>lib/include/rad_host.h\<close> produce it.
\<close>

section \<open>Positional representation\<close>

text \<open>The digits of \<open>n\<close> in base \<open>b\<close>, lowest first.\<close>

function nat_digits :: "nat \<Rightarrow> nat \<Rightarrow> nat list" where
  "nat_digits b n = (if b < 2 then [n] else n mod b # (if n div b = 0 then [] else nat_digits b (n div b)))"
  by auto
termination by (relation "measure snd") (auto simp: div_greater_zero_iff intro!: div_less_dividend)

declare nat_digits.simps [simp del]

lemma nat_digits_ne [simp]: "nat_digits b n \<noteq> []"
  by (subst nat_digits.simps) simp

lemma nat_digits_less: "2 \<le> b \<Longrightarrow> d \<in> set (nat_digits b n) \<Longrightarrow> d < b"
proof (induction b n rule: nat_digits.induct)
  case (1 b n)
  then show ?case by (subst (asm) (2) nat_digits.simps) (auto split: if_splits)
qed

text \<open>The value of a digit sequence, lowest first.\<close>

fun digits_val :: "nat \<Rightarrow> nat list \<Rightarrow> nat" where
  "digits_val b [] = 0"
| "digits_val b (d # ds) = d + b * digits_val b ds"

lemma digits_val_nat_digits: "2 \<le> b \<Longrightarrow> digits_val b (nat_digits b n) = n"
proof (induction b n rule: nat_digits.induct)
  case (1 b n)
  show ?case
  proof (cases "n div b = 0")
    case True
    then have "n mod b = n" using 1(2) by (simp add: div_eq_0_iff)
    then show ?thesis using True 1(2) by (subst nat_digits.simps) simp
  next
    case False
    then show ?thesis using 1 by (subst nat_digits.simps) (simp add: mod_mult_div_eq)
  qed
qed

lemma nat_digits_length: "2 \<le> b \<Longrightarrow> n < b ^ k \<Longrightarrow> 0 < k \<Longrightarrow> length (nat_digits b n) \<le> k"
proof (induction b n arbitrary: k rule: nat_digits.induct)
  case (1 b n)
  obtain k' where k: "k = Suc k'" using 1(4) by (cases k) auto
  show ?case
  proof (cases "n div b = 0")
    case False
    have "n div b < b ^ k'" using 1(2,3) k by (simp add: less_mult_imp_div_less mult.commute)
    moreover have "0 < k'" using False calculation by (cases k') auto
    ultimately have "length (nat_digits b (n div b)) \<le> k'" using 1 False by auto
    then show ?thesis using False k 1(2) by (subst nat_digits.simps) simp
  qed (use k 1(2) in \<open>subst nat_digits.simps, simp\<close>)
qed

end
