(* ===== verification/Printf_Ints.thy ===== *)
theory Printf_Ints
  imports Printf_Props Digits
begin

text \<open>
  The integer conversions: the digit loop computes the first 32 digits of the positional
  representation, \<open>_ntoa_format\<close> and \<open>_out_rev\<close> arrange sign, zeros and blanks as the C
  standard prescribes (whenever everything fits the 32-byte buffer), and \<open>_atoi\<close> reads
  back what \<open>%u\<close> prints.
\<close>

section \<open>The digit loop\<close>

definition dchar :: "bool \<Rightarrow> nat \<Rightarrow> u8" where
  "dchar upper d = digit_char upper (of_nat d)"

lemma ntoa_digits_eq:
  fixes base "value" :: "'a::len word"
  assumes "2 \<le> unat base" "unat base \<le> 256" "length buf < BUFFER_SIZE"
  shows "ntoa_digits base value upper buf
    = Some (buf @ map (dchar upper) (take (BUFFER_SIZE - length buf) (nat_digits (unat base) (unat value))))"
  using assms
proof (induction base "value" upper buf rule: ntoa_digits.induct)
  case (1 base "value" upper buf)
  let ?b = "unat base" and ?v = "unat value"
  have d: "digit_char upper (ucast (value mod base)) = dchar upper (?v mod ?b)"
    by (simp add: dchar_def unat_mod [symmetric])
  have v: "unat (value div base) = ?v div ?b" by (simp add: unat_div)
  have z: "value div base = 0 \<longleftrightarrow> ?v div ?b = 0" by (metis v unat_eq_zero)
  have t: "BUFFER_SIZE - length buf = Suc (BUFFER_SIZE - Suc (length buf))" using 1(4) by simp
  have nd: "nat_digits ?b ?v = ?v mod ?b # (if ?v div ?b = 0 then [] else nat_digits ?b (?v div ?b))"
    using 1(2) by (subst nat_digits.simps) simp
  show ?case
  proof (cases "value div base \<noteq> 0 \<and> Suc (length buf) < BUFFER_SIZE")
    case True
    then show ?thesis
      using 1 d v z by (subst ntoa_digits.simps) (simp add: nd t Let_def)
  next
    case False
    then show ?thesis
      using 1(2-4) d v z by (subst ntoa_digits.simps) (auto simp: nd t Let_def)
  qed
qed

section \<open>The layout the C standard prescribes\<close>

text \<open>
  Digits \<open>ds\<close>, sign, minus flag, zero flag, precision and width: at least \<open>prec\<close>
  digits, then the field width filled with zeros after the sign or with blanks.
\<close>

definition std_int :: "u8 list \<Rightarrow> u8 list \<Rightarrow> bool \<Rightarrow> bool \<Rightarrow> nat \<Rightarrow> nat \<Rightarrow> u8 list" where
  "std_int ds sg left zero prec width =
     (let body = replicate (prec - length ds) (ascii CHR ''0'') @ ds;
          body = (if zero \<and> \<not> left
                  then replicate (width - (length sg + length body)) (ascii CHR ''0'') @ body else body);
          s = sg @ body; pad = replicate (width - length s) (ascii CHR '' '')
      in if left then s @ pad else pad @ s)"

definition sign_chars :: "bool \<Rightarrow> u32 \<Rightarrow> u8 list" where
  "sign_chars negative flags =
     (if negative then map ascii ''-'' else if on flags FLAGS_PLUS then map ascii ''+''
      else if on flags FLAGS_SPACE then map ascii '' '' else [])"

definition std_digits :: "bool \<Rightarrow> nat \<Rightarrow> nat \<Rightarrow> u32 \<Rightarrow> u8 list" where
  "std_digits upper base v flags =
     (if on flags FLAGS_PRECISION \<and> v = 0 then [] else rev (map (dchar upper) (nat_digits base v)))"

lemma on_or: "on flags (a OR b) \<longleftrightarrow> on flags a \<or> on flags b"
proof -
  have "x OR y = 0 \<longleftrightarrow> x = 0 \<and> y = 0" for x y :: u32
    by (fact or_eq_0_iff)
  then show ?thesis by (simp add: on_def bit.conj_disj_distrib)
qed

lemma sign_chars_nil: "sign_chars negative flags = [] \<longleftrightarrow> \<not> (negative \<or> on flags (FLAGS_PLUS OR FLAGS_SPACE))"
  by (simp add: sign_chars_def on_or)

lemma sign_chars_len: "length (sign_chars negative flags) = (if negative \<or> on flags (FLAGS_PLUS OR FLAGS_SPACE) then 1 else 0)"
  by (simp add: sign_chars_def on_or)

lemma ntoa_sign_eq:
  "length b < BUFFER_SIZE \<or> sign_chars negative flags = [] \<Longrightarrow> length b \<le> BUFFER_SIZE
    \<Longrightarrow> ntoa_sign b negative flags = Some (b @ sign_chars negative flags)"
  by (auto simp: ntoa_sign_def sign_chars_def push_def split: if_splits)

lemma ntoa_buf_eq:
  fixes base "value" :: "'a::len word"
  assumes "2 \<le> unat base" "unat base \<le> 256"
    and "length (std_digits (on flags FLAGS_UPPERCASE) (unat base) (unat value) flags) \<le> BUFFER_SIZE"
  shows "ntoa_buf base value flags
    = Some (rev (std_digits (on flags FLAGS_UPPERCASE) (unat base) (unat value) flags))"
  using assms ntoa_digits_eq [OF assms(1,2), of "[]" "value"]
  by (auto simp: ntoa_buf_def std_digits_def BUFFER_SIZE_def unat_eq_zero split: if_splits)

lemma rev_replicate_append: "rev (b @ replicate n c) = replicate n c @ rev b"
  by simp

lemma ntoa_format_std:
  assumes hash: "\<not> on flags FLAGS_HASH"
    and fits: "length ds < BUFFER_SIZE" "unat prec < BUFFER_SIZE" "on flags FLAGS_ZEROPAD \<Longrightarrow> unat width \<le> BUFFER_SIZE"
    and left: "on flags FLAGS_LEFT \<Longrightarrow> unat prec \<le> length ds"
  shows "ntoa_format_chars (rev ds) negative base prec width flags
    = Some (std_int ds (sign_chars negative flags) (on flags FLAGS_LEFT) (on flags FLAGS_ZEROPAD)
        (unat prec) (unat width))"
proof -
  let ?sgn = "sign_chars negative flags" and ?z = "\<lambda>n. replicate n (ascii CHR ''0'')"
  let ?p = "unat prec - length ds"
  show ?thesis
  proof (cases "on flags FLAGS_LEFT")
    case True
    have "ntoa_format_buf (rev ds) negative base prec width flags = Some (rev ds @ ?sgn, width)"
      using True fits by (simp add: ntoa_format_buf_def ntoa_pad_def ntoa_hash_def hash ntoa_sign_eq)
    then show ?thesis
      using True left by (simp add: ntoa_format_chars_def rev_chars_def blanks_def std_int_def Let_def
          sign_chars_def add.commute)
  next
    case nl: False
    show ?thesis
    proof (cases "on flags FLAGS_ZEROPAD")
      case False
      have "length ds + ?p < BUFFER_SIZE" using fits by simp
      then have "ntoa_format_buf (rev ds) negative base prec width flags = Some (rev ds @ ?z ?p @ ?sgn, width)"
        using nl False fits ntoa_sign_eq [of "rev ds @ ?z ?p" negative flags]
        by (simp add: ntoa_format_buf_def ntoa_pad_def ntoa_hash_def hash zero_fill_eq)
      then show ?thesis
        using nl False by (simp add: ntoa_format_chars_def rev_chars_def blanks_def std_int_def Let_def
            sign_chars_def add.commute add.left_commute)
    next
      case True
      let ?w = "if width \<noteq> 0 \<and> ?sgn \<noteq> [] then width - 1 else width"
      have w: "unat ?w = unat width - length ?sgn"
        by (auto simp: sign_chars_nil sign_chars_len unat_minus_one)
      let ?q = "unat width - (length ?sgn + (?p + length ds))"
      have "zero_fill (unat ?w) (rev ds @ ?z ?p) = rev ds @ ?z ?p @ ?z ?q"
        using fits True unfolding w by (simp add: zero_fill_eq min_absorb1 diff_diff_left add.commute add.left_commute)
      then have "ntoa_pad (rev ds) negative prec width flags = (rev ds @ ?z ?p @ ?z ?q, ?w)"
        using nl True fits by (simp add: ntoa_pad_def Let_def sign_chars_nil zero_fill_eq)
      moreover have "length (rev ds @ ?z ?p @ ?z ?q) < BUFFER_SIZE \<or> ?sgn = []"
        "length (rev ds @ ?z ?p @ ?z ?q) \<le> BUFFER_SIZE"
        using fits True by (auto simp: sign_chars_nil sign_chars_len)
      ultimately have "ntoa_format_buf (rev ds) negative base prec width flags = Some (rev ds @ ?z ?p @ ?z ?q @ ?sgn, ?w)"
        using ntoa_sign_eq [of "rev ds @ ?z ?p @ ?z ?q" negative flags]
        by (simp add: ntoa_format_buf_def ntoa_hash_def hash)
      then show ?thesis
        using nl True by (simp add: ntoa_format_chars_def rev_chars_def std_int_def Let_def sign_chars_def
            add.commute add.left_commute)
    qed
  qed
qed

lemma and_not_id: "w AND m = 0 \<Longrightarrow> w AND NOT m = w" for w m :: u32
proof (rule bit_word_eqI)
  fix n assume *: "w AND m = 0" "n < LENGTH(32)"
  have "\<not> bit (w AND m) n" using *(1) by simp
  then show "bit (w AND NOT m) n \<longleftrightarrow> bit w n"
    using *(2) by (auto simp: bit_and_iff bit_not_iff)
qed

lemma ntoa_chars_std:
  fixes base "value" :: "'a::len word" and flags :: u32
  defines "ds \<equiv> std_digits (on flags FLAGS_UPPERCASE) (unat base) (unat value) flags"
  assumes "\<not> on flags FLAGS_HASH" "2 \<le> unat base" "unat base \<le> 256"
    and "length ds < BUFFER_SIZE" "unat prec < BUFFER_SIZE" "on flags FLAGS_ZEROPAD \<Longrightarrow> unat width \<le> BUFFER_SIZE"
    and "on flags FLAGS_LEFT \<Longrightarrow> unat prec \<le> length ds"
  shows "ntoa_chars value negative base prec width flags
    = Some (std_int ds (sign_chars negative flags) (on flags FLAGS_LEFT) (on flags FLAGS_ZEROPAD)
        (unat prec) (unat width))"
proof -
  have "(if value = 0 then flags AND NOT FLAGS_HASH else flags) = flags"
  proof -
    have "flags AND FLAGS_HASH = 0" using assms(2) by (simp add: on_def)
    then have "flags AND NOT FLAGS_HASH = flags"
      by (rule and_not_id)
    then show ?thesis by simp
  qed
  then show ?thesis
    using assms by (simp add: ntoa_chars_def ntoa_buf_eq ntoa_format_std)
qed

lemma std_digits_len:
  assumes "8 \<le> base" "v < 8 ^ k" "0 < k"
  shows "length (std_digits upper base v flags) \<le> k"
proof -
  have "v < base ^ k" using assms(1,2) power_mono [of 8 base k] by simp
  then show ?thesis using nat_digits_length [of base v k] assms by (simp add: std_digits_def)
qed

lemma ntoa_chars_total: "ntoa_chars v negative base prec width flags \<noteq> None"
proof -
  let ?f = "if v = 0 then flags AND NOT FLAGS_HASH else flags"
  obtain b where b: "ntoa_buf base v ?f = Some b" "length b \<le> BUFFER_SIZE" using ntoa_buf_total by blast
  then show ?thesis
    using ntoa_format_buf_total [OF b(2), of negative "ucast base" prec width ?f]
    by (auto simp: ntoa_chars_def ntoa_format_chars_def Let_def)
qed

section \<open>Reading back\<close>

text \<open>\<open>_atoi\<close> on digit characters, highest first, followed by a character that is no digit.\<close>

lemma dchar_digit:
  assumes "d < 10"
  shows "is_digit (dchar upper d)" "(ucast (dchar upper d - 48) :: u32) = of_nat d"
proof -
  have "d \<in> {0, 1, 2, 3, 4, 5, 6, 7, 8, 9}" using assms by auto
  then show "is_digit (dchar upper d)" "(ucast (dchar upper d - 48) :: u32) = of_nat d"
    by (auto simp: is_digit_def dchar_def digit_char_def)
qed

lemma atoi_digits:
  assumes "\<forall>d \<in> set ds. d < 10" "\<not> is_digit c"
  shows "atoi (rev (map (dchar upper) ds) @ c # rest) i
    = Some (i * 10 ^ length ds + of_nat (digits_val 10 ds), c # rest)"
  using assms(1)
proof (induction ds arbitrary: i rest rule: rev_induct)
  case (snoc d ds)
  have v: "digits_val 10 (ds @ [d]) = digits_val 10 ds + 10 ^ length ds * d" for ds d
    by (induction ds) (auto simp: algebra_simps)
  from snoc show ?case
    by (simp add: dchar_digit v algebra_simps)
qed (use assms(2) in simp)

section \<open>Properties\<close>







end
