(* ===== verification/C_Float_Facts.thy ===== *)
theory C_Float_Facts
  imports C_Float
begin

text \<open>
  Facts on the floating-point model: the exponent of a rational, exactness on the numbers of
  the format, monotonicity of rounding, and the exact cases of the arithmetic that the
  programs rely on (small integers).
\<close>

section \<open>Powers of two\<close>

lemma pow2_add: "pow2 (a + b) = pow2 a * pow2 b"
  by (auto simp: pow2_def nat_add_distrib power_add field_simps nat_diff_distrib
      simp flip: power_add split: if_splits)

lemma pow2_ge1: "0 \<le> k \<Longrightarrow> 1 \<le> pow2 k"
  by (simp add: pow2_def)

lemma pow2_mono: "a \<le> b \<Longrightarrow> pow2 a \<le> pow2 b"
  using pow2_add [of a "b - a"] mult_left_mono [OF pow2_ge1 [of "b - a"], of "pow2 a"] by (simp add: less_imp_le)

lemma pow2_0 [simp]: "pow2 0 = 1" and pow2_1 [simp]: "pow2 1 = 2"
  by (simp_all add: pow2_def)

lemma pow2_Suc: "pow2 (k + 1) = 2 * pow2 k"
  by (simp add: pow2_add)

lemma pow2_strict: "a < b \<Longrightarrow> pow2 a < pow2 b"
  using pow2_mono [of "a + 1" b] pow2_pos [of a] unfolding pow2_Suc by linarith

lemma pow2_less_iff [simp]: "pow2 a < pow2 b \<longleftrightarrow> a < b"
  using pow2_strict [of a b] pow2_mono [of b a] by (cases "a < b") auto

lemma pow2_of_nat: "pow2 (int n) = 2 ^ n"
  by (simp add: pow2_def)

lemma pow2_uminus: "pow2 (- k) = 1 / pow2 k"
  using pow2_add [of k "- k"] by (simp add: field_simps)

lemma pow2_diff: "pow2 (a - b) = pow2 a / pow2 b"
  using pow2_add [of "a - b" b] by (simp add: field_simps)

section \<open>The exponent\<close>

lemma blen_bounds:
  assumes "0 < n"
  shows "0 < blen n \<and> pow2 (blen n - 1) \<le> of_int n \<and> of_int n < pow2 (blen n)"
  using assms
proof (induction n rule: blen.induct)
  case (1 n)
  show ?case
  proof (cases "n = 1")
    case True
    have "blen 1 = 1" by (subst blen.simps, simp, subst blen.simps, simp)
    then show ?thesis by (simp add: True)
  next
    case False
    then have h: "0 < n div 2" using 1(2) by simp
    have b: "blen n = 1 + blen (n div 2)" using 1(2) by (subst blen.simps) simp
    have "(of_int (2 * (n div 2)) :: rat) \<le> of_int n" "(of_int (n + 1) :: rat) \<le> of_int (2 * (n div 2 + 1))"
      unfolding of_int_le_iff by presburger+
    then have lo: "2 * of_int (n div 2) \<le> (of_int n :: rat)" and hi: "(of_int n :: rat) + 1 \<le> 2 * (of_int (n div 2) + 1)"
      by simp_all
    have IH: "0 < blen (n div 2)" "pow2 (blen (n div 2) - 1) \<le> of_int (n div 2)" "of_int (n div 2) < pow2 (blen (n div 2))"
      using 1(1) 1(2) h by auto
    have "of_int (n div 2 + 1) \<le> pow2 (blen (n div 2))"
    proof -
      have p: "pow2 (blen (n div 2)) = of_int (2 ^ nat (blen (n div 2)))" using IH(1) by (simp add: pow2_def)
      then have "n div 2 < 2 ^ nat (blen (n div 2))" using IH(3) by (metis of_int_less_iff)
      then show ?thesis unfolding p by (simp only: of_int_le_iff)
    qed
    moreover have "pow2 (blen n - 1) = 2 * pow2 (blen (n div 2) - 1)" "pow2 (blen n) = 2 * pow2 (blen (n div 2))"
      using pow2_Suc [of "blen (n div 2) - 1"] pow2_Suc [of "blen (n div 2)"] by (simp_all add: b add.commute)
    ultimately show ?thesis using IH lo hi b by simp
  qed
qed

lemma ilog2_bounds:
  assumes "0 < r"
  shows "pow2 (ilog2 r) \<le> r \<and> r < pow2 (ilog2 r + 1)"
proof -
  obtain a b where q: "quotient_of r = (a, b)" by fastforce
  have r: "r = of_int a / of_int b" and b: "0 < b" using quotient_of_div [OF q] quotient_of_denom_pos [OF q] by auto
  have a: "0 < a" using assms b unfolding r by (simp add: zero_less_divide_iff)
  note A = blen_bounds [OF a] and B = blen_bounds [OF b]
  let ?k = "blen a - blen b"
  have "pow2 ?k = pow2 (blen a) / pow2 (blen b)"
    using pow2_add [of "blen a" "- blen b"] by (simp add: pow2_uminus)
  moreover have "pow2 (blen a) = 2 * pow2 (blen a - 1)" "pow2 (blen b) = 2 * pow2 (blen b - 1)"
    using pow2_Suc [of "blen a - 1"] pow2_Suc [of "blen b - 1"] by simp_all
  moreover have "r < pow2 (blen a) / pow2 (blen b - 1)"
  proof -
    have "0 \<le> (of_int a :: rat)" using a by simp
    then show ?thesis unfolding r using A B by (intro frac_less) auto
  qed
  moreover have "pow2 (blen a - 1) / pow2 (blen b) \<le> r"
    unfolding r using A B a b by (intro frac_le) auto
  ultimately have k: "r < 2 * pow2 ?k" "pow2 ?k / 2 \<le> r" by simp_all
  have "pow2 ?k = 2 * pow2 (?k - 1)" using pow2_Suc [of "?k - 1"] by simp
  with k q show ?thesis by (auto simp: ilog2_def Let_def pow2_Suc)
qed

lemma ilog2_eq: "pow2 e \<le> r \<Longrightarrow> r < pow2 (e + 1) \<Longrightarrow> ilog2 r = e"
proof -
  assume e: "pow2 e \<le> r" "r < pow2 (e + 1)"
  then have "0 < r" using pow2_pos [of e] by linarith
  note b = ilog2_bounds [OF this]
  show "ilog2 r = e"
  proof (rule ccontr)
    assume "ilog2 r \<noteq> e"
    then consider "ilog2 r + 1 \<le> e" | "e + 1 \<le> ilog2 r" by linarith
    then show False using e b pow2_mono by cases fastforce+
  qed
qed

section \<open>Rounding\<close>

lemma round_even_mono: "q \<le> q' \<Longrightarrow> round_even q \<le> round_even q'"
proof -
  assume q: "q \<le> q'"
  then have f: "\<lfloor>q\<rfloor> \<le> \<lfloor>q'\<rfloor>" by (rule floor_mono)
  show ?thesis
  proof (cases "\<lfloor>q\<rfloor> = \<lfloor>q'\<rfloor>")
    case True
    then show ?thesis using q by (auto simp: round_even_def Let_def)
  next
    case False
    then have "\<lfloor>q\<rfloor> + 1 \<le> \<lfloor>q'\<rfloor>" using f by linarith
    then show ?thesis by (auto simp: round_even_def Let_def)
  qed
qed

lemma round_even_le: "q \<le> of_int n \<Longrightarrow> round_even q \<le> n"
  using round_even_mono [of q "of_int n"] by simp

lemma round_even_ge: "of_int n \<le> q \<Longrightarrow> n \<le> round_even q"
  using round_even_mono [of "of_int n" q] by simp

text \<open>The rounded magnitude, before the test for overflow.\<close>

definition frnd :: "ffmt \<Rightarrow> rat \<Rightarrow> rat" where
  "frnd F r = of_int (round_even (r / fulp F r)) * fulp F r"

definition fexp :: "ffmt \<Rightarrow> rat \<Rightarrow> int" where
  "fexp F r = max (ilog2 r) (femin F)"

lemma fulp_eq: "fulp F r = pow2 (fexp F r - int (mbits F))"
  by (simp add: fulp_def fexp_def)

lemma fulp_pos [simp]: "0 < fulp F r" and fulp_nonzero [simp]: "fulp F r \<noteq> 0"
  by (simp_all add: fulp_eq)

lemma fround_eq: "r \<noteq> 0 \<Longrightarrow> fround F s r = (if pow2 (fbias F + 1) \<le> frnd F r then FInf s else FFin s (frnd F r))"
  by (simp add: fround_def frnd_def Let_def)

lemma fexp_less: "0 < r \<Longrightarrow> r < pow2 (fexp F r + 1)"
  using ilog2_bounds [of r] pow2_mono [of "ilog2 r + 1" "fexp F r + 1"] by (force simp: fexp_def)

lemma fexp_mono: "0 < r \<Longrightarrow> r \<le> r' \<Longrightarrow> fexp F r \<le> fexp F r'"
proof -
  assume r: "0 < r" "r \<le> r'"
  have "\<not> ilog2 r' + 1 \<le> ilog2 r"
  proof
    assume "ilog2 r' + 1 \<le> ilog2 r"
    from pow2_mono [OF this] show False using ilog2_bounds [of r] ilog2_bounds [of r'] r by linarith
  qed
  then show ?thesis by (simp add: fexp_def)
qed

lemma pow2_ulp: "fexp F r \<le> e \<Longrightarrow> pow2 e / fulp F r = of_int (2 ^ nat (e - fexp F r + int (mbits F)))"
proof -
  assume "fexp F r \<le> e"
  then have "of_int (2 ^ nat (e - fexp F r + int (mbits F))) = pow2 (e - (fexp F r - int (mbits F)))"
    by (simp add: pow2_def algebra_simps)
  then show ?thesis by (simp add: fulp_eq pow2_diff [of e])
qed

text \<open>A power of two above (or, when it is normal, below) bounds the rounded number too.\<close>

lemma frnd_le_pow2: "0 < r \<Longrightarrow> r \<le> pow2 e \<Longrightarrow> fexp F r \<le> e \<Longrightarrow> frnd F r \<le> pow2 e"
proof -
  assume r: "0 < r" "r \<le> pow2 e" "fexp F r \<le> e"
  let ?n = "2 ^ nat (e - fexp F r + int (mbits F)) :: int"
  have "r / fulp F r \<le> of_int ?n"
    using r(2) by (simp only: pow2_ulp [OF r(3), symmetric]) (simp add: divide_right_mono less_imp_le)
  then have "of_int (round_even (r / fulp F r)) \<le> (of_int ?n :: rat)" by (simp only: of_int_le_iff round_even_le)
  then have "frnd F r \<le> of_int ?n * fulp F r" unfolding frnd_def by (intro mult_right_mono) (auto simp: less_imp_le)
  also have "\<dots> = pow2 e" by (simp only: pow2_ulp [OF r(3), symmetric]) simp
  finally show ?thesis .
qed

lemma frnd_ge_pow2: "0 < r \<Longrightarrow> pow2 (fexp F r) \<le> r \<Longrightarrow> pow2 (fexp F r) \<le> frnd F r"
proof -
  assume r: "0 < r" "pow2 (fexp F r) \<le> r"
  let ?e = "fexp F r" and ?n = "2 ^ nat (fexp F r - fexp F r + int (mbits F)) :: int"
  have p: "pow2 ?e / fulp F r = of_int ?n" by (rule pow2_ulp) simp
  have "of_int ?n \<le> r / fulp F r"
    unfolding p [symmetric] using r(2) by (simp add: divide_right_mono less_imp_le)
  then have "(of_int ?n :: rat) \<le> of_int (round_even (r / fulp F r))" by (simp only: of_int_le_iff round_even_ge)
  then have "of_int ?n * fulp F r \<le> frnd F r" unfolding frnd_def by (intro mult_right_mono) (auto simp: less_imp_le)
  then show ?thesis unfolding p [symmetric] by simp
qed

lemma frnd_mono: "0 < r \<Longrightarrow> r \<le> r' \<Longrightarrow> frnd F r \<le> frnd F r'"
proof -
  assume r: "0 < r" "r \<le> r'"
  show ?thesis
  proof (cases "fexp F r = fexp F r'")
    case True
    then have u: "fulp F r = fulp F r'" by (simp add: fulp_eq)
    have "r / fulp F r \<le> r' / fulp F r'" unfolding u using r by (simp add: divide_right_mono less_imp_le)
    then have "of_int (round_even (r / fulp F r)) \<le> (of_int (round_even (r' / fulp F r')) :: rat)"
      by (simp only: of_int_le_iff round_even_mono)
    then show ?thesis unfolding frnd_def u by (intro mult_right_mono) (auto simp: less_imp_le)
  next
    case False
    then have lt: "fexp F r + 1 \<le> fexp F r'" using fexp_mono [OF r, of F] by linarith
    then have e: "fexp F r' = ilog2 r'" by (auto simp: fexp_def max_def split: if_splits)
    have "frnd F r \<le> pow2 (fexp F r + 1)"
      using r(1) fexp_less [OF r(1), of F] by (intro frnd_le_pow2) auto
    also have "\<dots> \<le> pow2 (fexp F r')" by (rule pow2_mono [OF lt])
    also have "\<dots> \<le> frnd F r'" using r ilog2_bounds [of r'] e by (intro frnd_ge_pow2) auto
    finally show ?thesis .
  qed
qed

text \<open>The numbers of the format: rounding leaves them alone.\<close>

definition representable :: "ffmt \<Rightarrow> rat \<Rightarrow> bool" where
  "representable F r \<longleftrightarrow> r = 0 \<or> 0 < r \<and> r < pow2 (fbias F + 1) \<and> of_int \<lfloor>r / fulp F r\<rfloor> = r / fulp F r"

lemma frnd_representable: "representable F r \<Longrightarrow> 0 < r \<Longrightarrow> frnd F r = r"
  unfolding representable_def frnd_def by (metis fulp_nonzero less_irrefl nonzero_eq_divide_eq round_even_of_int)

lemma fround_representable: "representable F r \<Longrightarrow> fround F s r = FFin s r"
  using frnd_representable [of F r] by (cases "r = 0") (auto simp: fround_eq representable_def, simp add: fround_def)

lemma representable_dyadic:
  assumes r: "r = of_int n * pow2 k" and n: "0 < n" "n < 2 ^ (mbits F + 1)"
    and k: "femin F - int (mbits F) \<le> k" and max: "r < pow2 (fbias F + 1)"
  shows "representable F r"
proof -
  have r0: "0 < r" using n r by simp
  have "(of_int n :: rat) < of_int (2 ^ (mbits F + 1))" using n(2) by (simp only: of_int_less_iff)
  then have "r < pow2 (int (mbits F + 1)) * pow2 k" unfolding r by (simp add: pow2_of_nat del: of_nat_Suc of_nat_add)
  then have lt: "r < pow2 (int (mbits F) + 1 + k)" by (simp add: pow2_add mult_ac)
  have "ilog2 r \<le> int (mbits F) + k"
  proof (rule ccontr)
    assume "\<not> ilog2 r \<le> int (mbits F) + k"
    then have "pow2 (int (mbits F) + 1 + k) \<le> pow2 (ilog2 r)" by (intro pow2_mono) simp
    then show False using lt ilog2_bounds [OF r0] by linarith
  qed
  then have d: "0 \<le> k - (fexp F r - int (mbits F))" using k by (simp add: fexp_def)
  have "r / fulp F r = of_int n * pow2 (k - (fexp F r - int (mbits F)))"
    by (simp add: r fulp_eq pow2_diff [of k])
  also have "\<dots> = of_int (n * 2 ^ nat (k - (fexp F r - int (mbits F))))"
    using d by (simp add: pow2_def)
  finally have "r / fulp F r = of_int (n * 2 ^ nat (k - (fexp F r - int (mbits F))))" .
  then show ?thesis using r0 max by (simp add: representable_def)
qed

text \<open>Integers in \<open>double\<close>.\<close>

lemma binary64_sel [simp]: "mbits binary64 = 52" "fbias binary64 = 1023" "femin binary64 = - 1022"
  by (simp_all add: binary64_def fbias_def femin_def)

lemma representable_int:
  assumes "0 \<le> n" "n < 2 ^ 53"
  shows "representable binary64 (of_int n)"
proof (cases "n = 0")
  case False
  have "(of_int n :: rat) < of_int (2 ^ 53)" using assms(2) by (simp only: of_int_less_iff)
  also have "\<dots> = pow2 53" by (simp add: pow2_def)
  also have "\<dots> \<le> pow2 (fbias binary64 + 1)" by (intro pow2_mono) simp
  finally show ?thesis
    using False assms by (intro representable_dyadic [of _ n 0]) auto
qed (simp add: representable_def)

lemma fround_int: "0 \<le> n \<Longrightarrow> n < 2 ^ 53 \<Longrightarrow> fround binary64 s (of_int n) = FFin s (of_int n)"
  by (rule fround_representable) (rule representable_int)

lemma of_int_f_int:
  assumes "\<bar>n\<bar> < 2 ^ 53"
  shows "of_int_f binary64 n = FFin (n < 0) (of_int \<bar>n\<bar>)"
proof (cases "n = 0")
  case False
  have "fround binary64 (n < 0) (of_int \<bar>n\<bar>) = FFin (n < 0) (of_int \<bar>n\<bar>)"
    using assms by (intro fround_int) auto
  then show ?thesis using False by (simp add: of_int_f_def fround_val_def)
qed (simp add: of_int_f_def fround_val_def)

text \<open>Rounding does not cross an integer of the format.\<close>

lemma fround_le_int:
  assumes "0 \<le> r" "r \<le> of_int n" "n < 2 ^ 53"
  shows "\<exists>q. fround binary64 s r = FFin s q \<and> 0 \<le> q \<and> q \<le> of_int n"
proof (cases "r = 0")
  case True
  then show ?thesis using assms by (simp add: fround_def)
next
  case False
  then have r: "0 < r" using assms by simp
  then have n: "0 < n" using assms(2) by (metis less_le_trans of_int_0_less_iff)
  have rep: "representable binary64 (of_int n)" using assms n by (intro representable_int) auto
  have "frnd binary64 r \<le> frnd binary64 (of_int n)" by (rule frnd_mono [OF r assms(2)])
  also have "\<dots> = of_int n" using rep n by (intro frnd_representable) auto
  finally have le: "frnd binary64 r \<le> of_int n" .
  have "0 \<le> round_even (r / fulp binary64 r)" using r by (intro round_even_ge) (simp add: less_imp_le)
  then have "0 \<le> frnd binary64 r" by (simp add: frnd_def less_imp_le)
  moreover have "frnd binary64 r < pow2 (fbias binary64 + 1)"
    using le rep n by (simp add: representable_def)
  ultimately show ?thesis using le False by (simp add: fround_eq)
qed

end
