(* ===== verification/Printf_Floats.thy ===== *)
theory Printf_Floats
  imports Printf_Ints C_Float_Facts
begin

text \<open>
  The conversion \<open>%f\<close>: where it is defined, what it prints for whole numbers, and two
  inputs on which it goes wrong.
\<close>

section \<open>Precision\<close>

lemma limit_prec_eq:
  "fst (limit_prec prec buf) = prec - of_nat (min (unat prec - 9) (BUFFER_SIZE - length buf))
    \<and> snd (limit_prec prec buf) = buf @ replicate (min (unat prec - 9) (BUFFER_SIZE - length buf)) (ascii CHR ''0'')"
proof (induction prec buf rule: limit_prec.induct)
  case (1 prec buf)
  show ?case
  proof (cases "length buf < BUFFER_SIZE \<and> 9 < prec")
    case True
    have p: "9 < unat prec" using True by (simp add: word_less_nat_alt)
    then have "prec \<noteq> 0" by auto
    then have p': "unat (prec - 1) = unat prec - 1" by (rule unat_minus_one)
    have "min (unat prec - 9) (BUFFER_SIZE - length buf)
        = Suc (min (unat (prec - 1) - 9) (BUFFER_SIZE - length (buf @ [ascii CHR ''0''])))"
      using True p p' by auto
    then show ?thesis
      using True 1 [OF True] by (subst (1 2) limit_prec.simps) (simp add: algebra_simps)
  next
    case False
    then have "min (unat prec - 9) (BUFFER_SIZE - length buf) = 0"
      by (auto simp: word_less_nat_alt)
    moreover have "limit_prec prec buf = (prec, buf)"
      using False by (subst limit_prec.simps) (auto split: if_splits)
    ultimately show ?thesis by simp
  qed
qed

lemma limit_prec_start:
  "unat (fst (limit_prec prec [])) = unat prec - min (unat prec - 9) 32"
proof -
  let ?k = "min (unat prec - 9) 32"
  have "unat (of_nat ?k :: u32) = ?k" by (simp add: unat_of_nat)
  then have "of_nat ?k \<le> prec" by (simp add: word_le_nat_alt)
  then show ?thesis
    using limit_prec_eq [of prec "[]"] \<open>unat (of_nat ?k :: u32) = ?k\<close>
    by (simp add: unat_sub BUFFER_SIZE_def)
qed

section \<open>Definedness\<close>

lemma ftoa_split_defined:
  assumes "0 \<le> r" "r \<le> 1000000000" "prec < 10"
  shows "\<exists>f w. ftoa_split (FFin False r) prec = Some (f, w) \<and> 0 \<le> w \<and> w \<le> 1000000001"
proof -
  have w: "0 \<le> \<lfloor>r\<rfloor>" "\<lfloor>r\<rfloor> \<le> 1000000000" using assms by (simp_all add: floor_le_iff)
  have toi: "f_to_int (FFin False r) = Some \<lfloor>r\<rfloor>" using w by (simp add: f_to_int_def ck_def in_int_def)
  have r01: "0 \<le> r - of_int \<lfloor>r\<rfloor>" "r - of_int \<lfloor>r\<rfloor> \<le> of_int 1" by linarith+
  then have not_neg: "\<not> r < of_int \<lfloor>r\<rfloor>" by linarith
  obtain q where q: "fround B64 False (r - of_int \<lfloor>r\<rfloor>) = FFin False q" "0 \<le> q" "q \<le> 1"
    using fround_le_int [of "r - of_int \<lfloor>r\<rfloor>" 1] r01 by auto
  have of_w: "of_int_f B64 \<lfloor>r\<rfloor> = FFin False (of_int \<lfloor>r\<rfloor>)" using w by (simp add: of_int_f_int)
  have "\<exists>q. fsub B64 (FFin False r) (of_int_f B64 \<lfloor>r\<rfloor>) = FFin False q \<and> 0 \<le> q \<and> q \<le> 1"
    using q not_neg by (auto simp: fsub_def of_w fround_val_def)
  then obtain q where q: "fsub B64 (FFin False r) (of_int_f B64 \<lfloor>r\<rfloor>) = FFin False q" "0 \<le> q" "q \<le> 1" by blast
  have p: "unat prec \<le> 9" using assms(3) by (simp add: word_less_nat_alt)
  then have p9: "(10::rat) ^ unat prec \<le> 10 ^ 9" by (intro power_increasing) auto
  have "q * 10 ^ unat prec \<le> 1 * 10 ^ 9" using q p9 by (intro mult_mono) auto
  then obtain t where t: "fround B64 False (q * 10 ^ unat prec) = FFin False t" "0 \<le> t" "t \<le> 10 ^ 9"
    using fround_le_int [of "q * 10 ^ unat prec" "10 ^ 9"] q by auto
  have ft: "0 \<le> \<lfloor>t\<rfloor>" "\<lfloor>t\<rfloor> \<le> 1000000000" using t by (simp_all add: floor_le_iff)
  have tou: "f_to_u32 (FFin False t) = Some (word_of_int \<lfloor>t\<rfloor>)" using ft by (simp add: f_to_u32_def)
  have "c_add \<lfloor>r\<rfloor> 1 = Some (\<lfloor>r\<rfloor> + 1)" using w by (simp add: c_add_def ck_def in_int_def)
  then show ?thesis
    using w by (simp add: ftoa_split_def toi pow10_def assms(3) q(1) t(1) tou Let_def)
qed

text \<open>The negative zero goes the way of zero.\<close>

lemma ftoa_split_neg_zero: "ftoa_split (FFin True 0) prec = ftoa_split (FFin False 0) prec"
  by (simp add: ftoa_split_def pow10_def f_to_int_def ck_def in_int_def of_int_f_def fround_val_def
      fsub_def fround_def f_to_u32_def f_half_def)

lemma ftoa_digits_defined:
  assumes "0 \<le> w" "w \<le> 1000000001"
  shows "\<exists>b. ftoa_digits value prec f w buf = Some b"
proof -
  have "c_add w 1 = Some (w + 1)" using assms by (simp add: c_add_def ck_def in_int_def)
  then show ?thesis by (simp add: ftoa_digits_def Let_def case_prod_unfold)
qed

text \<open>The precision that selects the entry of \<open>pow10[]\<close>.\<close>

lemma pow10_index:
  "fst (limit_prec prec []) < 10 \<longleftrightarrow> prec < 42"
proof -
  have "unat (fst (limit_prec prec [])) < 10 \<longleftrightarrow> unat prec < 42"
    unfolding limit_prec_start by linarith
  then show ?thesis by (simp add: word_less_nat_alt)
qed

text \<open>The magnitude that the function works on.\<close>

lemma ftoa_magnitude:
  fixes s :: bool
  assumes "0 \<le> r" "r \<le> 1000000000"
  defines "v \<equiv> if flt (FFin s r) (FFin False 0) then fsub B64 (FFin False 0) (FFin s r) else FFin s r"
  obtains q where "0 \<le> q" "q \<le> 1000000000" "\<And>prec. ftoa_split v prec = ftoa_split (FFin False q) prec"
proof (cases "s \<and> r \<noteq> 0")
  case True
  obtain q where q: "fround B64 False r = FFin False q" "0 \<le> q" "q \<le> 1000000000"
    using fround_le_int [of r 1000000000] assms(1,2) by auto
  have "v = FFin False q"
    using True assms(1) q(1) by (auto simp: v_def fsub_def fround_val_def)
  then show ?thesis using that q by blast
next
  case False
  then have "v = FFin s r" "s \<Longrightarrow> r = 0" using assms(1) by (auto simp: v_def)
  then show ?thesis using that [of r] assms(1,2) ftoa_split_neg_zero by (cases s) auto
qed

lemma ftoa_buf_precision:
  assumes "0 \<le> r" "r \<le> 1000000000"
  shows "ftoa_buf (FFin s r) prec width flags = None \<longleftrightarrow> on flags FLAGS_PRECISION \<and> 42 \<le> prec"
proof -
  define p0 where "p0 = (if \<not> on flags FLAGS_PRECISION then PRINTF_DEFAULT_FLOAT_PRECISION else prec)"
  define v where "v = (if flt (FFin s r) (FFin False 0) then fsub B64 (FFin False 0) (FFin s r) else FFin s r)"
  obtain q where q: "0 \<le> q" "q \<le> 1000000000" "\<And>prec. ftoa_split v prec = ftoa_split (FFin False q) prec"
    using ftoa_magnitude [OF assms, of s] unfolding v_def by metis
  obtain p b where pb: "limit_prec p0 [] = (p, b)" by force
  have p: "p < 10 \<longleftrightarrow> \<not> (on flags FLAGS_PRECISION \<and> 42 \<le> prec)"
    using pow10_index [of p0] pb by (auto simp: p0_def PRINTF_DEFAULT_FLOAT_PRECISION_def not_le)
  have buf: "ftoa_buf (FFin s r) prec width flags = do {
      (f, w) \<leftarrow> ftoa_split v p;
      d \<leftarrow> ftoa_digits v p f w b;
      Some (ftoa_finish d (flt (FFin s r) (FFin False 0)) width flags)
    }"
    by (simp only: ftoa_buf_def Let_def p0_def [symmetric] v_def [symmetric] pb prod.case)
  show ?thesis
  proof (cases "p < 10")
    case True
    obtain f w where fw: "ftoa_split v p = Some (f, w)" "0 \<le> w" "w \<le> 1000000001"
      using ftoa_split_defined [OF q(1,2) True] q(3) by auto
    obtain d where "ftoa_digits v p f w b = Some d"
      using ftoa_digits_defined [OF fw(2,3)] by blast
    then show ?thesis using True p fw(1) by (simp add: buf)
  next
    case False
    then have "ftoa_split v p = None"
      by (simp add: ftoa_split_def pow10_def bind_eq_None_conv)
    then show ?thesis using False p by (simp add: buf)
  qed
qed

section \<open>Whole numbers\<close>

lemma frac_digits_zero: "length buf < BUFFER_SIZE \<Longrightarrow> frac_digits 0 cnt buf = (cnt - 1, buf @ [ascii CHR ''0''])"
  by (subst frac_digits.simps) simp

lemma extra_zeros_eq:
  "extra_zeros cnt buf = buf @ replicate (min (unat cnt) (BUFFER_SIZE - length buf)) (ascii CHR ''0'')"
proof (induction cnt buf rule: extra_zeros.induct)
  case (1 cnt buf)
  show ?case
  proof (cases "length buf < BUFFER_SIZE \<and> 0 < cnt")
    case True
    then have c: "unat cnt = Suc (unat (cnt - 1))" by (simp add: unat_minus_one unat_gt_0 word_greater_zero_iff)
    have "min (unat cnt) (BUFFER_SIZE - length buf) = Suc (min (unat (cnt - 1)) (BUFFER_SIZE - Suc (length buf)))"
      using c conjunct1 [OF True] by linarith
    then show ?thesis using 1 True by (subst extra_zeros.simps) simp
  next
    case False
    then have "min (unat cnt) (BUFFER_SIZE - length buf) = 0"
      by (auto simp: word_greater_zero_iff)
    then show ?thesis using False by (subst extra_zeros.simps) auto
  qed
qed

lemma dchar_of_int:
  assumes "d < 10"
  shows "(word_of_int (48 + int d) :: u8) = dchar False d"
proof -
  have "d \<in> {0, 1, 2, 3, 4, 5, 6, 7, 8, 9}" using assms by auto
  then show ?thesis by (auto simp: dchar_def digit_char_def)
qed

lemma whole_digits_eq:
  assumes "0 \<le> w" "length buf + length (nat_digits 10 (nat w)) \<le> BUFFER_SIZE"
  shows "whole_digits w buf = buf @ map (dchar False) (nat_digits 10 (nat w))"
  using assms
proof (induction w buf rule: whole_digits.induct)
  case (1 w buf)
  have nd: "nat_digits 10 (nat w) = nat (w mod 10) # (if w div 10 = 0 then [] else nat_digits 10 (nat (w div 10)))"
    using 1(2) by (subst nat_digits.simps) (simp add: nat_mod_distrib nat_div_distrib)
  have l: "length buf < BUFFER_SIZE" using 1(3) by (simp add: nd)
  have d: "(word_of_int (48 + w mod 10) :: u8) = dchar False (nat (w mod 10))"
    using dchar_of_int [of "nat (w mod 10)"] by simp
  have sd: "w smod 10 = w mod 10" "w sdiv 10 = w div 10"
    using 1(2) by (simp_all add: smod_nonneg sdiv_nonneg)
  show ?case
  proof (cases "w div 10 = 0")
    case True
    then show ?thesis using l d by (subst whole_digits.simps) (simp add: nd sd)
  next
    case False
    have "whole_digits (w div 10) (buf @ [dchar False (nat (w mod 10))])
        = (buf @ [dchar False (nat (w mod 10))]) @ map (dchar False) (nat_digits 10 (nat (w div 10)))"
      using 1(1) [OF l refl refl] False 1(2,3) by (simp add: nd sd d [symmetric])
    then show ?thesis using l d False by (subst whole_digits.simps) (simp add: nd sd)
  qed
qed

lemma ftoa_split_whole:
  assumes "0 \<le> n" "n \<le> 1000000000" "prec < 10"
  shows "ftoa_split (FFin False (of_int n)) prec = Some (0, n)"
proof -
  have p: "unat prec \<le> 9" using assms(3) by (simp add: word_less_nat_alt)
  have "f_to_int (FFin False (of_int n)) = Some n"
    using assms by (simp add: f_to_int_def ck_def in_int_def)
  moreover have "fsub B64 (FFin False (of_int n)) (of_int_f B64 n) = FFin False 0"
    using assms by (simp add: fsub_def of_int_f_int fround_val_def)
  moreover have "fmul B64 (FFin False 0) (FFin False (10 ^ unat prec)) = FFin False 0"
    by (simp add: fround_def)
  moreover have "fsub B64 (FFin False 0) (of_int_f B64 0) = FFin False 0"
    by (simp add: fsub_def of_int_f_def fround_val_def)
  ultimately show ?thesis
    using assms(3) by (simp add: ftoa_split_def pow10_def f_to_u32_def f_half_def)
qed

lemma ftoa_buf_whole:
  assumes "0 \<le> n" "n \<le> 1000000000" "0 < prec" "prec < 10"
    and "on flags FLAGS_PRECISION" "\<not> on flags FLAGS_ZEROPAD"
  shows "ftoa_buf (FFin s (of_int n)) prec width flags
    = Some (rev (sign_chars (s \<and> n \<noteq> 0) flags @ rev (map (dchar False) (nat_digits 10 (nat n)))
        @ ascii CHR ''.'' # replicate (unat prec) (ascii CHR ''0'')), width)"
proof -
  let ?v = "FFin False (of_int n)" and ?z = "ascii CHR ''0''"
  have neg: "flt (FFin s (of_int n)) (FFin False 0) \<longleftrightarrow> s \<and> n \<noteq> 0" using assms by auto
  have abs: "(if s \<and> n \<noteq> 0 then fsub B64 (FFin False 0) (FFin s (of_int n)) else FFin s (of_int n))
      = (if s \<and> n = 0 then FFin True 0 else ?v)"
    using assms by (auto simp: fsub_def fround_val_def fround_int)
  have split: "ftoa_split (if s \<and> n = 0 then FFin True 0 else ?v) prec = Some (0, n)"
  proof (cases "s \<and> n = 0")
    case True
    then show ?thesis using ftoa_split_whole [of 0 prec] assms(4) by (simp add: ftoa_split_neg_zero)
  qed (use ftoa_split_whole assms in auto)
  have p: "0 < unat prec" "unat prec \<le> 9" using assms by (simp_all add: word_less_nat_alt)
  have lim: "limit_prec prec [] = (prec, [])"
    using p(2) by (subst limit_prec.simps) (simp add: word_less_nat_alt)
  have zs: "?z # replicate (unat (prec - 1)) ?z = replicate (unat prec) ?z"
    using p by (simp add: unat_minus_one unat_gt_0 replicate_Suc [symmetric])
  have fracs: "frac_digits 0 prec [] = (prec - 1, [?z])"
    by (simp add: frac_digits_zero BUFFER_SIZE_def)
  have extra: "extra_zeros (prec - 1) [?z] = replicate (unat prec) ?z"
    using p by (simp add: extra_zeros_eq BUFFER_SIZE_def unat_minus_one unat_gt_0 replicate_Suc [symmetric] del: replicate_Suc)
  have "nat n < 10 ^ 10" using assms by simp
  then have ld: "length (nat_digits 10 (nat n)) \<le> 10" by (intro nat_digits_length) auto
  have digits: "ftoa_digits (if s \<and> n = 0 then FFin True 0 else ?v) prec 0 n []
      = Some (replicate (unat prec) ?z @ ascii CHR ''.'' # map (dchar False) (nat_digits 10 (nat n)))"
    using assms(1,3) p ld
    by (simp add: ftoa_digits_def fracs [simplified] extra [simplified] whole_digits_eq BUFFER_SIZE_def word_greater_zero_iff)
  have "ftoa_buf (FFin s (of_int n)) prec width flags
      = Some (ftoa_finish (replicate (unat prec) ?z @ ascii CHR ''.'' # map (dchar False) (nat_digits 10 (nat n)))
          (s \<and> n \<noteq> 0) width flags)"
    by (simp only: ftoa_buf_def Let_def neg abs lim split digits assms(5) not_True_eq_False if_False
        prod.case Option.bind.bind_lunit)
  then show ?thesis
    using assms(6) ld p by (simp add: ftoa_finish_def sign_chars_def BUFFER_SIZE_def)
qed

section \<open>A tie that is not carried\<close>

lemma binary64_round_in:
  assumes "pow2 e \<le> r" "r < pow2 (e + 1)" "- 1022 \<le> e" "r \<noteq> 0"
  shows "fround binary64 s r =
    (let v = of_int (round_even (r / pow2 (e - 52))) * pow2 (e - 52)
     in if pow2 1024 \<le> v then FInf s else FFin s v)"
  using assms ilog2_eq [OF assms(1,2)] by (simp add: fround_def fulp_def max_def)

lemma round_even_near: "of_int n - 1 / 2 < q \<Longrightarrow> q < of_int n + 1 / 2 \<Longrightarrow> round_even q = n"
  by (rule antisym; rule ccontr) (use round_even_half [of q] in \<open>auto simp: abs_le_iff not_le\<close>; linarith)+

text \<open>The \<open>double\<close> nearest to 0.95.\<close>

definition d95 :: fnum where "d95 = FFin False (4278419646001971 / 2 ^ 52)"

lemma ftoa_split_d95: "ftoa_split d95 1 = Some (10, 0)"
proof -
  have t: "f_to_int d95 = Some 0"
    by (simp add: d95_def f_to_int_def ck_def in_int_def floor_eq_iff)
  have s: "fsub binary64 d95 (of_int_f binary64 0) = d95"
    by (simp add: d95_def fsub_def of_int_f_def fround_val_def binary64_round_in [of "-1"] pow2_def round_even_def)
  have m: "fmul binary64 d95 (FFin False 10) = FFin False (19 / 2)"
    by (simp add: d95_def binary64_round_in [of 3] pow2_def
        round_even_near [of 5348024557502464] Let_def)
  have d: "fsub binary64 (FFin False (19 / 2)) (of_int_f binary64 9) = f_half"
    by (simp add: of_int_f_int fsub_def fround_val_def f_half_def binary64_round_in [of "-1"] pow2_def round_even_def)
  have u: "f_to_u32 (FFin False (19 / 2)) = Some 9"
  proof -
    have "\<lfloor>19 / 2 :: rat\<rfloor> = 9" by (simp add: floor_eq_iff)
    then show ?thesis by (simp add: f_to_u32_def)
  qed
  show ?thesis
    by (simp add: ftoa_split_def t pow10_def s m u d f_half_def)
qed

section \<open>Properties\<close>

text \<open>\<open>_ftoa\<close> on a value of magnitude at most \<open>PRINTF_MAX_FLOAT\<close> is defined exactly when no
  precision above 41 is given: the loop that lowers the precision stops after 32 zeros, when the
  buffer is full, and the precision that is left then indexes \<open>pow10[]\<close> out of its bounds.\<close>

theorem ftoa_precision_limit:
  assumes "0 \<le> r" "r \<le> 1000000000"
  shows "fltoa (Suc depth) False out_null m (FFin s r) prec width flags (i, ()) = None
    \<longleftrightarrow> on flags FLAGS_PRECISION \<and> 42 \<le> prec"
proof -
  have special: "\<not> flt (FFin s r) (fneg DBL_MAX)" "\<not> flt DBL_MAX (FFin s r)"
    "\<not> flt PRINTF_MAX_FLOAT (FFin s r)" "\<not> flt (FFin s r) (fneg PRINTF_MAX_FLOAT)"
    using assms by (auto simp: DBL_MAX_def PRINTF_MAX_FLOAT_def)
  have "fltoa (Suc depth) False out_null m (FFin s r) prec width flags (i, ()) = None
      \<longleftrightarrow> fltoa_chars (Suc depth) False (FFin s r) prec width flags = None"
    by (simp only: emitsD [OF fltoa_emits] emit_null split_paired_all bind_eq_None_conv) auto
  also have "\<dots> \<longleftrightarrow> ftoa_buf (FFin s r) prec width flags = None"
    using special by (cases "ftoa_buf (FFin s r) prec width flags") auto
  also have "\<dots> \<longleftrightarrow> on flags FLAGS_PRECISION \<and> 42 \<le> prec"
    by (rule ftoa_buf_precision [OF assms])
  finally show ?thesis .
qed

theorem ftoa_precision_limit_witness:
  "fltoa (Suc 0) False out_null 8 (FFin True (3 / 2)) 42 0 FLAGS_PRECISION (0, ()) = None
    \<longleftrightarrow> on FLAGS_PRECISION FLAGS_PRECISION \<and> 42 \<le> (42 :: u32)"
  by (rule ftoa_precision_limit) simp_all



text \<open>\<open>%.1f\<close> of the \<open>double\<close> nearest to 0.95 prints thirty zeros and 10: its tenths are
  exactly nine and a half, the tie is rounded up to ten tenths, this is not carried into the whole
  part, and the counter of the digits still to print wraps around.\<close>

theorem ftoa_tie_not_carried:
  "format_chars (Suc depth) (map ascii ''%.1f'' @ [0]) [VDouble (const_f B64 (95 / 100))]
    = Some (replicate 30 (ascii CHR ''0'') @ map ascii ''10'')"
proof -
  have c: "const_f binary64 (95 / 100) = d95"
    by (simp add: const_f_def fround_val_def d95_def binary64_round_in [of "-1"] pow2_def
        round_even_near [of 8556839292003942] Let_def)
  have finite: "feq d95 d95" "\<not> flt d95 (FFin False 0)" "\<not> flt d95 (fneg DBL_MAX)" "\<not> flt DBL_MAX d95"
    "\<not> flt PRINTF_MAX_FLOAT d95" "\<not> flt d95 (fneg PRINTF_MAX_FLOAT)"
    by (simp_all add: d95_def DBL_MAX_def PRINTF_MAX_FLOAT_def)
  have l: "limit_prec 1 [] = (1, [])" by (subst limit_prec.simps) simp
  have "frac_digits 10 1 [] = (- 1, map ascii ''01'')"
    by (subst frac_digits.simps; subst frac_digits.simps) (simp add: BUFFER_SIZE_def)
  moreover have "extra_zeros (- 1) (map ascii ''01'') = map ascii ''01'' @ replicate 30 (ascii CHR ''0'')"
    by (simp add: extra_zeros_eq BUFFER_SIZE_def unsigned_minus_1_eq_mask mask_eq_exp_minus_1)
  ultimately have "ftoa_digits d95 1 10 0 [] = Some (map ascii ''01'' @ replicate 30 (ascii CHR ''0''))"
    by (simp add: ftoa_digits_def BUFFER_SIZE_def whole_digits.simps)
  then have "ftoa_buf d95 1 0 FLAGS_PRECISION = Some (map ascii ''01'' @ replicate 30 (ascii CHR ''0''), 0)"
    by (simp add: ftoa_buf_def l ftoa_split_d95 ftoa_finish_def on_def FLAGS_PRECISION_def FLAGS_ZEROPAD_def
        FLAGS_PLUS_def FLAGS_SPACE_def FLAGS_LEFT_def BUFFER_SIZE_def Let_def finite)
  then have "fltoa_chars (Suc depth) False d95 1 0 FLAGS_PRECISION
      = Some (replicate 30 (ascii CHR ''0'') @ map ascii ''10'')"
    by (simp add: finite rev_chars_def blanks_def)
  then show ?thesis
    by (simp add: c [simplified] format_chars.simps(2) parse_directive_def parse_width_def parse_precision_def
      parse_length_def is_digit_def conv_chars_def atoi.simps del: fltoa_chars.simps)
qed

end
