(* ===== verification/Printf_Edges.thy ===== *)
theory Printf_Edges
  imports Printf_Ints
begin

text \<open>
  The integer directives end to end: what \<open>%d\<close>, \<open>%hhd\<close> and \<open>%llb\<close> print for every
  argument, and what the left-justification flag does to the precision.
\<close>

definition decimal :: "nat \<Rightarrow> u8 list" where
  "decimal n = rev (map (dchar False) (nat_digits 10 n))"

lemma ntoa_chars_decimal:
  fixes w :: u32
  assumes "\<forall>f \<in> {FLAGS_HASH, FLAGS_PRECISION, FLAGS_UPPERCASE, FLAGS_LEFT, FLAGS_ZEROPAD, FLAGS_PLUS, FLAGS_SPACE}. \<not> on flags f"
  shows "ntoa_chars w negative (10 :: u32) 0 0 flags
    = Some ((if negative then [ascii CHR ''-''] else []) @ decimal (unat w))"
proof -
  have "unat w < 2 ^ LENGTH(32)" by (rule unsigned_less)
  then have "length (nat_digits 10 (unat w)) \<le> 10" by (intro nat_digits_length) auto
  then show ?thesis
    using ntoa_chars_std [of flags "10 :: u32" w 0 0 negative]
    by (simp add: assms [simplified] std_digits_def sign_chars_def BUFFER_SIZE_def std_int_def decimal_def)
qed

lemma unat_of_int: "0 \<le> k \<Longrightarrow> k < 2 ^ 32 \<Longrightarrow> unat (word_of_int k :: u32) = nat k"
  by (simp add: unsigned_of_int take_bit_int_eq_self)

lemma magnitude_eq:
  fixes w :: u32
  shows "magnitude w = (if sint w = - (2 ^ 31) then None else Some (word_of_int \<bar>sint w\<bar>))"
  by (auto simp: magnitude_def abs_if signed_eq_0_iff)

text \<open>\<open>%d\<close> prints the sign and the decimal digits of every \<open>int\<close> except the least one, for
  which the magnitude is computed by a negation that overflows.\<close>

theorem printf_d_decimal:
  "format_chars depth (map ascii ''%d'' @ [0]) [VWord w]
    = (if sint w = - (2 ^ 31) then None
       else Some ((if sint w < 0 then [ascii CHR ''-''] else []) @ decimal (nat \<bar>sint w\<bar>)))"
proof -
  have b: "- (2 ^ 31) \<le> sint w" "sint w < 2 ^ 31"
    using sint_greater_eq [of w] sint_less [of w] by simp_all
  then have "unat (word_of_int \<bar>sint w\<bar> :: u32) = nat \<bar>sint w\<bar>"
    by (intro unat_of_int) auto
  then show ?thesis
    by (simp add: format_chars.simps(2) parse_directive_def parse_width_def parse_precision_def
        parse_length_def is_digit_def conv_chars_def int_chars_def int_base_def int_flags_def Let_def
        on_def magnitude_eq ntoa_chars_decimal)
qed

text \<open>\<open>%hhd\<close> prints its argument as an \<open>unsigned char\<close>, from 0 to 255: the conversion goes
  through \<open>char\<close>, which has no sign on this target.\<close>

theorem printf_hhd_unsigned:
  "format_chars depth (map ascii ''%hhd'' @ [0]) [VWord w] = Some (decimal (unat w mod 256))"
proof -
  define v :: u32 where "v = ucast (ucast w :: u8)"
  have v: "unat v = unat w mod 256"
    by (simp add: v_def unsigned_ucast_eq take_bit_eq_mod unat_mod)
  have u: "uint v = int (unat v)" by simp
  moreover have "unat v < 256" by (simp add: v)
  ultimately have "uint v < 256" by linarith
  then have "signed_take_bit 31 (uint v) = uint v"
    using uint_nonnegative [of v] by (intro signed_take_bit_int_eq_self) (simp_all add: order_trans [OF _ uint_nonnegative])
  then have sv: "sint v = uint v" "0 \<le> sint v"
    using uint_nonnegative [of v] by (simp_all add: sint_uint del: uint_nonnegative)
  have "sint v \<noteq> - (2 ^ 31)"
  proof
    assume e: "sint v = - (2 ^ 31)"
    show False using sv(2) unfolding e by simp
  qed
  then have "magnitude v = Some v"
    unfolding magnitude_eq by (simp only: if_False abs_of_nonneg [OF sv(2)]) simp
  have "format_chars depth (map ascii ''%hhd'' @ [0]) [VWord w] = do {
      m \<leftarrow> magnitude v;
      ntoa_chars m (sint v < 0) (10 :: u32) 0 0 (FLAGS_SHORT OR FLAGS_CHAR)
    }"
    unfolding v_def
    by (simp add: format_chars.simps(2) parse_directive_def parse_width_def parse_precision_def
        parse_length_def is_digit_def conv_chars_def int_chars_def int_base_def int_flags_def Let_def
        on_def FLAGS_CHAR_def FLAGS_SHORT_def FLAGS_LONG_def FLAGS_LONG_LONG_def FLAGS_HASH_def
        FLAGS_PRECISION_def)
  also have "\<dots> = Some (decimal (unat w mod 256))"
    using \<open>magnitude v = Some v\<close> sv(2)
    by (simp add: ntoa_chars_decimal on_def FLAGS_CHAR_def FLAGS_SHORT_def FLAGS_HASH_def FLAGS_PRECISION_def
        FLAGS_UPPERCASE_def FLAGS_LEFT_def FLAGS_ZEROPAD_def FLAGS_PLUS_def FLAGS_SPACE_def v)
  finally show ?thesis .
qed

text \<open>With the flag \<open>-\<close> the precision of an integer conversion is ignored.\<close>

theorem left_ignores_precision:
  assumes "on flags FLAGS_LEFT" "\<not> on flags FLAGS_HASH"
  shows "ntoa_long out m v negative base prec width flags st = ntoa_long out m v negative base prec' width flags st"
proof -
  have "flags AND NOT FLAGS_HASH = flags"
    using assms(2) by (intro and_not_id) (simp add: on_def)
  then show ?thesis
    using assms by (simp add: ntoa_long_def ntoa_format_def ntoa_format_buf_def ntoa_pad_def ntoa_hash_def)
qed

theorem left_ignores_precision_witness:
  "ntoa_long out_null 8 42 False 10 5 8 FLAGS_LEFT (0, ()) = ntoa_long out_null 8 42 False 10 0 8 FLAGS_LEFT (0, ())"
  by (rule left_ignores_precision) (simp_all add: on_def FLAGS_LEFT_def FLAGS_HASH_def)

text \<open>\<open>%llb\<close> prints at most the 32 lowest binary digits of its argument.\<close>

theorem printf_llb_truncated:
  "format_chars depth (map ascii ''%llb'' @ [0]) [VLong v]
    = Some (rev (map (dchar False) (take 32 (nat_digits 2 (unat v)))))"
proof -
  have d: "ntoa_digits (2 :: u64) v False [] = Some (map (dchar False) (take 32 (nat_digits 2 (unat v))))" for v
    by (simp add: ntoa_digits_eq BUFFER_SIZE_def)
  show ?thesis
    by (simp add: format_chars.simps(2) parse_directive_def parse_width_def parse_precision_def
        parse_length_def is_digit_def conv_chars_def int_chars_def int_base_def int_flags_def Let_def
        on_def ntoa_chars_def ntoa_buf_def d ntoa_format_chars_def ntoa_format_buf_def ntoa_pad_def
        ntoa_hash_def ntoa_sign_def rev_chars_def blanks_def FLAGS_LONG_def FLAGS_LONG_LONG_def
        FLAGS_LEFT_def FLAGS_ZEROPAD_def FLAGS_HASH_def FLAGS_PLUS_def FLAGS_SPACE_def FLAGS_PRECISION_def
        FLAGS_UPPERCASE_def zero_fill_eq)
qed

end
