(* ===== verification/Mu_Schedule.thy ===== *)
theory Mu_Schedule
  imports Simt
begin

text \<open>
  The static scheduler of Muon kernels, \<^verbatim>\<open>lib/src/mu_schedule.cpp\<close>, and the
  compile-time configuration of \<^verbatim>\<open>lib/include/mu_intrinsics.h\<close>.  Every core enters
  \<open>mu_schedule\<close> with one thread, leaves the launch context in its own cache line, spawns its
  worker warps and runs the callback in all threads; the code maps warps to cores in turn.
  The type \<open>uint32_t\<close> is an integer reduced modulo $2^{32}$.  What is observed is the
  sequence of callback invocations.
\<close>

section \<open>Configuration\<close>

definition MU_NUM_THREADS :: int where "MU_NUM_THREADS = 16"
definition MU_NUM_WARPS :: int where "MU_NUM_WARPS = 8"
definition MU_NUM_CORES :: int where "MU_NUM_CORES = 2"
definition MU_BLOCK_NUM_WARPS :: "int \<Rightarrow> int" where "MU_BLOCK_NUM_WARPS n = MU_NUM_CORES * n"
definition MU_BLOCK_SIZE :: "int \<Rightarrow> int" where "MU_BLOCK_SIZE n = MU_BLOCK_NUM_WARPS n * MU_NUM_THREADS"

definition wrap32 :: "int \<Rightarrow> int" where "wrap32 x = x mod 4294967296"

lemma wrap32_id [simp]: "0 \<le> x \<Longrightarrow> x < 4294967296 \<Longrightarrow> wrap32 x = x"
  by (simp add: wrap32_def)

lemma wrap32_range: "0 \<le> wrap32 x" "wrap32 x < 4294967296"
  by (simp_all add: wrap32_def)

section \<open>The launch\<close>

text \<open>The structure \<open>Context\<close>, and one call of the callback.\<close>

record ('c, 'a) mu_context =
  mu_callback :: 'c
  mu_arg :: 'a
  mu_occupancy :: int

datatype ('c, 'a) mu_call = MuCall 'c 'a (mu_tid: int) (mu_threads: int) (mu_block: int)

text \<open>What thread \<open>tid\<close> of warp \<open>wid\<close> of core \<open>cid\<close> in cluster \<open>clid\<close> executes.\<close>

definition mu_schedule_standalone ::
    "('c, 'a) mu_context \<Rightarrow> int \<Rightarrow> int \<Rightarrow> int \<Rightarrow> int \<Rightarrow> ('c, 'a) mu_call option" where
  "mu_schedule_standalone ctx clid cid wid tid = do {
     let occupancy = mu_occupancy ctx;
     w \<leftarrow> c_mul wid MU_NUM_CORES;
     warp_id_rr_in_cluster \<leftarrow> c_add w cid;
     t \<leftarrow> c_mul warp_id_rr_in_cluster MU_NUM_THREADS;
     tid_in_cluster \<leftarrow> c_add t tid;
     let threads_per_cluster = wrap32 (wrap32 (MU_NUM_CORES * occupancy) * MU_NUM_THREADS);
     let tid_global = wrap32 (wrap32 (threads_per_cluster * clid) + tid_in_cluster);
     if threads_per_cluster = 0 then None
     else Some (MuCall (mu_callback ctx) (mu_arg ctx) (tid_global mod threads_per_cluster)
                  threads_per_cluster (tid_global div threads_per_cluster))
   }"

text \<open>The workers and the manager run it in all the threads of their warps.\<close>

definition mu_schedule_warp ::
    "simt \<Rightarrow> ('c, 'a) mu_context \<Rightarrow> int \<Rightarrow> int \<Rightarrow> int \<Rightarrow> ('c, 'a) mu_call list option" where
  "mu_schedule_warp hw ctx clid cid wid =
     traverse (\<lambda>tid. map_option (\<lambda>c. [c]) (mu_schedule_standalone ctx clid cid wid tid))
       (lanes hw MU_NUM_THREADS (- 1))"

text \<open>
  \<open>mu_schedule\<close> on one core, entered by the thread \<open>thread_id\<close> of warp 0 with the content
  \<open>line\<close> of the context's cache line, which nothing initialises (\<^const>\<open>None\<close>).
\<close>

definition mu_schedule ::
    "simt \<Rightarrow> int \<Rightarrow> int \<Rightarrow> int \<Rightarrow> ('c, 'a) mu_context option \<Rightarrow> 'c \<Rightarrow> 'a \<Rightarrow> int \<Rightarrow> ('c, 'a) mu_call list option" where
  "mu_schedule hw clid cid thread_id line cb a occupancy = do {
     let line = (if thread_id = 0
                 then Some \<lparr>mu_callback = cb, mu_arg = a, mu_occupancy = occupancy\<rparr> else line);
     ctx \<leftarrow> line;
     traverse (mu_schedule_warp hw ctx clid cid) (0 # spawned hw MU_NUM_WARPS occupancy)
   }"

text \<open>All cores of all clusters, entered by their thread 0 as the start-up code does.\<close>

definition mu_launch ::
    "simt \<Rightarrow> int \<Rightarrow> 'c \<Rightarrow> 'a \<Rightarrow> int \<Rightarrow> ('c, 'a) mu_call list option" where
  "mu_launch hw clusters cb a occupancy =
     traverse (\<lambda>clid. traverse (\<lambda>cid. mu_schedule hw clid cid 0 None cb a occupancy)
       [0..MU_NUM_CORES - 1]) [0..clusters - 1]"

section \<open>Which threads run\<close>

lemma standalone_eq:
  assumes "0 \<le> wid" "wid < 8" "0 \<le> cid" "cid < 2" "0 \<le> t" "t < 16" "0 \<le> clid" "clid < n"
    and occ: "wid < occupancy" and fits: "32 * occupancy * n \<le> 4294967296" "32 * occupancy < 4294967296"
  shows "mu_schedule_standalone \<lparr>mu_callback = cb, mu_arg = a, mu_occupancy = occupancy\<rparr> clid cid wid t
    = Some (MuCall cb a ((wid * 2 + cid) * 16 + t) (32 * occupancy) clid)"
proof -
  let ?o = "32 * occupancy" and ?t = "(wid * 2 + cid) * 16 + t"
  have o: "0 < ?o" "0 \<le> ?t" "?t < ?o" using assms by auto
  have "?o * (clid + 1) \<le> ?o * n" using assms by (intro mult_left_mono) auto
  then have oc: "?o * clid + ?o \<le> 4294967296" using fits by (simp add: algebra_simps)
  have "0 \<le> ?o * clid" using o assms(7) by (intro mult_nonneg_nonneg) auto
  then have w: "wrap32 (?o * clid) = ?o * clid" "wrap32 (?o * clid + ?t) = ?o * clid + ?t"
    using oc o by (intro wrap32_id; linarith)+
  have w': "wrap32 (2 * occupancy) = 2 * occupancy" "wrap32 (2 * occupancy * 16) = ?o"
    using o fits(2) by auto
  have dm: "(?o * clid + ?t) mod ?o = ?t" "(?o * clid + ?t) div ?o = clid"
    using divmod_block [OF o(2,3)] by simp_all
  have i: "in_int (wid * 2)" "in_int (wid * 2 + cid)" "in_int ((wid * 2 + cid) * 16)" "in_int ?t"
    using assms unfolding in_int_def by auto
  show ?thesis
    unfolding mu_schedule_standalone_def MU_NUM_CORES_def MU_NUM_THREADS_def Let_def mu_context.simps
    using o by (simp only: c_mul_in c_add_in i w w' dm Option.bind.bind_lunit) simp
qed

context simt_isa
begin

text \<open>The calls of one cluster, as a sum over cores and warps.\<close>

lemma mu_schedule_warp_calls:
  assumes "0 \<le> wid" "wid < 8" "0 \<le> cid" "cid < 2" "0 \<le> clid" "clid < n"
    and "wid < occupancy" "32 * occupancy * n \<le> 4294967296" "32 * occupancy < 4294967296"
  shows "\<exists>cs. mu_schedule_warp hw \<lparr>mu_callback = cb, mu_arg = a, mu_occupancy = occupancy\<rparr> clid cid wid = Some cs
    \<and> mset cs = mset (block (\<lambda>t. MuCall cb a t (32 * occupancy) clid)
        ((wid * 2 + cid) * 16) ((wid * 2 + cid) * 16 + 16))"
proof -
  let ?q = "(wid * 2 + cid) * 16" and ?ev = "\<lambda>t. MuCall cb a t (32 * occupancy) clid"
  have "\<exists>cs. mu_schedule_warp hw \<lparr>mu_callback = cb, mu_arg = a, mu_occupancy = occupancy\<rparr> clid cid wid = Some cs
      \<and> mset cs = mset (concat (map (\<lambda>t. [?ev (?q + t)]) [0..16 - 1]))"
    unfolding mu_schedule_warp_def MU_NUM_THREADS_def
  proof (rule traverse_mset)
    show "mset (lanes hw 16 (- 1)) = mset [0..16 - 1]" by (rule lanes_all) simp
  qed (auto simp: standalone_eq [OF assms(1-4) _ _ assms(5-9)])
  then show ?thesis using block_shifted [of ?ev ?q 16] by (simp only:)
qed

text \<open>The calls of one core, as blocks of sixteen threads.\<close>

lemma mu_schedule_calls:
  assumes "0 \<le> cid" "cid < 2" "0 \<le> clid" "clid < n"
    and "1 \<le> occupancy" "32 * occupancy * n \<le> 4294967296" "32 * occupancy < 4294967296"
  shows "\<exists>cs. mu_schedule hw clid cid 0 None cb a occupancy = Some cs
    \<and> mset cs = mset (concat (map (\<lambda>wid. block (\<lambda>t. MuCall cb a t (32 * occupancy) clid)
        ((wid * 2 + cid) * 16) ((wid * 2 + cid) * 16 + 16)) [0..min occupancy 8 - 1]))"
proof -
  have "mset (0 # spawned hw MU_NUM_WARPS occupancy) = mset [0..min occupancy 8 - 1]"
    using upto_rec1 [of 0 "min occupancy 8 - 1"] assms(5) by (simp add: spawned_warps MU_NUM_WARPS_def)
  then show ?thesis
    unfolding mu_schedule_def Let_def if_True simp_thms Option.bind.bind_lunit
    by (rule traverse_mset, intro mu_schedule_warp_calls [OF _ _ assms(1-4)]) (use assms(5-7) in auto)
qed

text \<open>The calls of one cluster: the first threads of the block, as many as there are warps.\<close>

lemma mu_cluster_calls:
  assumes "0 \<le> clid" "clid < n"
    and "1 \<le> occupancy" "32 * occupancy * n \<le> 4294967296" "32 * occupancy < 4294967296"
  shows "\<exists>cs. traverse (\<lambda>cid. mu_schedule hw clid cid 0 None cb a occupancy) [0..MU_NUM_CORES - 1] = Some cs
    \<and> mset cs = mset (block (\<lambda>t. MuCall cb a t (32 * occupancy) clid) 0 (32 * min occupancy 8))"
proof -
  let ?ev = "\<lambda>t. MuCall cb a t (32 * occupancy) clid" and ?w = "min occupancy 8"
  let ?blk = "\<lambda>q. block ?ev (q * 16) (q * 16 + 16)"
  have "\<exists>cs. traverse (\<lambda>cid. mu_schedule hw clid cid 0 None cb a occupancy) [0..MU_NUM_CORES - 1] = Some cs
      \<and> mset cs = mset (concat (map (\<lambda>cid. concat (map (\<lambda>wid. ?blk (wid * 2 + cid)) [0..?w - 1])) [0..2 - 1]))"
    unfolding MU_NUM_CORES_def
    by (rule traverse_mset [OF refl], rule mu_schedule_calls [OF _ _ assms]) auto
  moreover have "mset (concat (map (\<lambda>cid. concat (map (\<lambda>wid. ?blk (wid * 2 + cid)) [0..?w - 1])) [0..2 - 1]))
      = (\<Sum>c = 0..<2. \<Sum>v = 0..<?w. mset (?blk (v * 2 + c)))"
    by (simp only: mset_concat_upto)
  moreover have "\<dots> = (\<Sum>q = 0..<2 * ?w. mset (?blk q))"
    using assms(3) by (intro sum_deal) auto
  moreover have "\<dots> = mset (concat (map (\<lambda>q. block ?ev (q * 16) ((q + 1) * 16)) [0..2 * ?w - 1]))"
    by (simp only: mset_concat_upto distrib_right mult_1)
  moreover have "concat (map (\<lambda>q. block ?ev (q * 16) ((q + 1) * 16)) [0..2 * ?w - 1]) = block ?ev 0 (32 * ?w)"
    using concat_block [of "2 * ?w" "\<lambda>q. q * 16" ?ev] assms(3) by simp
  ultimately show ?thesis by metis
qed

lemma mu_launch_calls:
  assumes "1 \<le> occupancy" "32 * occupancy * n \<le> 4294967296" "32 * occupancy < 4294967296"
  shows "\<exists>cs. mu_launch hw n cb a occupancy = Some cs
    \<and> mset cs = mset (concat (map (\<lambda>clid. block (\<lambda>t. MuCall cb a t (32 * occupancy) clid) 0
        (32 * min occupancy 8)) [0..n - 1]))"
  unfolding mu_launch_def by (rule traverse_mset [OF refl], rule mu_cluster_calls [OF _ _ assms]) auto

end

section \<open>Properties\<close>

text \<open>C12: for every occupancy up to the number of warps of a core, \<open>mu_schedule\<close> runs the
  callback exactly once for each thread of each thread block, one block per cluster, and tells
  it the size of the block; beyond that occupancy it announces the larger size but runs only
  the threads of the warps that exist.\<close>

theorem mu_schedule_covers_grid:
  assumes "simt_isa hw" "1 \<le> occupancy" "32 * occupancy * clusters \<le> 4294967296" "32 * occupancy < 4294967296"
  shows "\<exists>cs. mu_launch hw clusters cb a occupancy = Some cs
    \<and> mset cs = mset (concat (map (\<lambda>blk. block (\<lambda>t. MuCall cb a t (MU_BLOCK_SIZE occupancy) blk) 0
        (MU_BLOCK_SIZE (min occupancy MU_NUM_WARPS))) [0..clusters - 1]))"
proof -
  have "MU_BLOCK_SIZE k = 32 * k" for k
    by (simp add: MU_BLOCK_SIZE_def MU_BLOCK_NUM_WARPS_def MU_NUM_CORES_def MU_NUM_THREADS_def)
  then show ?thesis
    using simt_isa.mu_launch_calls [OF assms] by (simp add: MU_NUM_WARPS_def)
qed

theorem mu_schedule_covers_grid_witness:
  "\<exists>cs. mu_launch std_simt 1 ''vecadd'' () 3 = Some cs
    \<and> mset cs = mset (concat (map (\<lambda>blk. block (\<lambda>t. MuCall ''vecadd'' () t (MU_BLOCK_SIZE 3) blk) 0
        (MU_BLOCK_SIZE (min 3 MU_NUM_WARPS))) [0..1 - 1]))"
  by (rule mu_schedule_covers_grid) (simp_all add: std.simt_isa_axioms)

end
