(* ===== verification/Tapeout.thy ===== *)
theory Tapeout
  imports Mu_Schedule
begin

text \<open>
  The device half of \<^verbatim>\<open>lib/include/rad_tapeout.h\<close> without the epilogue: the cache
  geometry, the drains, the postbox in \<open>printBuf\<close> and \<open>rad_tapeout_begin\<close>.  A drain is
  the sequence of its stores, as pairs of an address and a value; the postbox is a memory of
  32-bit words indexed by their byte addresses.
\<close>

section \<open>Cache geometry\<close>

definition RAD_L0D_SETS :: nat where "RAD_L0D_SETS = 64"
definition RAD_L0D_WAYS :: nat where "RAD_L0D_WAYS = 1"
definition RAD_L0D_LINE_BYTES :: nat where "RAD_L0D_LINE_BYTES = 64"
definition RAD_L0D_LINES :: nat where "RAD_L0D_LINES = RAD_L0D_SETS * RAD_L0D_WAYS"
definition RAD_L0D_BYTES :: nat where "RAD_L0D_BYTES = RAD_L0D_LINES * RAD_L0D_LINE_BYTES"
definition RAD_L1_SETS :: nat where "RAD_L1_SETS = 256"
definition RAD_L1_WAYS :: nat where "RAD_L1_WAYS = 4"
definition RAD_L1_LINE_BYTES :: nat where "RAD_L1_LINE_BYTES = 32"
definition RAD_L1_BYTES :: nat where "RAD_L1_BYTES = RAD_L1_SETS * RAD_L1_WAYS * RAD_L1_LINE_BYTES"
definition RAD_L1_DRAIN_MULT :: nat where "RAD_L1_DRAIN_MULT = 4"
definition RAD_DRAIN_SCRATCH :: u32 where "RAD_DRAIN_SCRATCH = 0x1F200000"

definition RAD_L0I_FLUSH_MMIO :: "u32 \<Rightarrow> u32" where "RAD_L0I_FLUSH_MMIO cid = push_bit 9 cid + 0x80200"
definition RAD_L0D_FLUSH_MMIO :: "u32 \<Rightarrow> u32" where "RAD_L0D_FLUSH_MMIO cid = push_bit 9 cid + 0x80300"

lemmas geometry = RAD_L0D_SETS_def RAD_L0D_WAYS_def RAD_L0D_LINE_BYTES_def RAD_L0D_LINES_def
  RAD_L0D_BYTES_def RAD_L1_SETS_def RAD_L1_WAYS_def RAD_L1_LINE_BYTES_def RAD_L1_BYTES_def
  RAD_L1_DRAIN_MULT_def RAD_DRAIN_SCRATCH_def

section \<open>Drains\<close>

text \<open>\<open>for (l = 0; l < n; l++) p[l * words] = l + 1\<close>, with 32-bit words.\<close>

definition line_stores :: "u32 \<Rightarrow> nat \<Rightarrow> nat \<Rightarrow> (u32 \<times> u32) list" where
  "line_stores p n words = map (\<lambda>l. (p + 4 * (of_nat l * of_nat words), of_nat l + 1)) [0..<n]"

definition rad_l0d_drain :: "u32 \<Rightarrow> (u32 \<times> u32) list" where
  "rad_l0d_drain cid =
     line_stores (RAD_DRAIN_SCRATCH + cid * of_nat RAD_L0D_BYTES) RAD_L0D_LINES (RAD_L0D_LINE_BYTES div 4)"

definition rad_l0d_drain_at :: "u32 \<Rightarrow> u32 \<Rightarrow> u32 \<Rightarrow> (u32 \<times> u32) list" where
  "rad_l0d_drain_at cid base lines =
     line_stores (base + cid * (lines * of_nat RAD_L0D_LINE_BYTES)) (unat lines) (RAD_L0D_LINE_BYTES div 4)"

definition rad_l1_drain :: "u32 \<Rightarrow> (u32 \<times> u32) list" where
  "rad_l1_drain cid =
     line_stores (RAD_DRAIN_SCRATCH + 0x00100000 + cid * (of_nat RAD_L1_DRAIN_MULT * of_nat RAD_L1_BYTES))
       (RAD_L1_DRAIN_MULT * RAD_L1_BYTES div RAD_L1_LINE_BYTES) (RAD_L1_LINE_BYTES div 4)"

text \<open>
  The macro \<open>RAD_L0D_DRAIN\<close> between its two barriers: what the thread does, if it is the
  executor of its core.
\<close>

definition drain_executor :: "int \<Rightarrow> bool" where
  "drain_executor tid_in_threadblock =
     (tid_in_threadblock div MU_NUM_THREADS < MU_NUM_CORES \<and> tid_in_threadblock mod MU_NUM_THREADS = 0)"

definition RAD_L0D_DRAIN :: "u32 \<Rightarrow> int \<Rightarrow> (u32 \<times> u32) list" where
  "RAD_L0D_DRAIN cid tid_in_threadblock = (if drain_executor tid_in_threadblock then rad_l0d_drain cid else [])"

section \<open>The postbox\<close>

definition RAD_PB_BASE :: u32 where "RAD_PB_BASE = 0x80000"
definition RAD_PB_SLOT :: "u32 \<Rightarrow> u32" where "RAD_PB_SLOT i = RAD_PB_BASE + i * 8"
definition RAD_PB_EPI_CORE :: nat where "RAD_PB_EPI_CORE = 16"
definition RAD_PB_EPI_START :: nat where "RAD_PB_EPI_START = 18"
definition RAD_PB_EPI_TRACE :: nat where "RAD_PB_EPI_TRACE = 20"
definition RAD_PB_EPI_WARP :: nat where "RAD_PB_EPI_WARP = 24"
definition RAD_EPI_T_BARA :: u32 where "RAD_EPI_T_BARA = 0xA0"
definition RAD_EPI_T_DRAIN :: u32 where "RAD_EPI_T_DRAIN = 0xA1"
definition RAD_EPI_T_BARB :: u32 where "RAD_EPI_T_BARB = 0xA2"
definition RAD_EPI_T_POLLED :: u32 where "RAD_EPI_T_POLLED = 0xA3"
definition RAD_EPI_DONE_MAGIC :: u32 where "RAD_EPI_DONE_MAGIC = 0xD01E0000"
definition RAD_EPI_STOP_MAGIC :: u32 where "RAD_EPI_STOP_MAGIC = 0x570BBED0"

definition RAD_EPI_NEXT_GEN :: "u32 \<Rightarrow> u32" where
  "RAD_EPI_NEXT_GEN g = (((g + 1) AND 0x00FFFFFF) OR 0xAC000000)"

type_synonym words = "u32 \<Rightarrow> u32"

definition rad_pb_put :: "u32 \<Rightarrow> u32 \<Rightarrow> words \<Rightarrow> words" where
  "rad_pb_put slot v mem = (let p = RAD_PB_SLOT slot in mem(p := v, p + 4 := v))"

definition rad_pb_get :: "u32 \<Rightarrow> words \<Rightarrow> u32" where
  "rad_pb_get slot mem = mem (RAD_PB_SLOT slot)"

text \<open>The host's view: cluster \<open>cl\<close> of 1 MB at \<open>0x40000000\<close>, read 8 bytes at a time.\<close>

definition RAD_PB_HOST :: "u64 \<Rightarrow> u64 \<Rightarrow> u64" where
  "RAD_PB_HOST cl i = 0x40000000 + 0x100000 * cl + 0x80000 + i * 8"

definition host_read64 :: "words \<Rightarrow> u64 \<Rightarrow> u64" where
  "host_read64 mem a =
     (let d = ucast (a - 0x40000000) :: u32 in ucast (mem d) OR push_bit 32 (ucast (mem (d + 4))))"

definition rad_host_postbox :: "u32 \<Rightarrow> words \<Rightarrow> u32" where
  "rad_host_postbox slot mem = ucast (host_read64 mem (RAD_PB_HOST 0 (ucast slot)))"

text \<open>
  \<open>rad_tapeout_begin\<close> on core \<open>cid\<close>: the slots of the warps \<open>cid, cid + MU_NUM_CORES, \<dots> < 8\<close>
  are cleared, then the start generation advances.
\<close>

definition begin_warps :: "nat \<Rightarrow> nat list" where
  "begin_warps cid = filter (\<lambda>w. cid \<le> w \<and> (w - cid) mod nat MU_NUM_CORES = 0) [0..<8]"

definition rad_tapeout_begin :: "nat \<Rightarrow> words \<Rightarrow> words" where
  "rad_tapeout_begin cid mem =
     (let mem = rad_pb_put (of_nat (RAD_PB_EPI_CORE + cid)) 0 mem;
          mem = rad_pb_put (of_nat (RAD_PB_EPI_TRACE + cid)) 0 mem;
          mem = fold (\<lambda>w. rad_pb_put (of_nat (RAD_PB_EPI_WARP + w)) 0) (begin_warps cid) mem
      in rad_pb_put (of_nat (RAD_PB_EPI_START + cid))
           (RAD_EPI_NEXT_GEN (rad_pb_get (of_nat (RAD_PB_EPI_START + cid)) mem)) mem)"

section \<open>What a drain touches\<close>

definition l0d_set :: "u32 \<Rightarrow> nat" where "l0d_set a = unat a div RAD_L0D_LINE_BYTES mod RAD_L0D_SETS"
definition l1_set :: "u32 \<Rightarrow> nat" where "l1_set a = unat a div RAD_L1_LINE_BYTES mod RAD_L1_SETS"

text \<open>The lines of consecutive addresses fall into consecutive sets, also across the wrap-around.\<close>

lemma unat_add_mod: "unat (a + b) = (unat a + unat b) mod 4294967296" for a b :: u32
  by (simp add: unat_word_ariths)

lemma div_mod_swap: "0 < b \<Longrightarrow> x div b mod c = x mod (b * c) div b" for b c x :: nat
  by (simp add: mod_mult2_eq)

lemma set_index_add:
  fixes a b :: u32
  assumes "unat b = l * line mod 4294967296" "line * sets dvd 4294967296" "0 < line"
  shows "unat (a + b) div line mod sets = (unat a div line + l) mod sets"
proof -
  have "unat (a + b) mod (line * sets) = (unat a + l * line) mod (line * sets)"
    unfolding unat_add_mod assms(1) using assms(2) by (simp add: mod_mod_cancel mod_add_right_eq)
  then show ?thesis
    using assms(3) by (simp add: div_mod_swap [OF assms(3)])
      (simp add: div_mod_swap [OF assms(3), symmetric] add.commute)
qed

text \<open>Any \<open>sets\<close> consecutive lines touch every set exactly once.\<close>

lemma rotation: "0 < n \<Longrightarrow> mset (map (\<lambda>l. (k + l) mod n) [0..<n]) = mset [0..<n]" for k n :: nat
proof -
  assume n: "0 < n"
  have "inj_on (\<lambda>l. (k + l) mod n) {0..<n}"
  proof (rule inj_onI)
    fix x y assume xy: "x \<in> {0..<n}" "y \<in> {0..<n}" and e: "(k + x) mod n = (k + y) mod n"
    have "n dvd (y - x)" if "x \<le> y"
      using e that mod_eq_dvd_iff_nat [of "k + x" "k + y" n] by simp
    moreover have "n dvd (x - y)" if "y \<le> x"
      using e that mod_eq_dvd_iff_nat [of "k + y" "k + x" n] by simp
    ultimately show "x = y"
      using xy by (cases x y rule: le_cases) (auto dest: dvd_imp_le)
  qed
  moreover have "(\<lambda>l. (k + l) mod n) ` {0..<n} \<subseteq> {0..<n}" using n by auto
  ultimately have "(\<lambda>l. (k + l) mod n) ` {0..<n} = {0..<n}"
    by (simp add: endo_inj_surj)
  with \<open>inj_on _ _\<close> show ?thesis
    by (simp add: mset_map image_mset_mset_set)
qed

lemma rotations:
  "0 < n \<Longrightarrow> mset (map (\<lambda>l. (k + l) mod n) [0..<m * n]) = repeat_mset m (mset [0..<n])" for k n :: nat
proof (induction m)
  case (Suc m)
  have "[0..<Suc m * n] = [0..<m * n] @ map (\<lambda>l. m * n + l) [0..<n]"
    using upt_add_eq_append [of 0 "m * n" n] by (simp add: map_add_upt add.commute)
  then have "mset (map (\<lambda>l. (k + l) mod n) [0..<Suc m * n])
      = mset (map (\<lambda>l. (k + l) mod n) [0..<m * n]) + mset (map (\<lambda>l. (k + (m * n + l)) mod n) [0..<n])"
    by (simp only: map_append mset_append map_map comp_def)
  moreover have "(k + (m * n + l)) mod n = (k + l) mod n" for l
    by (metis add.left_commute mod_mult_self3)
  ultimately show ?case using Suc rotation [of n k] by simp
qed simp

lemma offset_unat: "unat (4 * (of_nat l * of_nat w) :: u32) = l * (4 * w) mod 4294967296"
proof -
  have "(4 * (of_nat l * of_nat w) :: u32) = of_nat (l * (4 * w))" by simp
  then show ?thesis by (simp only: unat_of_nat) simp
qed

lemma line_stores_sets:
  assumes "4 * w = line" "line * sets dvd 4294967296" "0 < line"
  shows "map (\<lambda>s. unat (fst s) div line mod sets) (line_stores p n w)
    = map (\<lambda>l. (unat p div line + l) mod sets) [0..<n]"
  using assms by (simp add: line_stores_def comp_def set_index_add [OF offset_unat [of _ w, unfolded assms(1)] assms(2,3)])

lemma line_stores_fst:
  assumes "unat p + 4 * w * n \<le> 4294967296"
  shows "map (\<lambda>s. unat (fst s)) (line_stores p n w) = map (\<lambda>l. unat p + l * (4 * w)) [0..<n]"
proof -
  have "unat (p + 4 * (of_nat l * of_nat w)) = unat p + l * (4 * w)" if "l < n" for l
  proof (cases "w = 0")
    case False
    then have "l * (4 * w) + 1 \<le> 4 * w * n"
      using mult_le_mono2 [of "Suc l" n "4 * w"] that by (simp add: algebra_simps)
    then have "unat p + l * (4 * w) < 4294967296" using assms by linarith
    then show ?thesis unfolding unat_add_mod offset_unat by simp
  qed simp
  then show ?thesis by (simp add: line_stores_def)
qed

text \<open>Where the drains of a core store.\<close>

definition L1_DRAIN_LINES :: nat where
  "L1_DRAIN_LINES = RAD_L1_DRAIN_MULT * RAD_L1_BYTES div RAD_L1_LINE_BYTES"

lemma L1_DRAIN_LINES_eq: "L1_DRAIN_LINES = RAD_L1_DRAIN_MULT * RAD_L1_WAYS * RAD_L1_SETS" "L1_DRAIN_LINES = 4096"
  by (simp_all add: L1_DRAIN_LINES_def geometry)

lemma two_cores: "cid < 2 \<Longrightarrow> cid = 0 \<or> cid = Suc 0"
  by auto

lemma l0d_addresses:
  assumes "cid < 2"
  shows "map (\<lambda>s. unat (fst s)) (rad_l0d_drain (of_nat cid))
    = map (\<lambda>l. 0x1F200000 + cid * 4096 + l * 64) [0..<RAD_L0D_LINES]"
proof -
  have "unat (RAD_DRAIN_SCRATCH + of_nat cid * of_nat RAD_L0D_BYTES) = 0x1F200000 + cid * 4096"
    using two_cores [OF assms] by (auto simp: geometry)
  then show ?thesis
    using assms unfolding rad_l0d_drain_def by (subst line_stores_fst) (simp_all add: geometry del: upt_rec_numeral)
qed

lemma l1_addresses:
  assumes "cid < 2"
  shows "map (\<lambda>s. unat (fst s)) (rad_l1_drain (of_nat cid))
    = map (\<lambda>l. 0x1F300000 + cid * 131072 + l * 32) [0..<L1_DRAIN_LINES]"
proof -
  have "unat (RAD_DRAIN_SCRATCH + 0x00100000 + of_nat cid * (of_nat RAD_L1_DRAIN_MULT * of_nat RAD_L1_BYTES))
      = 0x1F300000 + cid * 131072"
    using two_cores [OF assms] by (auto simp: geometry)
  then show ?thesis
    using assms unfolding rad_l1_drain_def L1_DRAIN_LINES_def [symmetric]
    by (subst line_stores_fst) (simp_all add: L1_DRAIN_LINES_eq(2) RAD_L1_LINE_BYTES_def del: upt_rec_numeral)
qed

section \<open>Generations\<close>

lemma next_gen_take: "take_bit 24 (RAD_EPI_NEXT_GEN g) = take_bit 24 (g + 1)"
proof -
  have m: "(0x00FFFFFF :: u32) = mask 24" by (simp add: mask_eq_exp_minus_1)
  have "(0xAC000000 :: u32) AND mask 24 = 0" by (simp add: m [symmetric])
  then show ?thesis
    by (simp only: RAD_EPI_NEXT_GEN_def m take_bit_eq_mask bit.conj_disj_distrib2 and.assoc and.idem or.right_neutral)
qed

lemma low24: "unat (take_bit 24 w) = unat w mod 16777216" for w :: u32
  by (simp only: unsigned_take_bit_eq) (simp add: take_bit_eq_mod)

lemma next_gen_low: "unat (RAD_EPI_NEXT_GEN g) mod 16777216 = (unat g + 1) mod 16777216"
proof -
  have "unat (RAD_EPI_NEXT_GEN g) mod 16777216 = unat (g + 1) mod 16777216"
    by (simp only: low24 [symmetric] next_gen_take)
  then show ?thesis unfolding unat_add_mod by (simp add: mod_mod_cancel)
qed

lemma next_gen_iter: "unat ((RAD_EPI_NEXT_GEN ^^ k) g) mod 16777216 = (unat g + k) mod 16777216"
proof (induction k)
  case (Suc k)
  let ?x = "(RAD_EPI_NEXT_GEN ^^ k) g"
  have "unat ((RAD_EPI_NEXT_GEN ^^ Suc k) g) mod 16777216 = (unat ?x mod 16777216 + 1) mod 16777216"
    unfolding funpow.simps comp_def next_gen_low by (rule mod_add_left_eq [symmetric])
  also have "\<dots> = (unat g + k + 1) mod 16777216"
    unfolding Suc by (rule mod_add_left_eq)
  finally show ?case by (simp only: add_Suc_right Suc_eq_plus1 add.assoc)
qed (simp only: funpow.simps id_apply add_0_right)

lemma next_gen_fresh:
  assumes "0 < k" "k < 2 ^ 24"
  shows "(RAD_EPI_NEXT_GEN ^^ k) g \<noteq> g"
proof
  assume "(RAD_EPI_NEXT_GEN ^^ k) g = g"
  then have "(unat g + k) mod 16777216 = unat g mod 16777216"
    using next_gen_iter [of k g] by simp
  then have "16777216 dvd k"
    using mod_eq_dvd_iff_nat [of "unat g" "unat g + k" 16777216] by simp
  then show False using assms dvd_imp_le [of 16777216 k] by simp
qed

section \<open>The postbox as an array of slots\<close>

text \<open>For the 64 slots of the map, puts and gets behave as on an array.\<close>

lemma slot_address:
  assumes "i < 64"
  shows "unat (RAD_PB_SLOT (of_nat i)) = 0x80000 + 8 * i" "unat (RAD_PB_SLOT (of_nat i) + 4) = 0x80004 + 8 * i"
proof -
  have "RAD_PB_SLOT (of_nat i) = of_nat (0x80000 + 8 * i)" "RAD_PB_SLOT (of_nat i) + 4 = of_nat (0x80004 + 8 * i)"
    by (simp_all add: RAD_PB_SLOT_def RAD_PB_BASE_def)
  then show "unat (RAD_PB_SLOT (of_nat i)) = 0x80000 + 8 * i" "unat (RAD_PB_SLOT (of_nat i) + 4) = 0x80004 + 8 * i"
    using assms by (simp_all only: unat_of_nat) simp_all
qed

lemma slots_apart:
  assumes "i < 64" "j < 64"
  shows "RAD_PB_SLOT (of_nat i) = RAD_PB_SLOT (of_nat j) \<longleftrightarrow> i = j"
    and "RAD_PB_SLOT (of_nat i) \<noteq> RAD_PB_SLOT (of_nat j) + 4"
  unfolding word_unat_eq_iff slot_address [OF assms(1)] slot_address [OF assms(2)] by presburger+

lemma rad_pb_get_put:
  "i < 64 \<Longrightarrow> j < 64 \<Longrightarrow> rad_pb_get (of_nat i) (rad_pb_put (of_nat j) v mem)
    = (if i = j then v else rad_pb_get (of_nat i) mem)"
  by (simp add: rad_pb_get_def rad_pb_put_def Let_def slots_apart)

lemma host_address:
  assumes "i < 64"
  shows "ucast (RAD_PB_HOST 0 (ucast (of_nat i :: u32)) - 0x40000000) = RAD_PB_SLOT (of_nat i)"
proof -
  have "take_bit 32 i = i"
    using assms by (simp add: take_bit_nat_eq_self_iff)
  then have "(ucast (of_nat i :: u32) :: u64) = of_nat i"
    by (simp add: unsigned_of_nat)
  then have "RAD_PB_HOST 0 (ucast (of_nat i :: u32)) - 0x40000000 = of_nat (0x80000 + i * 8)"
    by (simp add: RAD_PB_HOST_def)
  moreover have "(ucast (of_nat (0x80000 + i * 8) :: u64) :: u32) = of_nat (0x80000 + i * 8)"
    using assms by (simp add: unsigned_of_nat take_bit_nat_eq_self del: of_nat_add of_nat_mult)
  ultimately show ?thesis
    by (simp only: RAD_PB_SLOT_def RAD_PB_BASE_def) simp
qed

lemma host_reads_slot:
  assumes "i < 64"
  shows "rad_host_postbox (of_nat i) mem = rad_pb_get (of_nat i) mem"
proof -
  have "(ucast (ucast a OR push_bit 32 (ucast b) :: u64) :: u32) = a" for a b :: u32
    by (rule bit_word_eqI) (auto simp: bit_simps)
  then show ?thesis
    by (simp add: rad_host_postbox_def host_read64_def rad_pb_get_def Let_def host_address [OF assms])
qed

section \<open>Properties\<close>

text \<open>C13: \<open>rad_l0d_drain\<close> stores exactly once into every set of the direct-mapped L0d, so that
  every dirty line is evicted, on any core; \<open>rad_l0d_drain_at\<close> touches every set whenever it is
  given at least \<open>RAD_L0D_LINES\<close> lines, for any base, also an unaligned one; \<open>rad_l1_drain\<close>
  stores into every set of the shared L1 four times as many lines as the set has ways.\<close>

theorem drains_sweep_caches:
  "mset (map (\<lambda>s. l0d_set (fst s)) (rad_l0d_drain cid)) = mset [0..<RAD_L0D_SETS]
   \<and> (RAD_L0D_LINES \<le> unat lines \<longrightarrow> set (map (\<lambda>s. l0d_set (fst s)) (rad_l0d_drain_at cid base lines)) = {0..<RAD_L0D_SETS})
   \<and> mset (map (\<lambda>s. l1_set (fst s)) (rad_l1_drain cid)) = repeat_mset (RAD_L1_DRAIN_MULT * RAD_L1_WAYS) (mset [0..<RAD_L1_SETS])"
proof (intro conjI)
  have d: "RAD_L0D_LINE_BYTES * RAD_L0D_SETS dvd 4294967296" "RAD_L1_LINE_BYTES * RAD_L1_SETS dvd 4294967296"
    by (simp_all add: geometry)
  have w: "4 * (RAD_L0D_LINE_BYTES div 4) = RAD_L0D_LINE_BYTES" "4 * (RAD_L1_LINE_BYTES div 4) = RAD_L1_LINE_BYTES"
    "0 < RAD_L0D_LINE_BYTES" "0 < RAD_L1_LINE_BYTES" "0 < RAD_L0D_SETS" "0 < RAD_L1_SETS" "RAD_L0D_LINES = RAD_L0D_SETS"
    by (simp_all add: geometry)
  show "mset (map (\<lambda>s. l0d_set (fst s)) (rad_l0d_drain cid)) = mset [0..<RAD_L0D_SETS]"
    unfolding rad_l0d_drain_def l0d_set_def line_stores_sets [OF w(1) d(1) w(3)] w(7) by (rule rotation [OF w(5)])
  show "mset (map (\<lambda>s. l1_set (fst s)) (rad_l1_drain cid)) = repeat_mset (RAD_L1_DRAIN_MULT * RAD_L1_WAYS) (mset [0..<RAD_L1_SETS])"
    unfolding rad_l1_drain_def l1_set_def line_stores_sets [OF w(2) d(2) w(4)] L1_DRAIN_LINES_def [symmetric] L1_DRAIN_LINES_eq(1)
    by (rule rotations [OF w(6)])
  show "RAD_L0D_LINES \<le> unat lines \<longrightarrow> set (map (\<lambda>s. l0d_set (fst s)) (rad_l0d_drain_at cid base lines)) = {0..<RAD_L0D_SETS}"
  proof
    assume le: "RAD_L0D_LINES \<le> unat lines"
    let ?f = "\<lambda>l. (unat (base + cid * (lines * of_nat RAD_L0D_LINE_BYTES)) div RAD_L0D_LINE_BYTES + l) mod RAD_L0D_SETS"
    have "{0..<RAD_L0D_SETS} = ?f ` {0..<RAD_L0D_SETS}"
      using rotation [OF w(5), THEN mset_eq_setD] by simp
    also have "\<dots> \<subseteq> ?f ` {0..<unat lines}" using le w(7) by auto
    finally have "{0..<RAD_L0D_SETS} \<subseteq> ?f ` {0..<unat lines}" .
    moreover have "?f ` {0..<unat lines} \<subseteq> {0..<RAD_L0D_SETS}" using w(5) by auto
    ultimately have "?f ` {0..<unat lines} = {0..<RAD_L0D_SETS}" by simp
    then show "set (map (\<lambda>s. l0d_set (fst s)) (rad_l0d_drain_at cid base lines)) = {0..<RAD_L0D_SETS}"
      unfolding rad_l0d_drain_at_def l0d_set_def line_stores_sets [OF w(1) d(1) w(3)] by simp
  qed
qed

theorem drains_sweep_caches_witness:
  "set (map (\<lambda>s. l0d_set (fst s)) (rad_l0d_drain_at 1 0x1F200004 64)) = {0..<RAD_L0D_SETS}"
  using drains_sweep_caches [of 1 64 "0x1F200004"] by (simp add: RAD_L0D_LINES_def RAD_L0D_SETS_def RAD_L0D_WAYS_def)

text \<open>The scratch windows of the two cores, and those of the two cache levels, do not
  overlap, and all of them lie between \<open>0x1F200000\<close> and \<open>0x1F340000\<close>.\<close>

theorem drain_windows_disjoint:
  assumes "c < 2" "c' < 2"
  shows "(\<forall>s \<in> set (rad_l0d_drain (of_nat c)) \<union> set (rad_l1_drain (of_nat c)). 0x1F200000 \<le> unat (fst s) \<and> unat (fst s) < 0x1F340000)
    \<and> fst ` set (rad_l0d_drain (of_nat c)) \<inter> fst ` set (rad_l1_drain (of_nat c')) = {}
    \<and> (c \<noteq> c' \<longrightarrow> fst ` set (rad_l0d_drain (of_nat c)) \<inter> fst ` set (rad_l0d_drain (of_nat c')) = {}
        \<and> fst ` set (rad_l1_drain (of_nat c)) \<inter> fst ` set (rad_l1_drain (of_nat c')) = {})"
proof -
  have l0: "\<exists>l < 64. unat (fst s) = 0x1F200000 + c * 4096 + l * 64"
    if "s \<in> set (rad_l0d_drain (of_nat c))" "c < 2" for s c
  proof -
    have "unat (fst s) \<in> set (map (\<lambda>s. unat (fst s)) (rad_l0d_drain (of_nat c)))" using that(1) by auto
    then show ?thesis unfolding l0d_addresses [OF that(2)] by (auto simp: geometry)
  qed
  have l1: "\<exists>l < 4096. unat (fst s) = 0x1F300000 + c * 131072 + l * 32"
    if "s \<in> set (rad_l1_drain (of_nat c))" "c < 2" for s c
  proof -
    have "unat (fst s) \<in> set (map (\<lambda>s. unat (fst s)) (rad_l1_drain (of_nat c)))" using that(1) by auto
    then show ?thesis unfolding l1_addresses [OF that(2)] L1_DRAIN_LINES_eq(2) by (auto simp del: upt_rec_numeral)
  qed
  have b0: "0x1F200000 + c * 4096 \<le> unat (fst s) \<and> unat (fst s) < 0x1F200000 + c * 4096 + 4096"
    if "s \<in> set (rad_l0d_drain (of_nat c))" "c < 2" for s c
    using l0 [OF that] by auto
  have b1: "0x1F300000 + c * 131072 \<le> unat (fst s) \<and> unat (fst s) < 0x1F300000 + c * 131072 + 131072"
    if "s \<in> set (rad_l1_drain (of_nat c))" "c < 2" for s c
    using l1 [OF that] by auto
  show ?thesis
    using assms by (auto dest!: b0 b1)
qed

theorem drain_windows_disjoint_witness:
  "(0::nat) < 2 \<and> fst ` set (rad_l0d_drain (of_nat 0)) \<inter> fst ` set (rad_l0d_drain (of_nat (1 :: nat))) = {}"
  using drain_windows_disjoint [of 0 1] by simp

text \<open>What the GPU puts into a slot of the 64-slot map is what the host reads there with its
  8-byte access, and every other slot is left as it was.\<close>

theorem postbox_host_reads_put:
  assumes "i < 64" "j < 64"
  shows "rad_host_postbox (of_nat i) (rad_pb_put (of_nat j) v mem)
    = (if i = j then v else rad_host_postbox (of_nat i) mem)"
  by (simp add: host_reads_slot rad_pb_get_put assms)

theorem postbox_host_reads_put_witness:
  "rad_host_postbox (of_nat 17) (rad_pb_put (of_nat 16) RAD_EPI_DONE_MAGIC (\<lambda>_. 0))
    = (if (17 :: nat) = 16 then RAD_EPI_DONE_MAGIC else rad_host_postbox (of_nat 17) (\<lambda>_. 0))"
  by (rule postbox_host_reads_put) simp_all

text \<open>A start generation is new: no number of runs below $2^{24}$ brings a slot back to the
  value it had, whatever that value was.\<close>

theorem start_generation_fresh:
  assumes "0 < k" "k < 2 ^ 24"
  shows "(RAD_EPI_NEXT_GEN ^^ k) g \<noteq> g"
  by (rule next_gen_fresh [OF assms])

theorem start_generation_fresh_witness: "(RAD_EPI_NEXT_GEN ^^ 1) 0xACFFFFFF \<noteq> 0xACFFFFFF"
  by (rule start_generation_fresh) simp_all

text \<open>\<open>rad_tapeout_begin\<close> on core \<open>cid\<close> clears the DONE and trace slots of the core and those
  of the slots 24 to 31 that belong to its warps, advances its start generation, and leaves
  every other slot alone.\<close>

theorem tapeout_begin_slots:
  assumes "cid < 2" "i < 64"
  shows "rad_pb_get (of_nat i) (rad_tapeout_begin cid mem)
    = (if i = RAD_PB_EPI_CORE + cid \<or> i = RAD_PB_EPI_TRACE + cid
          \<or> RAD_PB_EPI_WARP \<le> i \<and> i < RAD_PB_EPI_WARP + 8 \<and> i mod 2 = cid then 0
       else if i = RAD_PB_EPI_START + cid then RAD_EPI_NEXT_GEN (rad_pb_get (of_nat i) mem)
       else rad_pb_get (of_nat i) mem)"
proof -
  have fold: "rad_pb_get (of_nat i) (fold (\<lambda>w. rad_pb_put (of_nat (RAD_PB_EPI_WARP + w)) 0) ws m)
      = (if i \<in> (\<lambda>w. RAD_PB_EPI_WARP + w) ` set ws then 0 else rad_pb_get (of_nat i) m)"
    if "i < 64" "\<forall>w \<in> set ws. w < 8" for i ws m
    using that
  proof (induction ws arbitrary: m)
    case (Cons w ws)
    then show ?case by (auto simp: rad_pb_get_put RAD_PB_EPI_WARP_def simp del: of_nat_add)
  qed simp
  have bw: "\<forall>w \<in> set (begin_warps cid). w < 8" by (auto simp: begin_warps_def)
  have warps: "i \<in> (\<lambda>w. RAD_PB_EPI_WARP + w) ` set (begin_warps cid)
      \<longleftrightarrow> RAD_PB_EPI_WARP \<le> i \<and> i < RAD_PB_EPI_WARP + 8 \<and> i mod 2 = cid" for i
  proof -
    have "set (begin_warps cid) = {w. w < 8 \<and> w mod 2 = cid}"
    proof -
      have "cid \<le> w \<and> (w - cid) mod 2 = 0 \<longleftrightarrow> w mod 2 = cid" for w
        using assms(1) by presburger
      then show ?thesis by (auto simp: begin_warps_def MU_NUM_CORES_def)
    qed
    moreover have "i \<in> (\<lambda>w. 24 + w) ` {w. w < 8 \<and> w mod 2 = cid} \<longleftrightarrow> 24 \<le> i \<and> i < 32 \<and> i mod 2 = cid"
    proof
      assume a: "24 \<le> i \<and> i < 32 \<and> i mod 2 = cid"
      obtain w where w: "i = 24 + w" using a le_Suc_ex by blast
      have "w < 8" "w mod 2 = cid" using a unfolding w by presburger+
      then have "w \<in> {w. w < 8 \<and> w mod 2 = cid}" by blast
      with w show "i \<in> (\<lambda>w. 24 + w) ` {w. w < 8 \<and> w mod 2 = cid}" by (rule image_eqI)
    next
      assume "i \<in> (\<lambda>w. 24 + w) ` {w. w < 8 \<and> w mod 2 = cid}"
      then obtain w where "i = 24 + w" "w < 8" "w mod 2 = cid" by auto
      moreover have "(24 + w) mod 2 = w mod 2" by presburger
      ultimately show "24 \<le> i \<and> i < 32 \<and> i mod 2 = cid" by simp
    qed
    ultimately show ?thesis by (simp add: RAD_PB_EPI_WARP_def)
  qed
  note slots = RAD_PB_EPI_CORE_def RAD_PB_EPI_START_def RAD_PB_EPI_TRACE_def
  have s: "18 + cid < 64" "16 + cid < 64" "20 + cid < 64" using assms(1) by auto
  show ?thesis
    unfolding rad_tapeout_begin_def Let_def slots
    using assms s
    by (simp add: rad_pb_get_put fold bw warps del: of_nat_add) (auto simp: RAD_PB_EPI_WARP_def)
qed

theorem tapeout_begin_slots_witness:
  "rad_pb_get (of_nat 18) (rad_tapeout_begin 0 (\<lambda>_. 0xAC000041))
    = (if (18 :: nat) = RAD_PB_EPI_CORE + 0 \<or> 18 = RAD_PB_EPI_TRACE + 0
          \<or> RAD_PB_EPI_WARP \<le> 18 \<and> 18 < RAD_PB_EPI_WARP + 8 \<and> 18 mod 2 = (0 :: nat) then 0
       else if (18 :: nat) = RAD_PB_EPI_START + 0 then RAD_EPI_NEXT_GEN (rad_pb_get (of_nat 18) (\<lambda>_. 0xAC000041))
       else rad_pb_get (of_nat 18) (\<lambda>_. 0xAC000041))"
  by (rule tapeout_begin_slots) simp_all

end
