(* ===== verification/Tapeout_Run.thy ===== *)
theory Tapeout_Run
  imports Tapeout
begin

text \<open>
  One run of a kernel on the taped-out part, as the interleaving of its warps:
  \<open>rad_tapeout_begin\<close> and \<open>mu_schedule\<close> on the first warp of each core, the kernel body in
  every warp, and \<open>rad_tapeout_epilogue\<close> (\<^verbatim>\<open>lib/include/rad_tapeout.h\<close>).  A warp
  is followed through its lane 0; warp \<open>w\<close> runs on core \<open>w mod NC\<close>, and the first warp of a
  core, its leader, has a number below \<open>NC\<close>.  The postbox is uncached, so its slots are the
  shared state (\<open>postbox_host_reads_put\<close> of theory \<open>Tapeout\<close>).
\<close>

section \<open>State\<close>

abbreviation NC :: nat where "NC \<equiv> 2"

lemma NC_cores: "nat MU_NUM_CORES = NC"
  by (simp add: MU_NUM_CORES_def)

text \<open>How often the leader polls the slot of a warp.\<close>

definition STOP_POLLS :: nat where "STOP_POLLS = 2000000"

text \<open>
  Where a warp is: in \<open>rad_tapeout_begin\<close> before its \<open>j\<close>-th put, at the barrier of
  \<open>mu_schedule\<close>, before \<open>vx_wspawn\<close>, in the kernel body, and at the places of the epilogue.
  A worker that is not spawned yet is \<open>Off\<close>; one that has executed \<open>vx_tmc_zero\<close> is
  \<open>Stopped\<close>; \<open>Spin\<close> is the endless loop.
\<close>

datatype pc = Off | Begin nat | Sched | Spawn | Kernel
  | BarA | TraceA | Drain | TraceD | BarB | TraceB | Post | Poll nat nat | TracePolled | PostDone
  | Spin | Stopped

record run =
  r_pc :: "nat \<Rightarrow> pc"
  r_pb :: "nat \<Rightarrow> u32"
  r_stores :: "nat \<Rightarrow> (u32 \<times> u32) list"

text \<open>The slots that \<open>rad_tapeout_begin\<close> clears, in order.\<close>

definition begin_slots :: "nat \<Rightarrow> nat list" where
  "begin_slots cid = [RAD_PB_EPI_CORE + cid, RAD_PB_EPI_TRACE + cid]
     @ map (\<lambda>w. RAD_PB_EPI_WARP + w) (begin_warps cid)"

text \<open>The stores of the two drain passes.\<close>

definition epilogue_stores :: "nat \<Rightarrow> (u32 \<times> u32) list" where
  "epilogue_stores cid =
     rad_l0d_drain (of_nat cid) @ rad_l1_drain (of_nat cid)
     @ rad_l0d_drain (of_nat cid) @ rad_l1_drain (of_nat cid)"

definition goto :: "nat \<Rightarrow> pc \<Rightarrow> run \<Rightarrow> run" where
  "goto w p s = s\<lparr>r_pc := (r_pc s)(w := p)\<rparr>"

definition slot_put :: "nat \<Rightarrow> u32 \<Rightarrow> run \<Rightarrow> run" where
  "slot_put i v s = s\<lparr>r_pb := (r_pb s)(i := v)\<rparr>"

section \<open>Steps\<close>

text \<open>
  The next step of warp \<open>w\<close> in a launch of \<open>n\<close> warps per block.  \<open>Spawn\<close> starts the workers
  of the core; \<open>Poll k i\<close> is iteration \<open>i\<close> of the inner loop for the \<open>k\<close>-th warp of the core.
\<close>

definition warp_step :: "nat \<Rightarrow> nat \<Rightarrow> run \<Rightarrow> run option" where
  "warp_step n w s =
     (case r_pc s w of
        Begin j \<Rightarrow>
          (if j < length (begin_slots w) then Some (goto w (Begin (Suc j)) (slot_put (begin_slots w ! j) 0 s))
           else Some (goto w Sched (slot_put (RAD_PB_EPI_START + w)
                  (RAD_EPI_NEXT_GEN (r_pb s (RAD_PB_EPI_START + w))) s)))
      | Spawn \<Rightarrow> Some (s\<lparr>r_pc := (\<lambda>v. if v = w \<or> NC \<le> v \<and> v < n \<and> v mod NC = w then Kernel else r_pc s v)\<rparr>)
      | Kernel \<Rightarrow> Some (goto w BarA s)
      | TraceA \<Rightarrow> Some (goto w Drain (slot_put (RAD_PB_EPI_TRACE + w) RAD_EPI_T_BARA s))
      | Drain \<Rightarrow> Some (goto w TraceD (s\<lparr>r_stores := (r_stores s)(w := r_stores s w @ epilogue_stores w)\<rparr>))
      | TraceD \<Rightarrow> Some (goto w BarB (slot_put (RAD_PB_EPI_TRACE + w) RAD_EPI_T_DRAIN s))
      | TraceB \<Rightarrow> Some (goto w (Poll 1 0) (slot_put (RAD_PB_EPI_TRACE + w) RAD_EPI_T_BARB s))
      | Post \<Rightarrow> Some (goto w Stopped (slot_put (RAD_PB_EPI_WARP + w) RAD_EPI_STOP_MAGIC s))
      | Poll k i \<Rightarrow>
          (if k * NC + w < n
           then if i < STOP_POLLS \<and> r_pb s (RAD_PB_EPI_WARP + k * NC + w) \<noteq> RAD_EPI_STOP_MAGIC
             then Some (goto w (Poll k (Suc i)) s)
             else Some (goto w (Poll (Suc k) 0) s)
           else Some (goto w TracePolled s))
      | TracePolled \<Rightarrow> Some (goto w PostDone (slot_put (RAD_PB_EPI_TRACE + w) RAD_EPI_T_POLLED s))
      | PostDone \<Rightarrow> Some (goto w Spin (slot_put (RAD_PB_EPI_CORE + w) RAD_EPI_DONE_MAGIC s))
      | _ \<Rightarrow> None)"

text \<open>
  The three barriers: \<open>m\<close> warps wait, then all go on at once.  \<open>mu_schedule\<close> synchronises the
  leaders, the epilogue all the warps of the block.
\<close>

definition release :: "nat \<Rightarrow> pc \<Rightarrow> (nat \<Rightarrow> pc) \<Rightarrow> run \<Rightarrow> run option" where
  "release m b next s =
     (if list_all (\<lambda>w. r_pc s w = b) [0..<m]
      then Some (s\<lparr>r_pc := (\<lambda>w. if w < m then next w else r_pc s w)\<rparr>) else None)"

definition after_A :: "nat \<Rightarrow> pc" where "after_A w = (if w < NC then TraceA else BarB)"
definition after_B :: "nat \<Rightarrow> pc" where "after_B w = (if w < NC then TraceB else Post)"

inductive run_step :: "nat \<Rightarrow> run \<Rightarrow> run \<Rightarrow> bool" for n where
  warp: "w < n \<Longrightarrow> warp_step n w s = Some s' \<Longrightarrow> run_step n s s'"
| sched: "release NC Sched (\<lambda>_. Spawn) s = Some s' \<Longrightarrow> run_step n s s'"
| barA: "release n BarA after_A s = Some s' \<Longrightarrow> run_step n s s'"
| barB: "release n BarB after_B s = Some s' \<Longrightarrow> run_step n s s'"

text \<open>The GPU when it leaves reset: the leaders enter \<open>main\<close>, the postbox holds what it held.\<close>

definition run_init :: "(nat \<Rightarrow> u32) \<Rightarrow> run" where
  "run_init pb = \<lparr>r_pc = (\<lambda>w. if w < NC then Begin 0 else Off), r_pb = pb, r_stores = (\<lambda>_. [])\<rparr>"

definition reaches :: "nat \<Rightarrow> (nat \<Rightarrow> u32) \<Rightarrow> run \<Rightarrow> bool" where
  "reaches n pb s \<longleftrightarrow> (run_step n)\<^sup>*\<^sup>* (run_init pb) s"

section \<open>Invariants\<close>

text \<open>Between two barriers all the warps are in the same epoch.\<close>

fun epoch :: "nat \<Rightarrow> pc \<Rightarrow> bool" where
  "epoch e Off \<longleftrightarrow> e < 2"
| "epoch e (Begin j) \<longleftrightarrow> e = 0"
| "epoch e Sched \<longleftrightarrow> e = 0"
| "epoch e Spawn \<longleftrightarrow> e = 1"
| "epoch e Kernel \<longleftrightarrow> e = 1"
| "epoch e BarA \<longleftrightarrow> e = 1"
| "epoch e TraceA \<longleftrightarrow> e = 2"
| "epoch e Drain \<longleftrightarrow> e = 2"
| "epoch e TraceD \<longleftrightarrow> e = 2"
| "epoch e BarB \<longleftrightarrow> e = 2"
| "epoch e _ \<longleftrightarrow> e = 3"

fun leader_pc :: "pc \<Rightarrow> bool" where
  "leader_pc Off = False"
| "leader_pc Post = False"
| "leader_pc Stopped = False"
| "leader_pc _ = True"

fun worker_pc :: "pc \<Rightarrow> bool" where
  "worker_pc Off = True"
| "worker_pc Kernel = True"
| "worker_pc BarA = True"
| "worker_pc BarB = True"
| "worker_pc Post = True"
| "worker_pc Stopped = True"
| "worker_pc _ = False"

fun begun :: "pc \<Rightarrow> bool" where
  "begun (Begin j) = False"
| "begun _ = True"

fun drained :: "pc \<Rightarrow> bool" where
  "drained pc \<longleftrightarrow> pc = TraceD \<or> pc = BarB \<or> epoch 3 pc"

text \<open>What holds of a warp in epoch \<open>e\<close>.\<close>

definition warp_inv :: "nat \<Rightarrow> nat \<Rightarrow> run \<Rightarrow> nat \<Rightarrow> bool" where
  "warp_inv n e s w \<longleftrightarrow> epoch e (r_pc s w)
     \<and> (if w < NC then leader_pc (r_pc s w) else worker_pc (r_pc s w))
     \<and> (NC \<le> w \<longrightarrow> (r_pc s w = Off \<longleftrightarrow> e = 0 \<or> r_pc s (w mod NC) = Spawn))"

text \<open>What holds of the slots of a core.\<close>

definition core_inv :: "(nat \<Rightarrow> u32) \<Rightarrow> run \<Rightarrow> nat \<Rightarrow> bool" where
  "core_inv pb s c \<longleftrightarrow>
     r_pb s (RAD_PB_EPI_START + c)
       = (if begun (r_pc s c) then RAD_EPI_NEXT_GEN (pb (RAD_PB_EPI_START + c)) else pb (RAD_PB_EPI_START + c))
     \<and> r_stores s c = (if drained (r_pc s c) then epilogue_stores c else [])
     \<and> (r_pc s c = Spin \<longrightarrow> r_pb s (RAD_PB_EPI_CORE + c) = RAD_EPI_DONE_MAGIC)
     \<and> (r_pc s c \<noteq> Spin \<and> r_pc s c \<noteq> Begin 0 \<longrightarrow> r_pb s (RAD_PB_EPI_CORE + c) = 0)"

definition run_inv :: "nat \<Rightarrow> (nat \<Rightarrow> u32) \<Rightarrow> run \<Rightarrow> bool" where
  "run_inv n pb s \<longleftrightarrow> (\<exists>e. \<forall>w < n. warp_inv n e s w) \<and> (\<forall>c < NC. core_inv pb s c)"

lemmas run_defs = goto_def slot_put_def
lemmas slot_defs = RAD_PB_EPI_CORE_def RAD_PB_EPI_START_def RAD_PB_EPI_TRACE_def RAD_PB_EPI_WARP_def

lemma begin_slot:
  assumes "j < length (begin_slots w)"
  shows "begin_slots w ! j = 16 + w \<or> begin_slots w ! j = 20 + w \<or> 24 \<le> begin_slots w ! j"
proof -
  have "begin_slots w ! j \<in> set (begin_slots w)" using assms by (rule nth_mem)
  then show ?thesis by (auto simp: begin_slots_def slot_defs)
qed

lemma begin_slot_0 [simp]: "begin_slots w ! 0 = 16 + w" "begin_slots w \<noteq> []"
  by (simp_all add: begin_slots_def slot_defs)

lemma warp_inv_step:
  assumes inv: "\<forall>v < n. warp_inv n e s v" and w: "w < n" "warp_step n w s = Some s'"
  shows "\<forall>v < n. warp_inv n e s' v"
proof (intro allI impI)
  fix v assume v: "v < n"
  have iv: "warp_inv n e s v" "warp_inv n e s w" "warp_inv n e s (v mod NC)"
    using inv v w(1) mod_less_eq_dividend [of v NC] by (auto intro: le_less_trans)
  show "warp_inv n e s' v"
  proof (cases "r_pc s w = Spawn")
    case True
    then have e: "e = 1" "w < NC" using iv(2) by (auto simp: warp_inv_def split: if_splits)
    have pc': "r_pc s' u = (if u = w \<or> NC \<le> u \<and> u < n \<and> u mod NC = w then Kernel else r_pc s u)" for u
      using w(2) True by (auto simp: warp_step_def)
    have m: "\<not> NC \<le> v mod NC" by (simp add: not_le)
    show ?thesis
    proof (cases "v = w \<or> NC \<le> v \<and> v mod NC = w")
      case True
      then show ?thesis using v e by (auto simp: warp_inv_def pc')
    next
      case False
      then have "r_pc s' v = r_pc s v" by (auto simp: pc')
      moreover have "r_pc s' (v mod NC) = r_pc s (v mod NC)" if "NC \<le> v"
        using that False m by (auto simp: pc')
      ultimately show ?thesis using iv(1) by (auto simp: warp_inv_def)
    qed
  next
    case False
    then obtain p where p: "r_pc s' = (r_pc s)(w := p)" and same: "epoch e p"
      "if w < NC then leader_pc p else worker_pc p" "p \<noteq> Off" "p = Spawn \<longleftrightarrow> r_pc s w = Spawn"
      using w(2) iv(2)
      by (cases "r_pc s w") (auto simp: warp_step_def run_defs warp_inv_def split: if_splits)
    have "r_pc s w \<noteq> Off" using w(2) by (auto simp: warp_step_def)
    show ?thesis
      using iv same False \<open>r_pc s w \<noteq> Off\<close> by (auto simp: warp_inv_def p)
  qed
qed

text \<open>A step of another warp leaves the slots and the stores of a core alone.\<close>

lemma other_warp_step:
  assumes "w \<noteq> c" "c < NC" "warp_inv n e s w" "warp_step n w s = Some s'"
  shows "r_pc s' c = r_pc s c" "r_stores s' c = r_stores s c"
    "r_pb s' (RAD_PB_EPI_START + c) = r_pb s (RAD_PB_EPI_START + c)"
    "r_pb s' (RAD_PB_EPI_CORE + c) = r_pb s (RAD_PB_EPI_CORE + c)"
proof -
  have b: "18 + c \<noteq> begin_slots w ! j" "16 + c \<noteq> begin_slots w ! j"
    if "j < length (begin_slots w)" "w < NC" for j
    using begin_slot [OF that(1)] that(2) assms(1,2) by linarith+
  show "r_pc s' c = r_pc s c" "r_stores s' c = r_stores s c"
    using assms by (cases "r_pc s w"; auto simp: warp_step_def run_defs split: if_splits)+
  have lead: "w < NC" if "r_pc s w = Begin j \<or> r_pc s w \<in> {TraceA, TraceD, TraceB, TracePolled, PostDone}" for j
    using assms(3) that by (auto simp: warp_inv_def split: if_splits)
  show "r_pb s' (RAD_PB_EPI_START + c) = r_pb s (RAD_PB_EPI_START + c)"
    "r_pb s' (RAD_PB_EPI_CORE + c) = r_pb s (RAD_PB_EPI_CORE + c)"
    using assms b lead
    by (cases "r_pc s w"; auto simp: warp_step_def run_defs slot_defs split: if_splits)+
qed

lemma core_inv_step:
  assumes c: "c < NC" "core_inv pb s c" and w: "warp_inv n e s w" "warp_step n w s = Some s'"
  shows "core_inv pb s' c"
proof (cases "w = c")
  case False
  then show ?thesis
    using c other_warp_step [OF False c(1) w] by (simp add: core_inv_def)
next
  case True
  have b: "18 + c \<noteq> begin_slots c ! j"
    if "j < length (begin_slots c)" for j
    using begin_slot [OF that] c(1) by linarith+
  have "leader_pc (r_pc s c)" using w(1) True c(1) by (simp add: warp_inv_def)
  then show ?thesis
    using c(2) w(2) c(1) b True
    by (cases "r_pc s c") (auto simp: warp_step_def run_defs core_inv_def slot_defs split: if_splits)
qed

lemma release_inv:
  assumes "release m b next s = Some s'"
  shows "\<And>w. w < m \<Longrightarrow> r_pc s w = b" "r_pc s' w = (if w < m then next w else r_pc s w)"
    "r_pb s' = r_pb s" "r_stores s' = r_stores s"
  using assms by (auto simp: release_def list_all_iff split: if_splits)

lemma run_inv_step:
  assumes "NC \<le> n" "run_inv n pb s" "run_step n s s'"
  shows "run_inv n pb s'"
proof -
  obtain e where e: "\<And>w. w < n \<Longrightarrow> warp_inv n e s w" and c: "\<And>c. c < NC \<Longrightarrow> core_inv pb s c"
    using assms(2) by (auto simp: run_inv_def)
  have n: "c < NC \<Longrightarrow> c < n" for c using assms(1) by simp
  have md: "w mod NC < NC" "w mod NC < n" for w using n [of "w mod NC"] by simp_all
  from assms(3) show ?thesis
  proof (cases rule: run_step.cases)
    case (warp w)
    then show ?thesis
      using warp_inv_step [of n e s w s'] core_inv_step [of _ pb s n e w s'] e c
      unfolding run_inv_def by blast
  next
    case sched
    note r = release_inv [OF sched]
    have e0: "e = 0" using e [of 0] r(1) [of 0] n [of 0] by (simp add: warp_inv_def)
    have "warp_inv n 1 s' w" if "w < n" for w
      using e [OF that] r(2) [of w] r(2) [of "w mod NC"] e0
      by (cases "r_pc s w") (auto simp: warp_inv_def not_less split: if_splits)
    moreover have "core_inv pb s' c" if "c < NC" for c
      using c [OF that] r(1) [OF that] r(2) [of c] that by (simp add: core_inv_def r(3,4))
    ultimately show ?thesis unfolding run_inv_def by blast
  next
    case barA
    note r = release_inv [OF barA]
    have "warp_inv n 2 s' w" if "w < n" for w
      using r(2) [of w] r(2) [of "w mod NC"] that md by (auto simp: warp_inv_def after_A_def)
    moreover have "core_inv pb s' c" if "c < NC" for c
      using c [OF that] r(1) [OF n [OF that]] r(2) [of c] that n [OF that]
      by (simp add: core_inv_def r(3,4) after_A_def)
    ultimately show ?thesis unfolding run_inv_def by blast
  next
    case barB
    note r = release_inv [OF barB]
    have "warp_inv n 3 s' w" if "w < n" for w
      using r(2) [of w] r(2) [of "w mod NC"] that md by (auto simp: warp_inv_def after_B_def)
    moreover have "core_inv pb s' c" if "c < NC" for c
      using c [OF that] r(1) [OF n [OF that]] r(2) [of c] that n [OF that]
      by (simp add: core_inv_def r(3,4) after_B_def)
    ultimately show ?thesis unfolding run_inv_def by blast
  qed
qed

lemma run_inv_init: "run_inv n pb (run_init pb)"
  by (auto simp: run_inv_def run_init_def warp_inv_def core_inv_def intro!: exI [of _ 0])

lemma reaches_inv:
  assumes "NC \<le> n" "reaches n pb s"
  shows "run_inv n pb s"
  using assms(2) unfolding reaches_def
  by (induction rule: rtranclp_induct) (use run_inv_init run_inv_step [OF assms(1)] in auto)

section \<open>Every run ends\<close>

definition final :: "nat \<Rightarrow> run \<Rightarrow> bool" where
  "final n s \<longleftrightarrow> (\<forall>w < n. r_pc s w = (if w < NC then Spin else Stopped))"

text \<open>What a warp has still to do; \<open>n\<close> bounds the number of warps a leader waits for.\<close>

fun rank :: "nat \<Rightarrow> pc \<Rightarrow> nat" where
  "rank n Spin = 0"
| "rank n Stopped = 0"
| "rank n PostDone = 1"
| "rank n TracePolled = 2"
| "rank n (Poll k i) = 3 + (n - k) * (STOP_POLLS + 2) + (STOP_POLLS - i)"
| "rank n Post = 4 + n * (STOP_POLLS + 2) + STOP_POLLS"
| "rank n TraceB = 4 + n * (STOP_POLLS + 2) + STOP_POLLS"
| "rank n BarB = 5 + n * (STOP_POLLS + 2) + STOP_POLLS"
| "rank n TraceD = 6 + n * (STOP_POLLS + 2) + STOP_POLLS"
| "rank n Drain = 7 + n * (STOP_POLLS + 2) + STOP_POLLS"
| "rank n TraceA = 8 + n * (STOP_POLLS + 2) + STOP_POLLS"
| "rank n BarA = 9 + n * (STOP_POLLS + 2) + STOP_POLLS"
| "rank n Kernel = 10 + n * (STOP_POLLS + 2) + STOP_POLLS"
| "rank n Spawn = 11 + n * (STOP_POLLS + 2) + STOP_POLLS"
| "rank n Off = 11 + n * (STOP_POLLS + 2) + STOP_POLLS"
| "rank n Sched = 12 + n * (STOP_POLLS + 2) + STOP_POLLS"
| "rank n (Begin j) = 13 + n * (STOP_POLLS + 2) + STOP_POLLS + (8 - j)"

definition work :: "nat \<Rightarrow> run \<Rightarrow> nat" where
  "work n s = (\<Sum>w < n. rank n (r_pc s w))"

lemma work_less:
  assumes "w < n" "rank n (r_pc s' w) < rank n (r_pc s w)"
    and "\<And>v. v < n \<Longrightarrow> rank n (r_pc s' v) \<le> rank n (r_pc s v)"
  shows "work n s' < work n s"
  unfolding work_def using assms by (intro sum_strict_mono_ex1) auto

lemma begin_length:
  assumes "w < NC"
  shows "length (begin_slots w) \<le> 6"
proof -
  have "begin_warps 0 = [0, 2, 4, 6]" "begin_warps (Suc 0) = [1, 3, 5, 7]"
    by (simp_all add: begin_warps_def MU_NUM_CORES_def upt_rec)
  then show ?thesis using two_cores [OF assms] by (auto simp: begin_slots_def)
qed

lemma poll_rank: "k * NC + w < n \<Longrightarrow> rank n (Poll (Suc k) 0) < rank n (Poll k i)"
proof -
  assume "k * NC + w < n"
  then have "n - k = Suc (n - Suc k)" by linarith
  then show ?thesis by simp
qed

lemma poll_start: "rank n (Poll (Suc 0) 0) < rank n TraceB"
  using mult_le_mono1 [of "n - 1" n "STOP_POLLS + 2"] by simp

lemma warp_step_work:
  assumes inv: "\<And>v. v < n \<Longrightarrow> warp_inv n e s v" and w: "w < n" "warp_step n w s = Some s'"
  shows "work n s' < work n s"
proof (rule work_less [OF w(1)])
  have b: "j < 6" if "r_pc s w = Begin j" "j < length (begin_slots w)" for j
    using begin_length [of w] that inv [OF w(1)] by (auto simp: warp_inv_def split: if_splits)
  show "rank n (r_pc s' w) < rank n (r_pc s w)"
  proof (cases "r_pc s w = TraceB \<or> (\<exists>k i. r_pc s w = Poll k i \<and> r_pc s' w = Poll (Suc k) 0)")
    case True
    then show ?thesis
      using w(2) poll_start poll_rank by (auto simp: warp_step_def run_defs split: if_splits simp del: rank.simps)
  next
    case False
    then show ?thesis
      using w(2) b by (cases "r_pc s w") (auto simp: warp_step_def run_defs split: if_splits)
  qed
  fix v assume v: "v < n"
  show "rank n (r_pc s' v) \<le> rank n (r_pc s v)"
  proof (cases "v = w")
    case False
    show ?thesis
    proof (cases "r_pc s w = Spawn \<and> NC \<le> v \<and> v mod NC = w")
      case True
      then have "r_pc s v = Off" using inv [OF v] by (simp add: warp_inv_def)
      then show ?thesis using True w(2) v by (auto simp: warp_step_def)
    next
      case unchanged: False
      then have "r_pc s' v = r_pc s v"
        using w(2) False by (cases "r_pc s w") (auto simp: warp_step_def run_defs split: if_splits)
      then show ?thesis by simp
    qed
  qed (use \<open>rank n (r_pc s' w) < rank n (r_pc s w)\<close> in simp)
qed

lemma release_work:
  assumes "0 < m" "m \<le> n" "release m b next s = Some s'" "\<And>w. rank n (next w) < rank n b"
  shows "work n s' < work n s"
  using assms release_inv [OF assms(3)]
  by (intro work_less [of 0]) (auto intro: less_imp_le)

lemma run_step_work:
  assumes "NC \<le> n" "run_inv n pb s" "run_step n s s'"
  shows "work n s' < work n s"
proof -
  obtain e where e: "\<And>w. w < n \<Longrightarrow> warp_inv n e s w" using assms(2) by (auto simp: run_inv_def)
  have n: "0 < n" "NC \<le> n" using assms(1) by simp_all
  from assms(3) show ?thesis
  proof (cases rule: run_step.cases)
    case (warp w)
    then show ?thesis using warp_step_work e by blast
  next
    case sched
    then show ?thesis by (rule release_work [rotated 2]) (use n in auto)
  next
    case barA
    then show ?thesis by (rule release_work [rotated 2]) (use n in \<open>auto simp: after_A_def\<close>)
  next
    case barB
    then show ?thesis by (rule release_work [rotated 2]) (use n in \<open>auto simp: after_B_def\<close>)
  qed
qed

text \<open>As long as something is left to do, some step is possible.\<close>

lemma release_possible: "(\<And>w. w < m \<Longrightarrow> r_pc s w = b) \<Longrightarrow> \<exists>s'. release m b next s = Some s'"
  by (auto simp: release_def list_all_iff)

lemma progress:
  assumes "NC \<le> n" "run_inv n pb s" "\<not> final n s"
  shows "\<exists>s'. run_step n s s'"
proof (rule ccontr)
  assume stuck: "\<nexists>s'. run_step n s s'"
  obtain e where e: "\<And>w. w < n \<Longrightarrow> warp_inv n e s w" using assms(2) by (auto simp: run_inv_def)
  have no: "warp_step n w s = None" if "w < n" for w
    using stuck run_step.warp [OF that] by (cases "warp_step n w s") auto
  have waiting: "r_pc s w \<in> {Off, Sched, BarA, BarB, Spin, Stopped}" if "w < n" for w
    using no [OF that] by (cases "r_pc s w") (auto simp: warp_step_def split: if_splits)
  have leader: "w < n" "leader_pc (r_pc s w)" if "w < NC" for w
    using that assms(1) e [of w] by (auto simp: warp_inv_def)
  have off: "r_pc s w \<noteq> Off" if "w < n" "e \<noteq> 0" for w
  proof
    assume o: "r_pc s w = Off"
    then have "\<not> w < NC" using leader(2) [of w] by auto
    then have "r_pc s (w mod NC) = Spawn" using e [OF that(1)] o that(2) by (simp add: warp_inv_def)
    moreover have "w mod NC < n" using that(1) mod_less_eq_dividend [of w NC] by linarith
    ultimately show False using waiting [of "w mod NC"] by auto
  qed
  have ep: "epoch e (r_pc s w)" if "w < n" for w using e [OF that] by (simp add: warp_inv_def)
  have "e = 0 \<or> e = 1 \<or> e = 2 \<or> e = 3"
    using ep [of 0] leader(1) [of 0] by (cases "r_pc s 0") auto
  then consider "e = 0" | "e = 1" | "e = 2" | "e = 3" by blast
  then show False
  proof cases
    case 1
    have "r_pc s w = Sched" if "w < NC" for w
      using ep [OF leader(1) [OF that]] waiting [OF leader(1) [OF that]] leader(2) [OF that] 1 by auto
    then show False using release_possible [of NC s Sched] stuck run_step.sched by blast
  next
    case 2
    then have "r_pc s w = BarA" if "w < n" for w using ep [OF that] waiting [OF that] off [OF that] by auto
    then show False using release_possible [of n s BarA] stuck run_step.barA by blast
  next
    case 3
    then have "r_pc s w = BarB" if "w < n" for w using ep [OF that] waiting [OF that] off [OF that] by auto
    then show False using release_possible [of n s BarB] stuck run_step.barB by blast
  next
    case 4
    have "r_pc s w = (if w < NC then Spin else Stopped)" if "w < n" for w
      using ep [OF that] waiting [OF that] off [OF that] e [OF that] 4 by (auto simp: warp_inv_def)
    then show False using assms(3) by (simp add: final_def)
  qed
qed

end
