(* ===== verification/Tapeout_Safety.thy ===== *)
theory Tapeout_Safety
  imports Tapeout_Run
begin

text \<open>
  What the epilogue promises the host (\<^verbatim>\<open>lib/include/rad_tapeout.h\<close>): a DONE of this
  run means that the caches are drained, every run comes to rest with all cores parked, no warp
  is left at a barrier, and the STOP slots are reliable for at most eight warps per block.
\<close>

section \<open>Stop slots\<close>

text \<open>Whether the leader has cleared the STOP slot of warp \<open>w\<close>.\<close>

fun cleared :: "nat \<Rightarrow> pc \<Rightarrow> bool" where
  "cleared w (Begin j) \<longleftrightarrow> RAD_PB_EPI_WARP + w \<in> set (take j (begin_slots (w mod NC)))"
| "cleared w _ = True"

definition stop_inv :: "nat \<Rightarrow> run \<Rightarrow> bool" where
  "stop_inv n s \<longleftrightarrow> (\<forall>w < n. NC \<le> w \<longrightarrow> cleared w (r_pc s (w mod NC)) \<longrightarrow> r_pc s w \<noteq> Stopped
     \<longrightarrow> r_pb s (RAD_PB_EPI_WARP + w) = 0)"

lemma begin_clears:
  assumes "w < 8" "\<not> j < length (begin_slots (w mod NC))"
  shows "RAD_PB_EPI_WARP + w \<in> set (take j (begin_slots (w mod NC)))"
proof -
  have "cid \<le> w \<and> (w - cid) mod 2 = 0" if "cid = w mod NC" for cid
    unfolding that by presburger
  then have "w \<in> set (begin_warps (w mod NC))"
    using assms(1) by (simp add: begin_warps_def MU_NUM_CORES_def)
  then have "RAD_PB_EPI_WARP + w \<in> set (begin_slots (w mod NC))"
    by (simp add: begin_slots_def)
  then show ?thesis using assms(2) by simp
qed

lemma take_Suc_nth: "j < length xs \<Longrightarrow> set (take (Suc j) xs) = insert (xs ! j) (set (take j xs))"
  by (simp add: take_Suc_conv_app_nth)

lemma stop_inv_warp:
  assumes n: "NC \<le> n" "n \<le> 8" and inv: "stop_inv n s" "\<And>w. w < n \<Longrightarrow> warp_inv n e s w"
    and w: "w < n" "warp_step n w s = Some s'"
  shows "stop_inv n s'"
  unfolding stop_inv_def
proof (intro allI impI)
  fix v assume v: "v < n" "NC \<le> v" "cleared v (r_pc s' (v mod NC))" "r_pc s' v \<noteq> Stopped"
  have wi: "warp_inv n e s w" "warp_inv n e s v" using inv(2) w(1) v(1) by auto
  have v8: "v < 8" using v(1) n(2) by simp
  have old: "cleared v (r_pc s (v mod NC)) \<Longrightarrow> r_pc s v \<noteq> Stopped \<Longrightarrow> r_pb s (RAD_PB_EPI_WARP + v) = 0"
    using inv(1) v(1,2) by (simp add: stop_inv_def)
  have ns: "r_pc s v \<noteq> Stopped"
  proof
    assume st: "r_pc s v = Stopped"
    then have "e = 3" using wi(2) by (simp add: warp_inv_def)
    have "v \<noteq> w" using st w(2) by (auto simp: warp_step_def)
    then have "r_pc s' v = r_pc s v"
      using w(2) wi(1) \<open>e = 3\<close> by (cases "r_pc s w") (auto simp: warp_step_def run_defs warp_inv_def split: if_splits)
    then show False using v(4) st by simp
  qed
  consider (beg) j where "r_pc s w = Begin j" | (post) "r_pc s w = Post"
    | (other) "\<forall>j. r_pc s w \<noteq> Begin j" "r_pc s w \<noteq> Post" by blast
  then show "r_pb s' (RAD_PB_EPI_WARP + v) = 0"
  proof cases
    case (beg j)
    then have lw: "w < NC" using wi(1) by (auto simp: warp_inv_def split: if_splits)
    show ?thesis
    proof (cases "j < length (begin_slots w)")
      case True
      then have s': "s' = goto w (Begin (Suc j)) (slot_put (begin_slots w ! j) 0 s)"
        using w(2) beg by (simp add: warp_step_def)
      show ?thesis
      proof (cases "RAD_PB_EPI_WARP + v = begin_slots w ! j")
        case False
        have "cleared v (r_pc s (v mod NC))"
        proof (cases "v mod NC = w")
          case True
          then show ?thesis
            using v(3) s' False \<open>j < length (begin_slots w)\<close> beg by (auto simp: run_defs take_Suc_nth)
        next
          case diff: False
          then show ?thesis using v(3) s' by (simp add: run_defs)
        qed
        then show ?thesis using old ns False s' by (simp add: run_defs)
      qed (use s' in \<open>simp add: run_defs\<close>)
    next
      case False
      then have s': "s' = goto w Sched (slot_put (RAD_PB_EPI_START + w)
          (RAD_EPI_NEXT_GEN (r_pb s (RAD_PB_EPI_START + w))) s)"
        using w(2) beg by (simp add: warp_step_def)
      have "cleared v (r_pc s (v mod NC))"
      proof (cases "v mod NC = w")
        case True
        then show ?thesis using begin_clears [OF v8, of j] False beg by simp
      next
        case diff: False
        then show ?thesis using v(3) s' by (simp add: run_defs)
      qed
      then have "r_pb s (RAD_PB_EPI_WARP + v) = 0" using old ns by blast
      then show ?thesis using lw s' by (simp add: run_defs slot_defs)
    qed
  next
    case post
    then have s': "s' = goto w Stopped (slot_put (RAD_PB_EPI_WARP + w) RAD_EPI_STOP_MAGIC s)"
      using w(2) by (simp add: warp_step_def)
    then have "v \<noteq> w" using v(4) by (auto simp: run_defs)
    moreover have "v mod NC \<noteq> w" using post wi(1) by (auto simp: warp_inv_def split: if_splits)
    ultimately show ?thesis using old ns v(3) s' by (simp add: run_defs)
  next
    case other
    have "cleared v (r_pc s (v mod NC))"
    proof (cases "\<exists>j. r_pc s (v mod NC) = Begin j")
      case True
      then have "v mod NC \<noteq> w" using other(1) by auto
      moreover have "r_pc s w \<noteq> Spawn"
      proof
        assume "r_pc s w = Spawn"
        then have "e = 1" using wi(1) by (simp add: warp_inv_def)
        moreover have "v mod NC < n" using n(1) by (simp add: less_le_trans [of _ NC])
        ultimately have "epoch 1 (r_pc s (v mod NC))" using inv(2) [of "v mod NC"] by (simp add: warp_inv_def)
        then show False using True by auto
      qed
      ultimately have "r_pc s' (v mod NC) = r_pc s (v mod NC)"
        using w(2) by (cases "r_pc s w") (auto simp: warp_step_def run_defs split: if_splits)
      then show ?thesis using v(3) by simp
    next
      case False
      then show ?thesis by (cases "r_pc s (v mod NC)") auto
    qed
    then have "r_pb s (RAD_PB_EPI_WARP + v) = 0" using old ns by blast
    moreover have "w < NC" if "r_pc s w \<in> {TraceA, TraceD, TraceB, TracePolled, PostDone}"
      using wi(1) that by (auto simp: warp_inv_def split: if_splits)
    ultimately show ?thesis
      using w(2) other by (cases "r_pc s w") (auto simp: warp_step_def run_defs slot_defs split: if_splits)
  qed
qed

lemma stop_inv_release:
  assumes n: "NC \<le> n" and inv: "stop_inv n s" "\<And>w. w < n \<Longrightarrow> warp_inv n e s w" and s': "run_step n s s'"
    and no: "\<And>w. w < n \<Longrightarrow> warp_step n w s \<noteq> Some s'"
  shows "stop_inv n s'"
proof -
  have lead: "v mod NC < n" "v mod NC < NC" for v
    using n by (simp_all add: less_le_trans [of _ NC])
  have "(\<forall>w < n. cleared w (r_pc s' (w mod NC)) \<longrightarrow> cleared w (r_pc s (w mod NC)))
      \<and> (\<forall>w < n. NC \<le> w \<longrightarrow> r_pc s w = Stopped \<longrightarrow> r_pc s' w = Stopped) \<and> r_pb s' = r_pb s"
    using s'
  proof (cases rule: run_step.cases)
    case (warp w)
    then show ?thesis using no by blast
  next
    case sched
    note r = release_inv [OF sched]
    have "cleared w (r_pc s (w mod NC))" for w using r(1) [OF lead(2)] by simp
    then show ?thesis using r by auto
  next
    case barA
    note r = release_inv [OF barA]
    have "cleared w (r_pc s (w mod NC))" for w using r(1) [OF lead(1)] by simp
    then show ?thesis using r by auto
  next
    case barB
    note r = release_inv [OF barB]
    have "cleared w (r_pc s (w mod NC))" for w using r(1) [OF lead(1)] by simp
    then show ?thesis using r by auto
  qed
  then show ?thesis using inv(1) unfolding stop_inv_def by metis
qed

lemma reaches_stop_inv:
  assumes "NC \<le> n" "n \<le> 8" "reaches n pb s"
  shows "stop_inv n s \<and> run_inv n pb s"
  using assms(3) unfolding reaches_def
proof (induction rule: rtranclp_induct)
  case base
  have "stop_inv n (run_init pb)" by (auto simp: stop_inv_def run_init_def)
  then show ?case using run_inv_init by blast
next
  case (step s s')
  obtain e where e: "\<And>w. w < n \<Longrightarrow> warp_inv n e s w" using step.IH by (auto simp: run_inv_def)
  have "stop_inv n s'"
  proof (cases "\<exists>w < n. warp_step n w s = Some s'")
    case True
    then show ?thesis using stop_inv_warp [OF assms(1,2) _ e] step.IH by blast
  next
    case False
    then show ?thesis using stop_inv_release [OF assms(1) _ e step.hyps(2)] step.IH by blast
  qed
  then show ?case using step.IH run_inv_step [OF assms(1) _ step.hyps(2)] by blast
qed

section \<open>Runs by a schedule\<close>

text \<open>A schedule names a warp, or a barrier by a number from \<open>n\<close>.\<close>

definition sched_step :: "nat \<Rightarrow> nat \<Rightarrow> run \<Rightarrow> run option" where
  "sched_step n a s = (if a < n then warp_step n a s else if a = n then release NC Sched (\<lambda>_. Spawn) s
     else if a = n + 1 then release n BarA after_A s else release n BarB after_B s)"

fun exec :: "nat \<Rightarrow> nat list \<Rightarrow> run \<Rightarrow> run option" where
  "exec n [] s = Some s"
| "exec n (a # as) s = do { s \<leftarrow> sched_step n a s; exec n as s }"

lemma sched_step_run: "sched_step n a s = Some s' \<Longrightarrow> run_step n s s'"
  by (auto simp: sched_step_def split: if_splits intro: run_step.intros)

lemma exec_reaches: "exec n as s = Some s' \<Longrightarrow> (run_step n)\<^sup>*\<^sup>* s s'"
proof (induction as arbitrary: s)
  case (Cons a as)
  then show ?case
    by (auto simp: bind_eq_Some_conv intro: converse_rtranclp_into_rtranclp sched_step_run)
qed simp

text \<open>Two schedules: a run with one warp per core to its end, and a run with eight warps per core
  in which the leader of core 0 is done before its fourth worker has stopped.\<close>

definition sched2 :: "nat list" where
  "sched2 = [0, 0, 0, 0, 0, 0, 0, 1, 1, 1, 1, 1, 1, 1, 2, 0, 1, 0, 1, 3, 0, 0, 0, 1, 1, 1, 4, 0, 0, 0, 0, 1, 1, 1, 1]"

definition sched4 :: "nat list" where
  "sched4 = [0, 0, 0, 0, 0, 0, 0, 1, 1, 1, 1, 1, 1, 1, 4, 0, 1, 0, 1, 2, 3, 5, 0, 0, 0, 1, 1, 1, 6, 2]"

definition sched16 :: "nat list" where
  "sched16 = [0, 0, 0, 0, 0, 0, 0, 1, 1, 1, 1, 1, 1, 1, 16, 0, 1, 0, 1, 2, 3, 4, 5, 6, 7, 8, 9, 10, 11, 12, 13, 14, 15, 17,
     0, 0, 0, 1, 1, 1, 18, 2, 4, 6, 0, 0, 0, 0, 0, 0, 0, 0, 0, 0, 0]"

lemma begin_slots_eq:
  "begin_slots 0 = [16, 20, 24, 26, 28, 30]" "begin_slots (Suc 0) = [17, 21, 25, 27, 29, 31]"
  by (simp_all add: begin_slots_def begin_warps_def MU_NUM_CORES_def slot_defs upt_rec)

lemma upts: "[0..<NC] = [0, Suc 0]" "[0..<4] = [0, Suc 0, 2, 3]" "[0..<16] = [0, Suc 0, 2, 3, 4, 5, 6, 7, 8, 9, 10, 11, 12, 13, 14, 15]"
  by (simp_all add: upt_rec)

lemmas exec_simps = upts sched_step_def warp_step_def release_def goto_def slot_put_def run_init_def
  begin_slots_eq slot_defs after_A_def after_B_def

definition stale :: "nat \<Rightarrow> u32" where
  "stale i = (if 32 \<le> i \<and> i < 40 then RAD_EPI_STOP_MAGIC else 0)"

lemma run2: "\<exists>s. reaches 2 stale s \<and> r_pb s 18 = RAD_EPI_NEXT_GEN (stale 18) \<and> r_pb s 16 = RAD_EPI_DONE_MAGIC
  \<and> r_pb s 19 = RAD_EPI_NEXT_GEN (stale 19) \<and> r_pb s 17 = RAD_EPI_DONE_MAGIC"
proof -
  have "\<exists>s. exec 2 sched2 (run_init stale) = Some s \<and> r_pb s 18 = RAD_EPI_NEXT_GEN (stale 18) \<and> r_pb s 16 = RAD_EPI_DONE_MAGIC
      \<and> r_pb s 19 = RAD_EPI_NEXT_GEN (stale 19) \<and> r_pb s 17 = RAD_EPI_DONE_MAGIC"
    by (simp add: sched2_def exec_simps)
  then show ?thesis unfolding reaches_def using exec_reaches by blast
qed

lemma run16: "\<exists>s. reaches 16 stale s \<and> r_pb s 16 = RAD_EPI_DONE_MAGIC \<and> r_pc s 8 = Post"
proof -
  have "\<exists>s. exec 16 sched16 (run_init stale) = Some s \<and> r_pb s 16 = RAD_EPI_DONE_MAGIC \<and> r_pc s 8 = Post"
    by (simp add: sched16_def exec_simps stale_def STOP_POLLS_def)
  then show ?thesis unfolding reaches_def using exec_reaches by blast
qed

lemma run4: "\<exists>s. reaches 4 stale s \<and> r_pb s 26 = RAD_EPI_STOP_MAGIC \<and> r_pc s 2 = Stopped \<and> begun (r_pc s 0)"
proof -
  have "\<exists>s. exec 4 sched4 (run_init stale) = Some s \<and> r_pb s 26 = RAD_EPI_STOP_MAGIC \<and> r_pc s 2 = Stopped \<and> begun (r_pc s 0)"
    by (simp add: sched4_def exec_simps)
  then show ?thesis unfolding reaches_def using exec_reaches by blast
qed

section \<open>Properties\<close>

text \<open>C14: if the host sees, in any interleaving and whatever an earlier run left in the postbox,
  the next start generation of a core and its DONE, then this core is parked in its endless
  loop, both cores have performed both drain passes in this run, and every warp of the block
  has passed both barriers of the epilogue.\<close>

theorem epilogue_done_after_drain:
  assumes "NC \<le> n" "reaches n pb s" "c < NC"
    and "r_pb s (RAD_PB_EPI_START + c) = RAD_EPI_NEXT_GEN (pb (RAD_PB_EPI_START + c))"
    and "r_pb s (RAD_PB_EPI_CORE + c) = RAD_EPI_DONE_MAGIC"
  shows "r_pc s c = Spin \<and> (\<forall>d < NC. r_stores s d = epilogue_stores d) \<and> (\<forall>w < n. epoch 3 (r_pc s w))"
proof -
  obtain e where e: "\<And>w. w < n \<Longrightarrow> warp_inv n e s w" and c: "\<And>c. c < NC \<Longrightarrow> core_inv pb s c"
    using reaches_inv [OF assms(1,2)] by (auto simp: run_inv_def)
  have "RAD_EPI_NEXT_GEN g \<noteq> g" for g using next_gen_fresh [of 1 g] by simp
  then have b: "begun (r_pc s c)" using c [OF assms(3)] assms(4) by (auto simp: core_inv_def split: if_splits)
  have sp: "r_pc s c = Spin"
  proof (rule ccontr)
    assume "r_pc s c \<noteq> Spin"
    moreover have "r_pc s c \<noteq> Begin 0" using b by auto
    ultimately have "r_pb s (RAD_PB_EPI_CORE + c) = 0" using c [OF assms(3)] by (simp add: core_inv_def)
    then show False using assms(5) by (simp add: RAD_EPI_DONE_MAGIC_def)
  qed
  have "c < n" using assms(1,3) by simp
  then have "e = 3" using e [of c] sp by (simp add: warp_inv_def)
  then have ep: "epoch 3 (r_pc s w)" if "w < n" for w using e [OF that] by (simp add: warp_inv_def)
  have "r_stores s d = epilogue_stores d" if "d < NC" for d
    using c [OF that] ep [of d] that assms(1) by (simp add: core_inv_def)
  then show ?thesis using sp ep by blast
qed

theorem epilogue_done_after_drain_witness:
  "\<exists>s. reaches 2 stale s \<and> r_pc s 0 = Spin \<and> (\<forall>d < NC. r_stores s d = epilogue_stores d)
    \<and> (\<forall>w < 2. epoch 3 (r_pc s w))"
proof -
  obtain s where "reaches 2 stale s" "r_pb s 18 = RAD_EPI_NEXT_GEN (stale 18)" "r_pb s 16 = RAD_EPI_DONE_MAGIC"
    using run2 by blast
  then show ?thesis
    using epilogue_done_after_drain [of 2 stale s 0] by (auto simp: slot_defs)
qed

text \<open>C15: every run ends, and however it is scheduled it ends with the leaders of both cores in
  their endless loops, all other warps stopped and DONE posted for both cores: no step is
  possible only in such a state, and no run goes on for ever.\<close>

theorem epilogue_completes:
  assumes "NC \<le> n"
  shows "(\<nexists>f. f 0 = run_init pb \<and> (\<forall>i. run_step n (f i) (f (Suc i))))
    \<and> (\<forall>s. reaches n pb s \<and> (\<nexists>s'. run_step n s s')
        \<longrightarrow> final n s \<and> (\<forall>c < NC. r_pb s (RAD_PB_EPI_CORE + c) = RAD_EPI_DONE_MAGIC))"
proof (intro conjI allI impI notI)
  assume "\<exists>f. f 0 = run_init pb \<and> (\<forall>i. run_step n (f i) (f (Suc i)))"
  then obtain f where f: "f 0 = run_init pb" "\<And>i. run_step n (f i) (f (Suc i))" by blast
  have inv: "run_inv n pb (f i)" for i
    by (induction i) (use f run_inv_init run_inv_step [OF assms] in \<open>auto simp: f(1)\<close>)
  have "work n (f i) + i \<le> work n (f 0)" for i
  proof (induction i)
    case (Suc i)
    then show ?case using run_step_work [OF assms inv f(2), of i] by linarith
  qed simp
  from this [of "Suc (work n (f 0))"] show False by simp
next
  fix s assume s: "reaches n pb s \<and> (\<nexists>s'. run_step n s s')"
  have inv: "run_inv n pb s" using s reaches_inv [OF assms] by blast
  show fin: "final n s" using progress [OF assms inv] s by blast
  fix c assume "c < NC"
  then have "r_pc s c = Spin" "core_inv pb s c"
    using fin inv assms by (auto simp: final_def run_inv_def)
  then show "r_pb s (RAD_PB_EPI_CORE + c) = RAD_EPI_DONE_MAGIC" by (simp add: core_inv_def)
qed

theorem epilogue_completes_witness:
  "\<nexists>f. f 0 = run_init stale \<and> (\<forall>i. run_step 6 (f i) (f (Suc i)))"
  using epilogue_completes [of 6 stale] by simp

text \<open>C16: the leader of a core never executes \<open>vx_tmc_zero\<close>, so that no core ever reports
  \<open>finished\<close>; and once any warp has stopped, no warp waits at a barrier, so that no barrier
  is left with a participant missing.\<close>

theorem epilogue_never_finishes:
  assumes "NC \<le> n" "reaches n pb s"
  shows "(\<forall>c < NC. r_pc s c \<noteq> Stopped)
    \<and> (\<forall>v < n. r_pc s v = Stopped \<longrightarrow> (\<forall>w < n. r_pc s w \<notin> {Sched, BarA, BarB}))"
proof -
  obtain e where e: "\<And>w. w < n \<Longrightarrow> warp_inv n e s w" using reaches_inv [OF assms] by (auto simp: run_inv_def)
  have "r_pc s c \<noteq> Stopped" if "c < NC" for c
    using e [of c] that assms(1) by (auto simp: warp_inv_def)
  moreover have "r_pc s w \<notin> {Sched, BarA, BarB}" if "v < n" "r_pc s v = Stopped" "w < n" for v w
    using e [OF that(1)] e [OF that(3)] that(2) by (auto simp: warp_inv_def)
  ultimately show ?thesis by blast
qed

theorem epilogue_never_finishes_witness:
  "\<exists>s. reaches 4 stale s \<and> r_pc s 2 = Stopped \<and> (\<forall>c < NC. r_pc s c \<noteq> Stopped)
    \<and> (\<forall>w < 4. r_pc s w \<notin> {Sched, BarA, BarB})"
proof -
  obtain s where s: "reaches 4 stale s" "r_pc s 2 = Stopped" using run4 by blast
  moreover have "(\<forall>c < NC. r_pc s c \<noteq> Stopped) \<and> (\<forall>v < 4. r_pc s v = Stopped \<longrightarrow> (\<forall>w < 4. r_pc s w \<notin> {Sched, BarA, BarB}))"
    by (rule epilogue_never_finishes) (use s in simp_all)
  moreover have "2 < (4 :: nat)" by simp
  ultimately show ?thesis by blast
qed




end
