(* ===== verification/Rad_Host.thy ===== *)
theory Rad_Host
  imports Tapeout_Safety Digits
begin

text \<open>
  The host side of a run, \<^verbatim>\<open>lib/include/rad_host.h\<close> and the host half of
  \<^verbatim>\<open>lib/include/rad_tapeout.h\<close>: the buffered console output and \<open>rad_host_run\<close>.  The
  host's reads of the postbox are numbered; \<open>obs t i\<close> is what its \<open>t\<close>-th read finds in slot
  \<open>i\<close>.  The console buffer is the list of the characters it holds.
\<close>

section \<open>Console output\<close>

definition RAD_HOST_OUTBUF_BYTES :: nat where "RAD_HOST_OUTBUF_BYTES = 4096"

definition rad_putc :: "u8 \<Rightarrow> u8 list \<Rightarrow> u8 list" where
  "rad_putc ch buf = (if length buf < RAD_HOST_OUTBUF_BYTES then buf @ [ch] else buf)"

definition rad_puts :: "u8 list \<Rightarrow> u8 list \<Rightarrow> u8 list" where
  "rad_puts s buf = fold rad_putc s buf"

text \<open>The digit loop of \<open>rad_putu\<close> into \<open>char t[20]\<close>; a 21st digit would be out of bounds.\<close>

fun putu_digits :: "nat \<Rightarrow> u64 \<Rightarrow> u8 list \<Rightarrow> u8 list option" where
  "putu_digits 0 v t = None"
| "putu_digits (Suc room) v t =
     (let t = t @ [48 + ucast (v mod 10)]; v = v div 10
      in if v \<noteq> 0 then putu_digits room v t else Some t)"

definition rad_putu :: "u64 \<Rightarrow> u8 list \<Rightarrow> u8 list option" where
  "rad_putu v buf = map_option (\<lambda>t. fold rad_putc (rev t) buf) (putu_digits 20 v [])"

definition hex_digit :: "u32 \<Rightarrow> u8" where
  "hex_digit n = (if n < 10 then 48 + ucast n else 87 + ucast n)"

definition rad_putx :: "u32 \<Rightarrow> u8 list \<Rightarrow> u8 list" where
  "rad_putx v buf = fold (\<lambda>i. rad_putc (hex_digit (drop_bit (4 * i) v AND 15))) [7, 6, 5, 4, 3, 2, 1, 0]
     (rad_puts [48, 120] buf)"

text \<open>\<open>rad_flush\<close>: what is written to the console, and the buffer afterwards.\<close>

definition rad_flush :: "u8 list \<Rightarrow> u8 list \<times> u8 list" where
  "rad_flush buf = (buf, [])"

section \<open>Launching and waiting\<close>

definition START_POLLS :: nat where "START_POLLS = 2000000"
definition DONE_POLLS :: nat where "DONE_POLLS = 20000000"

text \<open>One sweep over the slots \<open>base, \<dots>\<close> of \<open>n\<close> cores: how many hold what is expected.\<close>

definition sweep :: "(nat \<Rightarrow> nat \<Rightarrow> u32) \<Rightarrow> nat \<Rightarrow> nat \<Rightarrow> (nat \<Rightarrow> u32) \<Rightarrow> nat \<Rightarrow> nat" where
  "sweep obs n base want t = length (filter (\<lambda>c. obs (t + c) (base + c) = want c) [0..<n])"

text \<open>
  The polling loops of \<open>rad_host_run\<close> and \<open>rad_host_wait_epilogue\<close>:
  \<open>for (i = 0; i < left && found < n; i++) found = sweep\<close>, with the time of the next read.
\<close>

primrec poll :: "(nat \<Rightarrow> nat \<Rightarrow> u32) \<Rightarrow> nat \<Rightarrow> nat \<Rightarrow> (nat \<Rightarrow> u32) \<Rightarrow> nat \<Rightarrow> nat \<Rightarrow> nat \<Rightarrow> nat \<times> nat" where
  "poll obs n base want 0 found t = (found, t)"
| "poll obs n base want (Suc left) found t =
     (if found < n then poll obs n base want left (sweep obs n base want t) (t + n) else (found, t))"

definition rad_host_wait_epilogue :: "(nat \<Rightarrow> nat \<Rightarrow> u32) \<Rightarrow> nat \<Rightarrow> nat \<Rightarrow> nat \<Rightarrow> nat \<times> nat" where
  "rad_host_wait_epilogue obs ncores spins t =
     poll obs ncores RAD_PB_EPI_CORE (\<lambda>_. RAD_EPI_DONE_MAGIC) spins 0 t"

text \<open>
  The waiting part of \<open>rad_host_run\<close>: the start generations are read before the GPU leaves
  reset, at times \<open>0, \<dots>, NC - 1\<close>; the result is \<open>started\<close>, \<open>done\<close> and the time.
\<close>

definition expect :: "(nat \<Rightarrow> nat \<Rightarrow> u32) \<Rightarrow> nat \<Rightarrow> u32" where
  "expect obs c = RAD_EPI_NEXT_GEN (obs c (RAD_PB_EPI_START + c))"

definition host_wait :: "(nat \<Rightarrow> nat \<Rightarrow> u32) \<Rightarrow> nat \<times> nat \<times> nat" where
  "host_wait obs =
     (let (started, t) = poll obs NC RAD_PB_EPI_START (expect obs) START_POLLS 0 NC
      in if started = NC
         then let (dn, t) = rad_host_wait_epilogue obs NC DONE_POLLS t in (started, dn, t)
         else (started, 0, t))"

text \<open>The status line, with the trace slots as read after the reset.\<close>

definition put_gen :: "(nat \<Rightarrow> nat \<Rightarrow> u32) \<Rightarrow> nat \<Rightarrow> nat \<Rightarrow> u8 list \<Rightarrow> u8 list option" where
  "put_gen obs t c buf = do {
     buf \<leftarrow> rad_putu (of_nat c) (rad_puts (map ascii '' gen'') buf);
     let buf = rad_putx (expect obs c) (rad_puts (map ascii ''='') buf);
     buf \<leftarrow> rad_putu (of_nat c) (rad_puts (map ascii '' trace'') buf);
     Some (rad_putx (obs (t + c) (RAD_PB_EPI_TRACE + c)) (rad_puts (map ascii ''='') buf))
   }"

definition host_line :: "(nat \<Rightarrow> nat \<Rightarrow> u32) \<Rightarrow> nat \<Rightarrow> nat \<Rightarrow> nat \<Rightarrow> u64 \<Rightarrow> u8 list \<Rightarrow> u8 list option" where
  "host_line obs started dn t cycles buf = do {
     buf \<leftarrow> rad_putu (of_nat started) (rad_puts (map ascii ''rad_host_run: started='') buf);
     buf \<leftarrow> rad_putu (of_nat NC) (rad_puts (map ascii ''/'') buf);
     buf \<leftarrow> rad_putu (of_nat dn) (rad_puts (map ascii '' done='') buf);
     buf \<leftarrow> rad_putu (of_nat NC) (rad_puts (map ascii ''/'') buf);
     buf \<leftarrow> put_gen obs t 0 buf;
     buf \<leftarrow> put_gen obs t 1 buf;
     buf \<leftarrow> rad_putu cycles (rad_puts (map ascii '' host_cycles='') buf);
     Some (rad_puts [10] buf)
   }"

text \<open>
  \<open>rad_host_run\<close>: the result, what is written to the console, and the buffer afterwards; the
  cycle counter difference is an argument.
\<close>

definition rad_host_run ::
    "(nat \<Rightarrow> nat \<Rightarrow> u32) \<Rightarrow> u64 \<Rightarrow> u8 list \<Rightarrow> (bool \<times> u8 list \<times> u8 list) option" where
  "rad_host_run obs cycles buf = do {
     let (started, dn, t) = host_wait obs;
     buf \<leftarrow> host_line obs started dn t cycles buf;
     Some (dn = NC, rad_flush buf)
   }"

section \<open>What the console shows\<close>

lemma fold_putc: "length buf \<le> RAD_HOST_OUTBUF_BYTES \<Longrightarrow> fold rad_putc s buf = take RAD_HOST_OUTBUF_BYTES (buf @ s)"
  by (induction s arbitrary: buf) (auto simp: rad_putc_def take_Cons')

definition host_decimal :: "nat \<Rightarrow> u8 list" where
  "host_decimal n = rev (map (\<lambda>d. 48 + of_nat d) (nat_digits 10 n))"

lemma putu_digits_eq:
  "length (nat_digits 10 (unat v)) \<le> room
    \<Longrightarrow> putu_digits room v t = Some (t @ map (\<lambda>d. 48 + of_nat d) (nat_digits 10 (unat v)))"
proof (induction room v t rule: putu_digits.induct)
  case (2 room v t)
  have d: "(ucast (v mod 10) :: u8) = of_nat (unat v mod 10)"
  proof -
    have "unat (v mod 10) = unat v mod 10" by (simp add: unat_mod)
    then have "(of_nat (unat (v mod 10)) :: u8) = of_nat (unat v mod 10)" by (rule arg_cong)
    then show ?thesis by (simp only: of_nat_unat)
  qed
  have q: "unat (v div 10) = unat v div 10" by (simp add: unat_div)
  have z: "v div 10 = 0 \<longleftrightarrow> unat v div 10 = 0" by (metis q unat_eq_zero)
  have nd: "nat_digits 10 (unat v) = unat v mod 10 # (if unat v div 10 = 0 then [] else nat_digits 10 (unat v div 10))"
    by (subst nat_digits.simps) simp
  show ?case
  proof (cases "v div 10 = 0")
    case True
    then show ?thesis using z by (simp add: nd d)
  next
    case False
    then have "length (nat_digits 10 (unat (v div 10))) \<le> room" using 2(2) z by (simp add: nd q)
    then show ?thesis using 2(1) [OF refl refl False] False z by (simp add: nd q d)
  qed
qed simp

lemma rad_putu_eq: "rad_putu v buf = Some (fold rad_putc (host_decimal (unat v)) buf)"
proof -
  have "unat v < 2 ^ LENGTH(64)" by (rule unsigned_less)
  then have "unat v < 10 ^ 20" by simp
  then have "length (nat_digits 10 (unat v)) \<le> 20" by (intro nat_digits_length) auto
  then show ?thesis by (simp add: rad_putu_def putu_digits_eq host_decimal_def)
qed

text \<open>The hexadecimal form of \<open>rad_putx\<close>, always ten characters.\<close>

definition host_hex :: "u32 \<Rightarrow> u8 list" where
  "host_hex v = [48, 120] @ map (\<lambda>i. hex_digit (drop_bit (4 * i) v AND 15)) [7, 6, 5, 4, 3, 2, 1, 0]"

lemma rad_putx_eq: "rad_putx v buf = fold rad_putc (host_hex v) buf"
  by (simp add: rad_putx_def rad_puts_def host_hex_def)

lemma host_decimal_length:
  assumes "n < 10 ^ k" "0 < k"
  shows "length (host_decimal n) \<le> k"
  using nat_digits_length [of 10 n k] assms by (simp add: host_decimal_def)

text \<open>The status line as a text.\<close>

definition gen_text :: "(nat \<Rightarrow> nat \<Rightarrow> u32) \<Rightarrow> nat \<Rightarrow> nat \<Rightarrow> u8 list" where
  "gen_text obs t c = map ascii '' gen'' @ host_decimal c @ map ascii ''='' @ host_hex (expect obs c)
     @ map ascii '' trace'' @ host_decimal c @ map ascii ''='' @ host_hex (obs (t + c) (RAD_PB_EPI_TRACE + c))"

definition line_text :: "(nat \<Rightarrow> nat \<Rightarrow> u32) \<Rightarrow> nat \<Rightarrow> nat \<Rightarrow> nat \<Rightarrow> u64 \<Rightarrow> u8 list" where
  "line_text obs started dn t cycles = map ascii ''rad_host_run: started='' @ host_decimal started @ map ascii ''/2''
     @ map ascii '' done='' @ host_decimal dn @ map ascii ''/2'' @ gen_text obs t 0 @ gen_text obs t 1
     @ map ascii '' host_cycles='' @ host_decimal (unat cycles) @ [10]"

lemma host_decimal_digit: "n < 10 \<Longrightarrow> host_decimal n = [48 + of_nat n]"
  by (simp add: host_decimal_def nat_digits.simps [of 10 n])

lemma line_text_length:
  assumes "started \<le> NC" "dn \<le> NC"
  shows "length (line_text obs started dn t cycles) \<le> 200"
proof -
  have "unat cycles < 2 ^ LENGTH(64)" by (rule unsigned_less)
  then have "unat cycles < 10 ^ 20" by simp
  then have "length (host_decimal (unat cycles)) \<le> 20" by (rule host_decimal_length) simp
  then show ?thesis
    using assms by (simp add: line_text_def gen_text_def host_hex_def host_decimal_digit)
qed

lemma host_line_eq:
  assumes "started \<le> NC" "dn \<le> NC"
  shows "host_line obs started dn t cycles buf = Some (fold rad_putc (line_text obs started dn t cycles) buf)"
proof -
  have u: "unat (of_nat started :: u64) = started" "unat (of_nat dn :: u64) = dn"
    using assms by (simp_all add: unat_of_nat)
  show ?thesis
    unfolding host_line_def put_gen_def Let_def rad_putu_eq rad_putx_eq rad_puts_def Option.bind.bind_lunit u
    by (simp only: fold_append [symmetric] line_text_def gen_text_def append_assoc)
      (simp add: host_decimal_digit)
qed

section \<open>What the polling sees\<close>

lemma sweep_le: "sweep obs n base want t \<le> n"
  unfolding sweep_def by (metis diff_zero length_filter_le length_upt)

lemma length_filter_full: "length (filter P xs) = length xs \<longleftrightarrow> (\<forall>x \<in> set xs. P x)"
proof (induction xs)
  case (Cons x xs)
  moreover have "length (filter P xs) \<noteq> Suc (length xs)" using length_filter_le [of P xs] by linarith
  ultimately show ?case by auto
qed simp

lemma sweep_all: "sweep obs n base want t = n \<longleftrightarrow> (\<forall>c < n. obs (t + c) (base + c) = want c)"
  using length_filter_full [of "\<lambda>c. obs (t + c) (base + c) = want c" "[0..<n]"]
  by (auto simp: sweep_def)

lemma poll_le: "found \<le> n \<Longrightarrow> fst (poll obs n base want left found t) \<le> n"
  by (induction left arbitrary: found t) (auto simp: sweep_le)

lemma poll_found:
  assumes "poll obs n base want left found t = (n, t')" "found < n"
  shows "\<exists>t0. t \<le> t0 \<and> t' = t0 + n \<and> (\<forall>c < n. obs (t0 + c) (base + c) = want c)"
  using assms
proof (induction left arbitrary: found t)
  case (Suc left)
  then have p: "poll obs n base want left (sweep obs n base want t) (t + n) = (n, t')" by simp
  show ?case
  proof (cases "sweep obs n base want t < n")
    case True
    then obtain t0 where "t + n \<le> t0" "t' = t0 + n" "\<forall>c < n. obs (t0 + c) (base + c) = want c"
      using Suc.IH [OF p] by blast
    then show ?thesis by (intro exI [of _ t0]) auto
  next
    case False
    then have eq: "sweep obs n base want t = n" using sweep_le [of obs n base want t] by linarith
    then have "t' = t + n" using p by (cases left) auto
    then show ?thesis using eq sweep_all by blast
  qed
qed simp

section \<open>The run as the host sees it\<close>

text \<open>
  \<open>S t\<close> is the state of the GPU at the host's \<open>t\<close>-th read: until the start generations are read
  it is held in reset, then it runs.
\<close>

definition gpu_trace :: "nat \<Rightarrow> (nat \<Rightarrow> run) \<Rightarrow> bool" where
  "gpu_trace n S \<longleftrightarrow> (\<exists>pb. (\<forall>t < NC. r_pb (S t) = pb) \<and> S NC = run_init pb
     \<and> (\<forall>t \<ge> NC. (run_step n)\<^sup>*\<^sup>* (S t) (S (Suc t))))"

lemma begun_step:
  assumes "NC \<le> n" "run_inv n pb s" "run_step n s s'" "c < NC" "begun (r_pc s c)"
  shows "begun (r_pc s' c)"
proof -
  obtain e where e: "\<And>w. w < n \<Longrightarrow> warp_inv n e s w" using assms(2) by (auto simp: run_inv_def)
  from assms(3) show ?thesis
  proof (cases rule: run_step.cases)
    case (warp w)
    show ?thesis
    proof (cases "w = c")
      case False
      then show ?thesis using other_warp_step(1) [OF _ assms(4) e [OF warp(1)] warp(2)] assms(5) by simp
    next
      case True
      then show ?thesis
        using warp(2) assms(5) by (cases "r_pc s c") (auto simp: warp_step_def run_defs split: if_splits)
    qed
  next
    case sched
    then show ?thesis using assms(5) by (auto dest!: release_inv(2) [where w = c])
  next
    case barA
    then show ?thesis using assms(5) by (auto dest!: release_inv(2) [where w = c] simp: after_A_def)
  next
    case barB
    then show ?thesis using assms(5) by (auto dest!: release_inv(2) [where w = c] simp: after_B_def)
  qed
qed

lemma begun_steps:
  assumes "NC \<le> n" "(run_step n)\<^sup>*\<^sup>* s s'" "run_inv n pb s" "c < NC" "begun (r_pc s c)"
  shows "run_inv n pb s' \<and> begun (r_pc s' c)"
  using assms(2)
  by (induction rule: rtranclp_induct) (use assms run_inv_step begun_step in auto)

lemma trace_steps:
  assumes "\<forall>t \<ge> NC. (run_step n)\<^sup>*\<^sup>* (S t) (S (Suc t))" "NC \<le> t" "t \<le> u"
  shows "(run_step n)\<^sup>*\<^sup>* (S t) (S u)"
  using assms(3)
proof (induction u rule: dec_induct)
  case (step k)
  then show ?case using assms(1,2) by (meson le_trans rtranclp_trans)
qed simp

lemma spin_steps:
  assumes "NC \<le> n" "(run_step n)\<^sup>*\<^sup>* s s'" "run_inv n pb s" "c < NC" "r_pc s c = Spin"
  shows "r_pc s' c = Spin"
proof -
  have "run_inv n pb s' \<and> r_pc s' c = Spin"
    using assms(2)
  proof (induction rule: rtranclp_induct)
    case (step x y)
    obtain e where e: "\<And>w. w < n \<Longrightarrow> warp_inv n e x w" using step.IH by (auto simp: run_inv_def)
    have c: "c < n" using assms(1,4) by simp
    from step.hyps(2) have "r_pc y c = Spin"
    proof (cases rule: run_step.cases)
      case (warp w)
      then have "w \<noteq> c" using step.IH by (auto simp: warp_step_def)
      then show ?thesis using other_warp_step(1) [OF _ assms(4) e [OF warp(1)] warp(2)] step.IH by simp
    next
      case sched
      then show ?thesis using release_inv(1) [OF sched assms(4)] step.IH by simp
    next
      case barA
      then show ?thesis using release_inv(1) [OF barA c] step.IH by simp
    next
      case barB
      then show ?thesis using release_inv(1) [OF barB c] step.IH by simp
    qed
    then show ?case using run_inv_step [OF assms(1) _ step.hyps(2)] step.IH by blast
  qed (use assms in blast)
  then show ?thesis by blast
qed

text \<open>What a run shows of itself once a leader spins.\<close>

lemma spin_state:
  assumes "NC \<le> n" "run_inv n pb s" "c < NC" "r_pc s c = Spin"
  shows "(\<forall>d < NC. r_stores s d = epilogue_stores d) \<and> (\<forall>w < n. epoch 3 (r_pc s w))"
proof -
  obtain e where e: "\<And>w. w < n \<Longrightarrow> warp_inv n e s w" and core: "\<And>c. c < NC \<Longrightarrow> core_inv pb s c"
    using assms(2) by (auto simp: run_inv_def)
  have "c < n" using assms(1,3) by simp
  then have "e = 3" using e [of c] assms(4) by (simp add: warp_inv_def)
  then have ep: "epoch 3 (r_pc s w)" if "w < n" for w using e [OF that] by (simp add: warp_inv_def)
  have "r_stores s d = epilogue_stores d" if "d < NC" for d
    using core [OF that] ep [of d] that assms(1) by (simp add: core_inv_def)
  then show ?thesis using ep by blast
qed

lemma host_wait_found:
  assumes "host_wait obs = (started, NC, t)"
  shows "\<exists>t1 t2. NC \<le> t1 \<and> t1 + NC \<le> t2 \<and> t = t2 + NC
    \<and> (\<forall>c < NC. obs (t1 + c) (RAD_PB_EPI_START + c) = expect obs c)
    \<and> (\<forall>c < NC. obs (t2 + c) (RAD_PB_EPI_CORE + c) = RAD_EPI_DONE_MAGIC)"
proof -
  obtain st u where u: "poll obs NC RAD_PB_EPI_START (expect obs) START_POLLS 0 NC = (st, u)" by force
  have st: "st = NC" and w: "poll obs NC RAD_PB_EPI_CORE (\<lambda>_. RAD_EPI_DONE_MAGIC) DONE_POLLS 0 u = (NC, t)"
    using assms u by (auto simp: host_wait_def rad_host_wait_epilogue_def split: if_splits prod.splits)
  obtain t1 where t1: "NC \<le> t1" "u = t1 + NC" "\<forall>c < NC. obs (t1 + c) (RAD_PB_EPI_START + c) = expect obs c"
    using poll_found [OF u [unfolded st]] by auto
  obtain t2 where "u \<le> t2" "t = t2 + NC" "\<forall>c < NC. obs (t2 + c) (RAD_PB_EPI_CORE + c) = RAD_EPI_DONE_MAGIC"
    using poll_found [OF w] by auto
  with t1 show ?thesis by blast
qed

section \<open>Properties\<close>


text \<open>A run that is over before the first poll.\<close>

definition done_trace :: "run \<Rightarrow> nat \<Rightarrow> run" where
  "done_trace s t = (if t < NC + 1 then run_init stale else s)"

lemma poll_rec:
  "0 < left \<Longrightarrow> poll obs n base want left found t
    = (if found < n then poll obs n base want (left - 1) (sweep obs n base want t) (t + n) else (found, t))"
  by (cases left) simp_all


text \<open>\<open>rad_putu\<close> never overruns its 20-digit buffer: it appends the decimal digits of every
  64-bit value, as far as the console buffer has room.\<close>

theorem rad_putu_prints_decimal:
  assumes "length buf \<le> RAD_HOST_OUTBUF_BYTES"
  shows "rad_putu v buf = Some (take RAD_HOST_OUTBUF_BYTES (buf @ host_decimal (unat v)))"
  by (simp add: rad_putu_eq fold_putc [OF assms])

theorem rad_putu_prints_decimal_witness:
  "rad_putu 18446744073709551615 [61] = Some (take RAD_HOST_OUTBUF_BYTES ([61] @ host_decimal (unat (18446744073709551615 :: u64))))"
  by (rule rad_putu_prints_decimal) (simp add: RAD_HOST_OUTBUF_BYTES_def)

lemma host_run_line:
  assumes "length buf \<le> 3896"
  shows "\<exists>started dn t. started \<le> NC \<and> dn \<le> NC \<and> rad_host_run obs cycles buf
    = Some (dn = NC, buf @ line_text obs started dn t cycles, [])"
proof -
  obtain st dn t where w: "host_wait obs = (st, dn, t)" by (cases "host_wait obs") auto
  have "st \<le> NC" "dn \<le> NC"
    using w poll_le [of 0 NC obs] by (auto simp: host_wait_def rad_host_wait_epilogue_def split: prod.splits if_splits) (metis fst_conv le0)+
  moreover from this have "length (buf @ line_text obs st dn t cycles) \<le> RAD_HOST_OUTBUF_BYTES"
    using assms line_text_length [of st dn obs t cycles] by (simp add: RAD_HOST_OUTBUF_BYTES_def)
  ultimately show ?thesis
    using assms
    by (intro exI [of _ st] exI [of _ dn] exI [of _ t])
      (simp add: rad_host_run_def w host_line_eq fold_putc rad_flush_def)
qed

text \<open>\<open>rad_host_run\<close> always returns and prints, after what was still in the console buffer,
  one whole status line, as long as at most 3896 characters were waiting there.\<close>

theorem host_run_prints_line:
  assumes "length buf \<le> 3896"
  shows "\<exists>started dn t. started \<le> NC \<and> dn \<le> NC \<and> rad_host_run obs cycles buf
    = Some (dn = NC, buf @ line_text obs started dn t cycles, [])"
  using assms by (rule host_run_line)

theorem host_run_prints_line_witness:
  "\<exists>started dn t. started \<le> NC \<and> dn \<le> NC \<and> rad_host_run (\<lambda>_ _. 0) 9 [10]
    = Some (dn = NC, [10] @ line_text (\<lambda>_ _. 0) started dn t 9, [])"
  by (rule host_run_prints_line) simp

end
