(* ===== verification/Mx_Fp.thy ===== *)
theory Mx_Fp
  imports C_Float_Facts
begin

text \<open>
  The MX floating-point primitives of \<open>src/lib/golden/mx_fp_math.h\<close>: conversions between
  binary32, bfloat16 and the narrow formats fp8 (e4m3), fp6 (e3m2), fp4 (e2m1) and e8m0, and
  the quantised arithmetic of the systolic array.  A \<open>float\<close> is an \<^typ>\<open>fnum\<close>
  of \<^const>\<open>binary32\<close>, its bit pattern a \<^typ>\<open>u32\<close>.  The library function
  \<open>log2f\<close>, whose last bit the C standard leaves open, is the parameter \<open>lg\<close>.
\<close>

section \<open>The library functions used\<close>

abbreviation F32 :: ffmt where "F32 \<equiv> binary32"

definition f32_bits :: "fnum \<Rightarrow> u32" where
  "f32_bits x = word_of_int (fenc F32 x)"

definition f32_of_bits :: "u32 \<Rightarrow> fnum" where
  "f32_of_bits b = fdec F32 (uint b)"

abbreviation f32_zero :: fnum where "f32_zero \<equiv> FFin False 0"

fun fabsf :: "fnum \<Rightarrow> fnum" where
  "fabsf (FFin s r) = FFin False r"
| "fabsf (FInf s) = FInf False"
| "fabsf FNan = FNan"

fun signbit :: "fnum \<Rightarrow> bool" where
  "signbit (FFin s r) = s"
| "signbit (FInf s) = s"
| "signbit FNan = False"

fun isfinite :: "fnum \<Rightarrow> bool" where
  "isfinite (FFin s r) = True"
| "isfinite _ = False"

fun isinf :: "fnum \<Rightarrow> bool" where
  "isinf (FInf s) = True"
| "isinf _ = False"

fun floorf :: "fnum \<Rightarrow> fnum" where
  "floorf (FFin s r) = FFin s (of_int \<bar>\<lfloor>fval (FFin s r)\<rfloor>\<bar>)"
| "floorf x = x"

fun ldexpf :: "fnum \<Rightarrow> int \<Rightarrow> fnum" where
  "ldexpf (FFin s r) n = fround F32 s (r * pow2 n)"
| "ldexpf x n = x"

text \<open>\<open>frexpf\<close> of a finite number: the fraction in \<open>[1/2, 1)\<close> and the exponent.\<close>

fun frexpf :: "fnum \<Rightarrow> fnum \<times> int" where
  "frexpf (FFin s r) = (if r = 0 then (FFin s 0, 0)
     else (FFin s (r / pow2 (ilog2 r + 1)), ilog2 r + 1))"
| "frexpf x = (x, 0)"

text \<open>\<open>(int)lroundf(x)\<close>: to nearest, halves away from zero.\<close>

definition lround_int :: "fnum \<Rightarrow> int option" where
  "lround_int x = do { _ \<leftarrow> ftrunc x;
     ck (if fval x < 0 then - \<lfloor>- fval x + 1 / 2\<rfloor> else \<lfloor>fval x + 1 / 2\<rfloor>) }"

definition fi :: "int \<Rightarrow> fnum" where
  "fi n = of_int_f F32 n"

section \<open>bfloat16\<close>

text \<open>The argument is the bit pattern of the \<open>float\<close>, so every payload of a NaN is covered.\<close>

definition f32_to_bf16_rne :: "u32 \<Rightarrow> u16" where
  "f32_to_bf16_rne bits =
     (if bits AND 0x7FFFFFFF = 0 then 0
      else if drop_bit 23 bits AND 0xFF = 0xFF then
        let bf = drop_bit 16 bits;
            bf = (if bits AND 0x7FFFFF \<noteq> 0 \<and> bf AND 0x40 = 0 then bf OR 0x40 else bf)
        in ucast (bf AND 0xFFFF)
      else
        let lsb = drop_bit 16 bits AND 1;
            rounded = bits + 0x7FFF + lsb;
            out = ucast (drop_bit 16 rounded AND 0xFFFF) :: u16
        in if out AND 0x7FFF = 0 then 0 else out)"

definition bf16_to_f32 :: "u16 \<Rightarrow> fnum" where
  "bf16_to_f32 bf = f32_of_bits (push_bit 16 (ucast bf))"

definition bf16_round :: "fnum \<Rightarrow> fnum" where
  "bf16_round x = bf16_to_f32 (f32_to_bf16_rne (f32_bits x))"

section \<open>Quantisation\<close>

definition mx_bias :: "nat \<Rightarrow> int" where
  "mx_bias e_bits = 2 ^ (e_bits - 1) - 1"

definition fp_emax :: "nat \<Rightarrow> nat \<Rightarrow> int" where
  "fp_emax e_bits m_bits =
     (let bias = mx_bias e_bits
      in if e_bits = 4 \<and> m_bits = 3 then bias + 1
         else if e_bits = 2 \<and> m_bits = 1 then 2 ^ e_bits - 1 - bias
         else bias)"

definition mx_product_saturate :: "fnum \<Rightarrow> nat \<Rightarrow> nat \<Rightarrow> fnum" where
  "mx_product_saturate x e_bits m_bits =
     (let bias = mx_bias e_bits;
          is_mx_fp8 = (e_bits = 4 \<and> m_bits = 3);
          emax = (if is_mx_fp8 then bias + 1 else bias);
          scale = fi (2 ^ m_bits);
          max_mant = (if is_mx_fp8 then 2 ^ m_bits - 2 else 2 ^ m_bits - 1);
          max_normal = ldexpf (fadd F32 (fi 1) (fdiv F32 (fi max_mant) scale)) emax;
          sat_man = 2 ^ m_bits - 2;
          sat_val = ldexpf (fadd F32 (fi 1) (fdiv F32 (fi sat_man) scale)) (bias + 1);
          ax = fabsf x
      in if feq ax f32_zero then f32_zero
         else if flt max_normal ax then (if signbit x then fneg sat_val else sat_val)
         else x)"

definition mx_product_quantize_trunc :: "fnum \<Rightarrow> nat \<Rightarrow> nat \<Rightarrow> fnum" where
  "mx_product_quantize_trunc x e_bits frac_bits =
     (if \<not> isfinite x \<or> feq x f32_zero then mx_product_saturate x e_bits frac_bits
      else
        let (mt, e) = frexpf (fabsf x);
            E = e - 1;
            scale = fi (2 ^ frac_bits);
            fr = fsub F32 (fmul F32 (fi 2) mt) (fi 1);
            fr_q = fdiv F32 (floorf (fmul F32 fr scale)) scale;
            v = ldexpf (fadd F32 (fi 1) fr_q) E;
            out = (if signbit x then fneg v else v)
        in mx_product_saturate out e_bits frac_bits)"

definition fp_quantize_trunc :: "fnum \<Rightarrow> nat \<Rightarrow> nat \<Rightarrow> fnum option" where
  "fp_quantize_trunc x e_bits m_bits =
     (if feq x f32_zero \<or> \<not> isfinite x then Some f32_zero
      else do {
        let neg = signbit x;
        let ax = fabsf x;
        let E = snd (frexpf ax) - 1;
        let bias = mx_bias e_bits;
        let emin = 1 - bias;
        let is_mx_fp8 = (e_bits = 4 \<and> m_bits = 3);
        let emax = fp_emax e_bits m_bits;
        let subnorm_delta = ldexpf (fi 1) (emin - int m_bits);
        let scale = fi (2 ^ m_bits);
        v \<leftarrow> (if E < emin then do {
            k \<leftarrow> f_to_int (floorf (fdiv F32 ax subnorm_delta));
            Some (fmul F32 (fi (min k (2 ^ m_bits - 1))) subnorm_delta) }
          else if E > emax then
            let base_max = ldexpf (fi 1) emax;
                delta_max = fdiv F32 base_max scale;
                max_mant = (if is_mx_fp8 then 2 ^ m_bits - 2 else 2 ^ m_bits - 1)
            in Some (fadd F32 base_max (fmul F32 (fi max_mant) delta_max))
          else do {
            let base = ldexpf (fi 1) E;
            let delta = fdiv F32 base scale;
            k \<leftarrow> f_to_int (floorf (fdiv F32 (fsub F32 ax base) delta));
            let hi = (if is_mx_fp8 \<and> E = emax then 2 ^ m_bits - 2 else 2 ^ m_bits - 1);
            let k = min k hi;
            let k = max k 0;
            Some (fadd F32 base (fmul F32 (fi k) delta)) });
        Some (if neg then fneg v else v) })"

text \<open>Shifts of a 64-bit word by 64 or more are undefined.\<close>

definition round_div_pow2_rne_u64 :: "u64 \<Rightarrow> int \<Rightarrow> u64 option" where
  "round_div_pow2_rne_u64 n shift =
     (if shift \<le> 0 then (if - shift < 64 then Some (push_bit (nat (- shift)) n) else None)
      else if 64 \<le> shift then None
      else
        let q = drop_bit (nat shift) n;
            rem = n AND (push_bit (nat shift) 1 - 1);
            half = push_bit (nat (shift - 1)) 1
        in Some (if half < rem \<or> rem = half \<and> q AND 1 \<noteq> 0 then q + 1 else q))"

text \<open>\<open>63 - __builtin_clzll(n)\<close> of a non-zero word: the index of its highest set bit.\<close>

definition top_bit :: "u64 \<Rightarrow> int" where
  "top_bit n = blen (uint n) - 1"

text \<open>The magnitude of a non-zero \<open>float\<close> as \<open>num * 2 ^ exp2\<close>, read from its bit pattern.\<close>

definition num_exp2 :: "u32 \<Rightarrow> u64 \<times> int" where
  "num_exp2 bits =
     (let mant = bits AND 0x7FFFFF;
          e_raw = uint (drop_bit 23 bits AND 0xFF)
      in if e_raw = 0 then (ucast mant, 1 - 127 - 23)
         else (push_bit 23 1 OR ucast mant, e_raw - 127 - 23))"

definition carry_out :: "nat \<Rightarrow> u64 \<Rightarrow> int \<Rightarrow> u64 \<times> int" where
  "carry_out m_bits sig E =
     (if push_bit (m_bits + 1) 1 \<le> sig then (drop_bit 1 sig, E + 1) else (sig, E))"

definition fp_quantize_rne_scalar :: "fnum \<Rightarrow> nat \<Rightarrow> nat \<Rightarrow> fnum option" where
  "fp_quantize_rne_scalar x e_bits m_bits =
     (if x = FNan then Some FNan
      else if isinf x then Some x
      else if feq x f32_zero then Some f32_zero
      else do {
        let neg = signbit x;
        let signed_of = (\<lambda>r. if neg then fneg r else r);
        let (num, exp2) = num_exp2 (f32_bits (fabsf x));
        let p = top_bit num;
        let E = exp2 + p;
        let bias = mx_bias e_bits;
        let emin = 1 - bias;
        let emax = bias;
        if E < emin then do {
          sub_sig \<leftarrow> round_div_pow2_rne_u64 num ((emin - int m_bits) - exp2);
          if sub_sig = 0 then Some f32_zero
          else if push_bit m_bits 1 \<le> sub_sig then do {
            let (total_sig, E_fin) = carry_out m_bits sub_sig emin;
            if E_fin > emax then Some (FInf neg)
            else Some (signed_of (ldexpf (fi (uint total_sig)) (E_fin - int m_bits))) }
          else Some (signed_of (ldexpf (fi (uint sub_sig)) (emin - int m_bits))) }
        else do {
          sig \<leftarrow> round_div_pow2_rne_u64 num (p - int m_bits);
          let (total_sig, E) = carry_out m_bits sig E;
          if E > emax then Some (FInf neg)
          else Some (signed_of (ldexpf (fi (uint total_sig)) (E - int m_bits))) } })"

definition fp_quantize_rne :: "fnum \<Rightarrow> nat \<Rightarrow> nat \<Rightarrow> fnum option" where
  "fp_quantize_rne x e_bits m_bits =
     (if e_bits = 8 \<and> m_bits = 7 then Some (bf16_round x)
      else fp_quantize_rne_scalar x e_bits m_bits)"

definition fp_add_exact :: "fnum \<Rightarrow> fnum \<Rightarrow> nat \<Rightarrow> nat \<Rightarrow> fnum option" where
  "fp_add_exact x y e_bits m_bits =
     (if x = FNan \<or> y = FNan then Some FNan
      else if isinf x \<or> isinf y then
        Some (if isinf x \<and> isinf y \<and> signbit x \<noteq> signbit y then FNan
              else if isinf x then x else y)
      else if feq x f32_zero then Some y
      else if feq y f32_zero then Some x
      else fp_quantize_rne_scalar (fadd F32 x y) e_bits m_bits)"

definition bf16_accum_add :: "fnum \<Rightarrow> fnum \<Rightarrow> fnum option" where
  "bf16_accum_add x y = fp_add_exact (bf16_round x) (bf16_round y) 8 7"

end
