(* ===== verification/Mx_Codes.thy ===== *)
theory Mx_Codes
  imports Mx_Fp
begin

text \<open>
  The codes of the narrow MX formats in \<open>src/lib/golden/mx_fp_math.h\<close>: the decoders, the
  encoders (through E4M2 for fp6 and through E3M1 for fp4), the fixed-point image of an fp6
  code, the nearest entry of a lookup table, and the unpacking of a 96-bit table.
\<close>

section \<open>Rounding to an int\<close>

definition round_half_to_even :: "fnum \<Rightarrow> int option" where
  "round_half_to_even x = do {
     let fl = floorf x;
     let fr = fsub F32 x fl;
     fli \<leftarrow> f_to_int fl;
     if flt fr (const_f F32 (1 / 2)) then Some fli
     else if flt (const_f F32 (1 / 2)) fr then c_add fli 1
     else if odd fli then c_add fli 1 else Some fli }"

section \<open>fp8 (e4m3), fp4 (e2m1), e8m0 and fp6 (e3m2)\<close>

definition fp8_e4m3_to_code :: "(fnum \<Rightarrow> fnum) \<Rightarrow> fnum \<Rightarrow> u8 option" where
  "fp8_e4m3_to_code lg v =
     (if feq v f32_zero \<or> \<not> isfinite v then Some 0
      else do {
        let s = c_bool (signbit v);
        let av = fabsf v;
        E \<leftarrow> f_to_int (floorf (lg av));
        let bias = 7;
        let emin = - 6;
        let emax = 8;
        if E < emin then Some 0
        else do {
          (E_used, mant) \<leftarrow> (if E > emax then Some (emax, 6)
            else do {
              let base = ldexpf (fi 1) E;
              let delta = fdiv F32 base (fi 8);
              k \<leftarrow> round_half_to_even (fdiv F32 (fsub F32 av base) delta);
              if 8 \<le> k then Some (if E + 1 > emax then (emax, 6) else (E + 1, 0))
              else
                let hi = (if E = emax then 6 else 7);
                    k = min k hi;
                    k = max k 0
                in Some (E, k) });
          Some (word_of_int (push_bit 7 s OR push_bit 3 ((E_used + bias) AND 0xF) OR (mant AND 0x7))) } })"

definition fp8_e4m3_decode :: "u8 \<Rightarrow> fnum" where
  "fp8_e4m3_decode code =
     (let s = drop_bit 7 code AND 1;
          e = uint (drop_bit 3 code AND 0xF);
          mt = uint (code AND 0x7);
          bias = 7;
          val = (if e = 0 then fmul F32 (fdiv F32 (fi mt) (fi 8)) (ldexpf (fi 1) (1 - bias))
                 else fmul F32 (fadd F32 (fi 1) (fdiv F32 (fi mt) (fi 8))) (ldexpf (fi 1) (e - bias)))
      in if s \<noteq> 0 then fneg val else val)"

definition fp4_e2m1_decode :: "u8 \<Rightarrow> fnum" where
  "fp4_e2m1_decode code =
     (let s = drop_bit 3 code AND 1;
          e = uint (drop_bit 1 code AND 0x3);
          mt = uint (code AND 0x1);
          val = (if e = 0 then fdiv F32 (fi mt) (fi 2)
                 else fmul F32 (fadd F32 (fi 1) (fdiv F32 (fi mt) (fi 2))) (ldexpf (fi 1) (e - 1)))
      in if s \<noteq> 0 then fneg val else val)"

definition fpe8m0_decode :: "u8 \<Rightarrow> fnum" where
  "fpe8m0_decode code = (if code = 0xFF then FNan else ldexpf (fi 1) (uint code - 127))"

definition fp6_e3m2_decode :: "u8 \<Rightarrow> fnum" where
  "fp6_e3m2_decode code =
     (let s = drop_bit 5 code AND 1;
          e = uint (drop_bit 2 code AND 0x7);
          mt = uint (code AND 0x3);
          val = (if e = 0 then fmul F32 (fi mt) (const_f F32 (1 / 16))
                 else fmul F32 (fadd F32 (fi 1) (fmul F32 (fi mt) (const_f F32 (1 / 4)))) (ldexpf (fi 1) (e - 3)))
      in if s \<noteq> 0 then fneg val else val)"

section \<open>bfloat16 to fp6 through E4M2\<close>

definition bf16_bits_to_e4m2_rne :: "u16 \<Rightarrow> fnum" where
  "bf16_bits_to_e4m2_rne bits =
     (let sign_bit = drop_bit 15 bits AND 1;
          E = uint (drop_bit 7 bits AND 0xFF);
          M = uint (bits AND 0x7F)
      in if E = 0 then f32_zero
         else if E = 255 then FInf (sign_bit \<noteq> 0)
         else
           let e = E - 127;
               sign_f = (if sign_bit \<noteq> 0 then fi (- 1) else fi 1);
               times_256th = (\<lambda>k. fmul F32 (fmul F32 sign_f (fi k)) (fdiv F32 (fi 1) (fi 256)))
           in if - 6 \<le> e \<and> e \<le> 7 then
                let q = (drop_bit 5 M) AND 3;
                    r = (drop_bit 4 M) AND 1;
                    sticky = c_bool (M AND 0xF \<noteq> 0);
                    lsb = (drop_bit 5 M) AND 1;
                    round_up = r AND (sticky OR lsb);
                    sig_rounded = q + round_up;
                    carry = 4 \<le> sig_rounded;
                    mant_out = (if carry then 0 else sig_rounded);
                    exp_out = (if carry then e + 1 else e)
                in if exp_out > 7 then fmul F32 sign_f (FInf False)
                   else fmul F32 (fmul F32 sign_f
                          (fadd F32 (fi 1) (fmul F32 (fi mant_out) (const_f F32 (1 / 4))))) (ldexpf (fi 1) exp_out)
              else if e = - 7 then times_256th (if M \<le> 32 then 2 else if M \<le> 95 then 3 else 4)
              else if e = - 8 then times_256th (if M < 64 then 1 else 2)
              else if e = - 9 then times_256th (if M = 0 then 0 else 1)
              else f32_zero)"

definition e4m2_to_fp6_float :: "fnum \<Rightarrow> fnum" where
  "e4m2_to_fp6_float x =
     (let sign = (if flt x (fi 0) then fi (- 1) else fi 1);
          ax = fabsf x;
          c = const_f F32
      in if \<not> isfinite ax \<or> fle (c 32) ax then fmul F32 sign (c 28)
         else if fle ax (c (546875 / 10000000)) then f32_zero
         else if fle (c (625 / 10000)) ax \<and> fle ax (c (21875 / 100000)) then
           fmul F32 sign (if fle ax (c (78125 / 1000000)) then c (625 / 10000)
                          else if fle ax (c (15625 / 100000)) then c (125 / 1000)
                          else c (1875 / 10000))
         else x)"

definition fp6_value_to_code :: "(fnum \<Rightarrow> fnum) \<Rightarrow> fnum \<Rightarrow> u8 option" where
  "fp6_value_to_code lg v =
     (if feq v f32_zero then Some 0
      else do {
        let s = c_bool (flt v f32_zero);
        let av = fabsf v;
        let e_bits = 3;
        let m_bits = 2;
        let bias = 3;
        if flt av (const_f F32 (1 / 4)) then do {
          k \<leftarrow> lround_int (fdiv F32 av (const_f F32 (1 / 16)));
          let mant = (if k < 0 then 0 else k);
          let mant = min mant (2 ^ m_bits - 1);
          Some (word_of_int (push_bit (e_bits + m_bits) s OR mant)) }
        else do {
          E \<leftarrow> f_to_int (floorf (lg av));
          let base = ldexpf (fi 1) E;
          k \<leftarrow> lround_int (fdiv F32 (fsub F32 av base) (fdiv F32 base (fi 4)));
          let (mant, E) = (if 4 \<le> k then (0, E + 1) else (k, E));
          let biased = min (E + bias) (2 ^ e_bits - 1);
          let mant = min mant (2 ^ m_bits - 1);
          Some (word_of_int (push_bit (e_bits + m_bits) s OR push_bit m_bits biased OR mant)) } })"

definition bf16_bits_to_fp6_e3m2_code :: "(fnum \<Rightarrow> fnum) \<Rightarrow> u16 \<Rightarrow> u8 option" where
  "bf16_bits_to_fp6_e3m2_code lg bits =
     fp6_value_to_code lg (e4m2_to_fp6_float (bf16_bits_to_e4m2_rne bits))"

section \<open>The nearest entry of a table\<close>

definition fp6_to_fixed_point :: "u8 \<Rightarrow> int" where
  "fp6_to_fixed_point val =
     (let val = val AND 0x3F;
          sign = drop_bit 5 val AND 1;
          ex = uint (drop_bit 2 val AND 0x7);
          mant = uint (val AND 0x3);
          is_zero = (ex = 0 \<and> mant = 0);
          s_exp = (if ex = 0 then - 2 else ex - 3);
          implicit = (if ex = 0 then 0 else 1 :: int);
          sig = push_bit 2 implicit OR mant;
          shift_amt = (s_exp + 2) AND 0x7;
          shifted = push_bit (nat shift_amt) sig AND 0x1FF;
          magnitude = shifted AND 0xFF;
          signed_val = (if sign \<noteq> 0 then - magnitude else magnitude)
      in if is_zero then 0 else signed_val)"

text \<open>The table is the pointer the caller passes: its entry at each of the 16 indices.\<close>

definition finder_step :: "int \<Rightarrow> (nat \<Rightarrow> u8) \<Rightarrow> nat \<Rightarrow> nat \<times> int \<Rightarrow> nat \<times> int" where
  "finder_step fixed_in lut i st =
     (let (best, best_d) = st;
          f = fp6_to_fixed_point (lut i);
          d = fixed_in - f;
          d = (if d < 0 then - d else d);
          d = d AND 0x1FF
      in if i = 0 \<or> d < best_d then (i, d) else (best, best_d))"

definition fp6e3m2_nearest_finder :: "u8 \<Rightarrow> (nat \<Rightarrow> u8) \<Rightarrow> nat" where
  "fp6e3m2_nearest_finder in_code lut =
     fst (fold (finder_step (fp6_to_fixed_point in_code) lut) [0..<16] (0, 0))"

section \<open>Unpacking a table of 16 codes\<close>

definition unpack_code :: "u64 \<Rightarrow> u32 \<Rightarrow> nat \<Rightarrow> u8" where
  "unpack_code lo hi i =
     (let b = i * 6
      in if b + 6 \<le> 64 then ucast (drop_bit b lo AND 0x3F)
         else if 64 \<le> b then ucast (drop_bit (b - 64) hi AND 0x3F)
         else ucast ((drop_bit b lo OR push_bit (64 - b) (ucast hi)) AND 0x3F))"

definition unpack_lut_96bit :: "u32 \<Rightarrow> u32 \<Rightarrow> u32 \<Rightarrow> u8 list" where
  "unpack_lut_96bit d0 d1 d2 =
     (let lo = ucast d0 OR push_bit 32 (ucast d1)
      in map (unpack_code lo d2) [0..<16])"

section \<open>bfloat16 to fp4 through E3M1\<close>

definition e3m1_to_fp4 :: "fnum \<Rightarrow> u8 option" where
  "e3m1_to_fp4 mg =
     (let is = (\<lambda>q. feq mg (const_f F32 q))
      in if is 0 \<or> is (1 / 8) \<or> is (1 / 4) then None
         else if is (3 / 8) \<or> is (1 / 2) then Some 1
         else if is (3 / 4) \<or> is 1 then Some 2
         else if is (3 / 2) then Some 3
         else if is 2 then Some 4
         else if is 3 then Some 5
         else if is 4 then Some 6
         else Some 7)"

definition bf16_bits_to_fp4_e2m1_code :: "u16 \<Rightarrow> u8" where
  "bf16_bits_to_fp4_e2m1_code bf16 =
     (let sign_bit = uint (drop_bit 15 bf16 AND 1);
          E = uint (drop_bit 7 bf16 AND 0xFF);
          M = uint (bf16 AND 0x7F);
          with_sign = (\<lambda>c. word_of_int (push_bit 3 sign_bit) OR c);
          from_mag = (\<lambda>mg. case e3m1_to_fp4 mg of None \<Rightarrow> 0 | Some c \<Rightarrow> with_sign c)
      in if E = 0 then 0
         else if E = 255 then with_sign 7
         else
           let e = E - 127
           in if - 2 \<le> e \<and> e \<le> 3 then
                let S = 128 + M;
                    q = drop_bit 6 S AND 1;
                    r = drop_bit 5 S AND 1;
                    sticky = c_bool (S AND 0x1F \<noteq> 0);
                    round_up = r AND (sticky OR q);
                    sig2 = q + round_up;
                    mant_out = (if 2 \<le> sig2 then 0 else sig2);
                    exp_out = (if 2 \<le> sig2 then e + 1 else e)
                in if exp_out > 3 then with_sign 7
                   else from_mag (fmul F32 (fadd F32 (fi 1) (fmul F32 (fi mant_out) (const_f F32 (1 / 2))))
                          (ldexpf (fi 1) exp_out))
              else if e = - 3 then from_mag (if 64 \<le> M then const_f F32 (1 / 4) else const_f F32 (1 / 8))
              else if e = - 4 then from_mag (if 0 < M then const_f F32 (1 / 8) else f32_zero)
              else from_mag f32_zero)"

end
