(* ===== verification/Mx_Facts.thy ===== *)
theory Mx_Facts
  imports Mx_Fp
begin

text \<open>
  Facts the proofs on the MX primitives share: \<open>binary32\<close> numbers as an integer significand
  and an exponent, their encodings, exact cases of the arithmetic, and integer rounding.
\<close>

lemma pow2_not_neg [simp]: "\<not> pow2 k < 0" "\<not> pow2 k \<le> 0" "0 \<le> pow2 k"
  using pow2_pos [of k] by linarith+

section \<open>Significand and exponent of a binary32 number\<close>

lemma binary32_sel [simp]: "mbits binary32 = 23" "ebits binary32 = 8" "fbias binary32 = 127"
  "femin binary32 = - 126" "finf_bits binary32 = 2139095040"
  by (simp_all add: binary32_def fbias_def femin_def finf_bits_def)

lemma dec_mag_sig:
  assumes "0 \<le> n"
  shows "dec_mag F32 n = of_int (n - (max 1 (n div 8388608) - 1) * 8388608) * pow2 (max 1 (n div 8388608) - 150)"
proof (cases "n div 8388608 = 0")
  case True
  then show ?thesis using assms by (simp add: dec_mag_def minus_div_mult_eq_mod [symmetric])
next
  case False
  then have e: "max 1 (n div 8388608) = n div 8388608" using assms by (simp add: pos_imp_zdiv_pos_iff)
  have "n - (n div 8388608 - 1) * 8388608 = 8388608 + n mod 8388608"
    by (simp add: minus_div_mult_eq_mod [symmetric] algebra_simps)
  moreover have "n div 8388608 - 1 + - 126 - 23 = n div 8388608 - 150" by simp
  ultimately show ?thesis using False unfolding e by (simp add: dec_mag_def Let_def)
qed

lemma fexp_sig:
  assumes r: "r = of_int sg * pow2 (E - 150)" and s: "0 < sg" "sg < 16777216"
    and E: "E = 1 \<or> 8388608 \<le> sg"
  shows "E = 1 \<and> sg < 8388608 \<Longrightarrow> ilog2 r < - 126" and "8388608 \<le> sg \<Longrightarrow> ilog2 r = E - 127"
proof -
  have r0: "0 < r" using r s by simp
  have p: "pow2 23 = 8388608" "pow2 24 = 16777216" by (simp_all add: pow2_def)
  have split: "pow2 (E - 127) = pow2 23 * pow2 (E - 150)" "pow2 (E - 126) = pow2 24 * pow2 (E - 150)"
    by (simp_all flip: pow2_add)
  show "ilog2 r = E - 127" if "8388608 \<le> sg"
  proof (rule ilog2_eq)
    have "(of_int 8388608 :: rat) \<le> of_int sg" "(of_int sg :: rat) < of_int 16777216"
      using that s by (simp_all only: of_int_le_iff of_int_less_iff)
    then show "pow2 (E - 127) \<le> r" "r < pow2 (E - 127 + 1)"
      using split p by (simp_all add: r)
  qed
  show "ilog2 r < - 126" if "E = 1 \<and> sg < 8388608"
  proof (rule ccontr)
    assume "\<not> ilog2 r < - 126"
    then have "pow2 (- 126) \<le> r" using ilog2_bounds [OF r0] pow2_mono [of "- 126" "ilog2 r"] by linarith
    moreover have "(of_int sg :: rat) < of_int 8388608" using that by (simp only: of_int_less_iff)
    then have "r < pow2 23 * pow2 (- 149)" using that p by (simp add: r)
    ultimately show False by (simp flip: pow2_add)
  qed
qed

lemma f32_parts:
  assumes rep: "representable F32 r" and r0: "0 < r"
  obtains sg E where "enc_mag F32 r = (E - 1) * 8388608 + sg" "r = of_int sg * pow2 (E - 150)"
    "1 \<le> E" "E \<le> 254" "0 < sg" "sg < 16777216" "E = 1 \<or> 8388608 \<le> sg"
proof -
  define E where "E = fexp F32 r + 127"
  define sg where "sg = \<lfloor>r / fulp F32 r\<rfloor>"
  have u: "fulp F32 r = pow2 (E - 150)" by (simp add: fulp_eq E_def)
  have q: "of_int sg = r / fulp F32 r" using rep r0 by (simp add: representable_def sg_def)
  then have r: "r = of_int sg * pow2 (E - 150)" by (simp add: u)
  have E1: "1 \<le> E" by (simp add: E_def fexp_def)
  have b: "pow2 (ilog2 r) \<le> r" "r < pow2 (ilog2 r + 1)" using ilog2_bounds [OF r0] by auto
  have e: "fexp F32 r = E - 127" by (simp add: E_def)
  have "ilog2 r \<le> 127"
  proof (rule ccontr)
    assume "\<not> ilog2 r \<le> 127"
    then have "pow2 128 \<le> r" using b pow2_mono [of 128 "ilog2 r"] by linarith
    then show False using rep r0 by (simp add: representable_def)
  qed
  then have E2: "E \<le> 254" by (simp add: E_def fexp_def)
  have p: "pow2 23 = of_int 8388608" "pow2 24 = of_int 16777216" by (simp_all add: pow2_def)
  have s0: "0 < sg"
    using r0 unfolding r by (simp add: zero_less_mult_iff)
  have "r < pow2 (E - 127 + 1)" using fexp_less [OF r0, of F32] unfolding e .
  also have "\<dots> = pow2 24 * pow2 (E - 150)" by (simp flip: pow2_add)
  finally have "(of_int sg :: rat) < of_int 16777216" unfolding r p by simp
  then have s1: "sg < 16777216" by (simp only: of_int_less_iff)
  have s2: "E = 1 \<or> 8388608 \<le> sg"
  proof (cases "E = 1")
    case False
    then have "ilog2 r = E - 127" by (simp add: E_def fexp_def max_def split: if_splits)
    then have "pow2 23 * pow2 (E - 150) \<le> r" using b by (simp flip: pow2_add)
    then have "(of_int 8388608 :: rat) \<le> of_int sg" unfolding r p by simp
    then have "8388608 \<le> sg" by (simp only: of_int_le_iff)
    then show ?thesis ..
  qed simp
  have "max (ilog2 r) (- 126) = E - 127" by (simp add: E_def fexp_def)
  then have enc: "enc_mag F32 r = (E - 1) * 8388608 + sg"
    using r0 by (simp add: enc_mag_def flip: sg_def)
  show ?thesis by (rule that [OF enc r E1 E2 s0 s1 s2])
qed

lemma enc_mag_bounds:
  assumes "representable F32 r" "0 < r"
  shows "0 < enc_mag F32 r" "enc_mag F32 r < 2139095040"
proof -
  obtain sg E where p: "enc_mag F32 r = (E - 1) * 8388608 + sg" "1 \<le> E" "E \<le> 254" "0 < sg" "sg < 16777216"
    using f32_parts [OF assms] by metis
  then show "0 < enc_mag F32 r" "enc_mag F32 r < 2139095040" by auto
qed

lemma sig_div:
  fixes E sg :: int
  assumes "1 \<le> E" "0 \<le> sg" "sg < 16777216" "E = 1 \<or> 8388608 \<le> sg"
  shows "((E - 1) * 8388608 + sg) div 8388608 = (if sg < 8388608 then 0 else E)"
proof (cases "sg < 8388608")
  case False
  have "((E - 1) * 8388608 + sg) = E * 8388608 + (sg - 8388608)" by simp
  then have "((E - 1) * 8388608 + sg) div 8388608 = E + (sg - 8388608) div 8388608"
    by (simp only: div_mult_self3)
  then show ?thesis using False assms by simp
qed (use assms in auto)

text \<open>Decoding an encoded number gives it back.\<close>

lemma dec_enc_mag:
  assumes "representable F32 r" "0 < r"
  shows "dec_mag F32 (enc_mag F32 r) = r"
proof -
  obtain sg E where p: "enc_mag F32 r = (E - 1) * 8388608 + sg" "r = of_int sg * pow2 (E - 150)"
    "1 \<le> E" "E \<le> 254" "0 < sg" "sg < 16777216" "E = 1 \<or> 8388608 \<le> sg"
    using f32_parts [OF assms] by blast
  have m: "max 1 (enc_mag F32 r div 8388608) = E"
    using p sig_div [of E sg] by auto
  show ?thesis
    using enc_mag_bounds(1) [OF assms]
    by (subst dec_mag_sig, simp) (simp only: m, simp only: p(1) add_diff_cancel_left' flip: p(2))
qed

lemma f32_bits_pos:
  assumes "representable F32 r" "0 < r"
  shows "uint (f32_bits (FFin False r)) = enc_mag F32 r"
  using enc_mag_bounds [OF assms]
  by (simp add: f32_bits_def c_bool_def unsigned_of_int take_bit_int_eq_self)

lemma f32_of_bits_f32_bits:
  assumes "representable F32 r"
  shows "f32_of_bits (f32_bits (FFin s r)) = FFin s r"
proof (cases "r = 0")
  case True
  have "dec_mag F32 0 = 0" by (simp add: dec_mag_def)
  then show ?thesis by (cases s) (simp_all add: True f32_of_bits_def f32_bits_def enc_mag_def c_bool_def fdec_def)
next
  case False
  then have r0: "0 < r" using assms by (simp add: representable_def)
  note b = enc_mag_bounds [OF assms r0]
  let ?n = "c_bool s * 2147483648 + enc_mag F32 r"
  have n: "0 \<le> ?n" "?n < 4294967296" using b by (auto simp: c_bool_def)
  have "uint (f32_bits (FFin s r)) = ?n"
    using n by (simp add: f32_bits_def unsigned_of_int take_bit_int_eq_self del: of_int_add)
  moreover have "?n mod 2147483648 = enc_mag F32 r" "?n div 2147483648 = c_bool s"
    using b by (auto simp: c_bool_def)
  ultimately show ?thesis
    using b dec_enc_mag [OF assms r0] by (simp add: f32_of_bits_def fdec_def Let_def) (simp add: c_bool_def)
qed

section \<open>Exact arithmetic\<close>

text \<open>Dyadic numbers of at most 24 bits, well inside the exponent range.\<close>

lemma dyadic_rep:
  assumes "0 \<le> n" "n < 16777216" "- 149 \<le> k" "k \<le> 104"
  shows "representable F32 (of_int n * pow2 k)"
proof (cases "n = 0")
  case False
  then have n0: "0 < n" using assms by simp
  have "(of_int n :: rat) < of_int 16777216" using assms(2) by (simp only: of_int_less_iff)
  moreover have "pow2 24 = 16777216" by (simp add: pow2_def)
  ultimately have "of_int n * pow2 k < pow2 24 * pow2 k" by simp
  also have "\<dots> = pow2 (24 + k)" by (simp add: pow2_add)
  also have "\<dots> \<le> pow2 128" using assms by (intro pow2_mono) simp
  finally show ?thesis
    using n0 assms by (intro representable_dyadic [of _ n k]) auto
qed (simp add: representable_def)

lemma fround_dyadic:
  "0 \<le> n \<Longrightarrow> n < 16777216 \<Longrightarrow> - 149 \<le> k \<Longrightarrow> k \<le> 104 \<Longrightarrow>
   fround F32 s (of_int n * pow2 k) = FFin s (of_int n * pow2 k)"
  by (rule fround_representable) (rule dyadic_rep)

lemma fround_pow2:
  assumes "- 149 \<le> k" "k \<le> 104"
  shows "fround F32 s (pow2 k) = FFin s (pow2 k)"
  using fround_dyadic [of 1 k s] assms by simp

lemma fi_exact: "0 \<le> n \<Longrightarrow> n < 16777216 \<Longrightarrow> fi n = FFin False (of_int n)"
  using fround_dyadic [of n 0 False] by (simp add: fi_def of_int_f_def fround_val_def abs_if)

lemma fi_neg1: "fi (- 1) = FFin True 1"
  using fround_dyadic [of 1 0 True] by (simp add: fi_def of_int_f_def fround_val_def)

text \<open>An operation whose exact result has few bits does not round.\<close>

lemma fmul_exact:
  "r * q = of_int n * pow2 k \<Longrightarrow> 0 \<le> n \<Longrightarrow> n < 16777216 \<Longrightarrow> - 149 \<le> k \<Longrightarrow> k \<le> 104 \<Longrightarrow>
   fmul F32 (FFin s r) (FFin t q) = FFin (s \<noteq> t) (r * q)"
  by (simp add: fround_dyadic)

lemma fdiv_exact:
  "q \<noteq> 0 \<Longrightarrow> r / q = of_int n * pow2 k \<Longrightarrow> 0 \<le> n \<Longrightarrow> n < 16777216 \<Longrightarrow> - 149 \<le> k \<Longrightarrow> k \<le> 104 \<Longrightarrow>
   fdiv F32 (FFin s r) (FFin t q) = FFin (s \<noteq> t) (r / q)"
  by (simp add: fround_dyadic)

lemma fadd_exact:
  "r + q = of_int n * pow2 k \<Longrightarrow> 0 < n \<Longrightarrow> n < 16777216 \<Longrightarrow> - 149 \<le> k \<Longrightarrow> k \<le> 104 \<Longrightarrow>
   fadd F32 (FFin False r) (FFin False q) = FFin False (r + q)"
  using pow2_pos [of k] by (simp add: fround_val_def fround_dyadic abs_if zero_less_mult_iff mult_less_0_iff)

section \<open>Integer rounding\<close>

lemma round_even_shift: "even j \<Longrightarrow> round_even (q + of_int j) = round_even q + j"
  by (simp add: round_even_def Let_def)

text \<open>Rounding the quotient by a power of two, as integer code does it.\<close>

lemma round_even_div:
  fixes n d :: int
  assumes "0 < d"
  shows "round_even (of_int n / of_int d) =
    (if d < 2 * (n mod d) \<or> 2 * (n mod d) = d \<and> odd (n div d) then n div d + 1 else n div d)"
proof -
  define f where "f = n div d"
  define g where "g = n mod d"
  have "n = f * d + g" by (simp add: f_def g_def)
  then have q: "of_int n / of_int d = (of_int f + of_int g / of_int d :: rat)"
    using assms by (simp add: field_simps)
  have fl: "\<lfloor>of_int n / of_int d :: rat\<rfloor> = f" by (simp add: floor_divide_of_int_eq f_def)
  have "(of_int g / of_int d < (1 / 2 :: rat)) = (of_int (2 * g) < (of_int d :: rat))"
    "(of_int g / of_int d = (1 / 2 :: rat)) = (of_int (2 * g) = (of_int d :: rat))"
    using assms by (auto simp: field_simps)
  then have c: "(of_int g / of_int d < (1 / 2 :: rat)) = (2 * g < d)"
    "(of_int g / of_int d = (1 / 2 :: rat)) = (2 * g = d)"
    by (simp_all only: of_int_less_iff of_int_eq_iff)
  have d: "of_int n / of_int d - of_int f = (of_int g / of_int d :: rat)" by (simp add: q)
  show ?thesis
    unfolding round_even_def Let_def fl d c f_def [symmetric] g_def [symmetric] by auto
qed

lemma pow2_int: "0 \<le> k \<Longrightarrow> pow2 k = of_int (2 ^ nat k)"
  by (simp add: pow2_def)

lemma blen_ilog2:
  assumes "0 < n"
  shows "ilog2 (of_int n * pow2 k) = blen n - 1 + k"
proof (rule ilog2_eq)
  have b: "pow2 (blen n - 1) \<le> of_int n" "of_int n < pow2 (blen n)" using blen_bounds [OF assms] by auto
  show "pow2 (blen n - 1 + k) \<le> of_int n * pow2 k" using b by (simp add: pow2_add)
  have "pow2 (blen n - 1 + k + 1) = pow2 (blen n) * pow2 k" by (simp flip: pow2_add)
  then show "of_int n * pow2 k < pow2 (blen n - 1 + k + 1)" using b by simp
qed

end
