(* ===== verification/Mx_Rounding.thy ===== *)
theory Mx_Rounding
  imports Mx_Facts
begin

text \<open>
  The bit-level rounding of \<open>src/lib/golden/mx_fp_math.h\<close> implements IEEE
  round-to-nearest-even: the conversion to bfloat16, and the quantisation to any format of at
  most 8 exponent and 23 mantissa bits.  Both replace a zero result by \<open>+0\<close>.
\<close>

section \<open>Rounding division of a word by a power of two\<close>

lemma uint_low_bits: "uint (n AND (push_bit k 1 - 1) :: u64) = uint n mod 2 ^ k"
proof -
  have "(push_bit k 1 - 1 :: u64) = mask k" by (simp add: mask_eq_exp_minus_1 push_bit_eq_mult)
  then show ?thesis by (simp only: uint_and_mask)
qed

lemma uint_inc: "uint q < 2 ^ 24 \<Longrightarrow> uint (q + 1 :: u64) = uint q + 1"
  by (simp add: uint_word_ariths)

lemma round_div_spec:
  assumes n: "uint n < 2 ^ 24" and sh: "- 39 \<le> shift" "shift < 64"
  shows "\<exists>q. round_div_pow2_rne_u64 n shift = Some q \<and> uint q = round_even (of_int (uint n) * pow2 (- shift))"
proof (cases "shift \<le> 0")
  case True
  define k where "k = nat (- shift)"
  have k: "k \<le> 39" "shift = - int k" using sh True by (auto simp: k_def)
  have "uint n * 2 ^ k < 2 ^ 24 * 2 ^ k" using n by simp
  also have "\<dots> \<le> 2 ^ 24 * 2 ^ 39" using k by (intro mult_left_mono power_increasing) auto
  finally have lt: "uint n * 2 ^ k < 2 ^ 64" by simp
  have "uint (push_bit k n) = uint n * 2 ^ k"
    by (subst unsigned_push_bit_eq) (use lt in \<open>simp add: push_bit_eq_mult take_bit_int_eq_self\<close>)
  moreover have "of_int (uint n) * pow2 (- shift) = of_int (uint n * 2 ^ k)"
    by (simp add: k(2) pow2_of_nat)
  ultimately show ?thesis
    using True sh by (simp only: round_even_of_int) (simp add: round_div_pow2_rne_u64_def k_def)
next
  case False
  define k where "k = nat (shift - 1)"
  have k: "k < 63" "shift = int k + 1" "nat shift = Suc k" "nat (shift - 1) = k"
    using sh False by (auto simp: k_def)
  let ?q = "drop_bit (Suc k) n" and ?rem = "n AND (push_bit (Suc k) 1 - 1)" and ?half = "push_bit k 1 :: u64"
  have q: "uint ?q = uint n div 2 ^ Suc k" by (rule uint_drop_bit)
  have rem: "uint ?rem = uint n mod 2 ^ Suc k" by (rule uint_low_bits)
  have half: "uint ?half = 2 ^ k" using k(1) power_strict_increasing [of k 64 "2 :: int"]
    by (subst unsigned_push_bit_eq) (simp add: push_bit_eq_mult take_bit_int_eq_self)
  have lt: "(?half < ?rem) = (2 ^ Suc k < 2 * (uint n mod 2 ^ Suc k))"
    unfolding word_less_def half rem by (simp add: field_simps)
  have eq: "(?rem = ?half) = (2 * (uint n mod 2 ^ Suc k) = 2 ^ Suc k)"
    unfolding word_uint_eq_iff half rem by auto
  have odd: "(?q AND 1 \<noteq> 0) = odd (uint n div 2 ^ Suc k)"
    unfolding q [symmetric] by (simp add: and_one_eq word_uint_eq_iff uint_mod odd_iff_mod_2_eq_one)
  have "uint ?q \<le> uint n" unfolding q by (rule div_le_self) auto
  then have suc: "uint (?q + 1) = uint n div 2 ^ Suc k + 1"
    unfolding q [symmetric] using n by (intro uint_inc) simp
  have "of_int (uint n) * pow2 (- shift) = of_int (uint n) / (of_int (2 ^ Suc k) :: rat)"
    using pow2_of_nat [of "Suc k"] unfolding k(2) pow2_uminus by (simp add: add.commute)
  then have re: "round_even (of_int (uint n) * pow2 (- shift)) =
    (if 2 ^ Suc k < 2 * (uint n mod 2 ^ Suc k) \<or> 2 * (uint n mod 2 ^ Suc k) = 2 ^ Suc k \<and> odd (uint n div 2 ^ Suc k)
     then uint n div 2 ^ Suc k + 1 else uint n div 2 ^ Suc k)"
    by (simp only: round_even_div [of "2 ^ Suc k"] zero_less_power zero_less_numeral)
  have "round_div_pow2_rne_u64 n shift = Some (if ?half < ?rem \<or> ?rem = ?half \<and> ?q AND 1 \<noteq> 0 then ?q + 1 else ?q)"
    unfolding round_div_pow2_rne_u64_def Let_def k(3,4) using False sh by (simp only: if_False not_le [symmetric])
  then show ?thesis
    unfolding re lt eq odd using q suc by (intro exI conjI) (assumption, simp only: if_distrib [where f = uint])
qed

section \<open>The significand and exponent the code reads\<close>

lemma num_exp2_spec:
  assumes "representable F32 r" "0 < r"
  obtains n ex where "num_exp2 (f32_bits (FFin False r)) = (n, ex)" "r = of_int (uint n) * pow2 ex"
    "0 < uint n" "uint n < 2 ^ 24" "- 149 \<le> ex" "ex \<le> 104"
proof -
  obtain sg E where p: "enc_mag F32 r = (E - 1) * 8388608 + sg" "r = of_int sg * pow2 (E - 150)"
    "1 \<le> E" "E \<le> 254" "0 < sg" "sg < 16777216" "E = 1 \<or> 8388608 \<le> sg"
    using f32_parts [OF assms] by blast
  define b where "b = f32_bits (FFin False r)"
  have b: "uint b = (E - 1) * 8388608 + sg" unfolding b_def f32_bits_pos [OF assms] p(1) ..
  have masks: "(0x7FFFFF :: u32) = mask 23" "(0xFF :: u32) = mask 8" by (simp_all add: mask_eq_exp_minus_1)
  have mant: "uint (b AND 0x7FFFFF) = uint b mod 8388608" unfolding masks uint_and_mask by simp
  have raw: "uint (drop_bit 23 b AND 0xFF) = uint b div 8388608 mod 256"
    unfolding masks uint_and_mask uint_drop_bit by simp
  have d: "uint b div 8388608 = (if sg < 8388608 then 0 else E)"
    unfolding b by (rule sig_div) (use p in auto)
  have m: "uint b mod 8388608 = (if sg < 8388608 then sg else sg - 8388608)"
    using d p(7) unfolding minus_div_mult_eq_mod [symmetric] by (auto simp: b)
  show ?thesis
  proof (cases "sg < 8388608")
    case True
    then have "uint (ucast (b AND 0x7FFFFF) :: u64) = sg" using mant m by (simp add: uint_up_ucast)
    moreover have "num_exp2 b = (ucast (b AND 0x7FFFFF), 1 - 127 - 23)"
      using raw d True by (simp add: num_exp2_def Let_def)
    ultimately show ?thesis
      using p True by (intro that [of "ucast (b AND 0x7FFFFF)" "1 - 127 - 23"]) (auto simp: b_def)
  next
    case False
    let ?n = "push_bit 23 1 OR ucast (b AND 0x7FFFFF) :: u64"
    have "?n = push_bit 23 1 + ucast (b AND 0x7FFFFF)"
      unfolding masks by (rule disjunctive_add_eq_or [symmetric]) (rule fields_disjoint)
    moreover have "uint (ucast (b AND 0x7FFFFF) :: u64) = sg - 8388608"
      using mant m False by (simp add: uint_up_ucast)
    ultimately have "uint ?n = sg" using p by (simp add: uint_word_ariths)
    moreover have "num_exp2 b = (?n, E - 127 - 23)"
      using raw d False p by (simp add: num_exp2_def Let_def)
    ultimately show ?thesis
      using p False by (intro that [of ?n "E - 127 - 23"]) (auto simp: b_def)
  qed
qed

section \<open>Quantisation is IEEE rounding\<close>

text \<open>The sign of a zero is dropped.\<close>

definition plus_zero :: "fnum \<Rightarrow> fnum" where
  "plus_zero x = (if feq x f32_zero then f32_zero else x)"

lemma plus_zero_pos: "0 < r \<Longrightarrow> plus_zero (FFin s r) = FFin s r" "plus_zero (FInf s) = FInf s"
  by (auto simp: plus_zero_def)

lemma plus_zero_if: "0 < r \<Longrightarrow> plus_zero (if c then FInf s else FFin s r) = (if c then FInf s else FFin s r)"
  by (simp add: plus_zero_pos)

definition small_fmt :: "nat \<Rightarrow> nat \<Rightarrow> ffmt" where
  "small_fmt e m = \<lparr>mbits = m, ebits = e\<rparr>"

lemma small_fmt_sel [simp]: "mbits (small_fmt e m) = m" "ebits (small_fmt e m) = e"
  "fbias (small_fmt e m) = mx_bias e" "femin (small_fmt e m) = 1 - mx_bias e"
  by (simp_all add: small_fmt_def fbias_def femin_def mx_bias_def)

lemma mx_bias_bounds: "1 \<le> e \<Longrightarrow> e \<le> 8 \<Longrightarrow> 0 \<le> mx_bias e \<and> mx_bias e \<le> 127"
  using power_increasing [of "e - 1" 7 "2 :: int"] by (simp add: mx_bias_def)

lemma push_bit_one_le:
  assumes "m \<le> 24"
  shows "(push_bit m 1 \<le> (q :: u64)) = (2 ^ m \<le> uint q)"
proof -
  have "(2 :: int) ^ m \<le> 2 ^ 24" using assms by (intro power_increasing) auto
  then have "uint (push_bit m 1 :: u64) = 2 ^ m"
    using assms by (subst unsigned_push_bit_eq) (simp add: push_bit_eq_mult take_bit_int_eq_self)
  then show ?thesis by (simp only: word_le_def)
qed

text \<open>A significand that rounds up to the next power of two is renormalised; the value stays.\<close>

lemma carry_out_spec:
  assumes q: "2 ^ m \<le> uint q" "uint q \<le> 2 ^ (m + 1)" and m: "m \<le> 23"
  obtains t E' where "carry_out m q E = (t, E')" "of_int (uint t) * pow2 (E' - int m) = of_int (uint q) * pow2 (E - int m)"
    "2 ^ m \<le> uint t" "uint t < 2 ^ (m + 1)" "E \<le> E'" "E' \<le> E + 1" "uint q = 2 ^ m \<Longrightarrow> E' = E"
proof -
  have le: "(push_bit (m + 1) 1 \<le> q) = (2 ^ (m + 1) \<le> uint q)" using m by (intro push_bit_one_le) simp
  show ?thesis
proof (cases "uint q = 2 ^ (m + 1)")
  case True
  have c: "carry_out m q E = (drop_bit 1 q, E + 1)"
    unfolding carry_out_def le True by simp
  have t: "uint (drop_bit (Suc 0) q) = 2 ^ m" unfolding uint_drop_bit True by simp
  have "pow2 (E + 1 - int m) = 2 * pow2 (E - int m)" using pow2_Suc [of "E - int m"] by (simp add: algebra_simps)
  then show ?thesis by (intro that [OF c]) (simp_all add: t True)
next
  case False
  then have c: "carry_out m q E = (q, E)" unfolding carry_out_def le using q by simp
  show ?thesis by (intro that [OF c]) (use q False in auto)
qed
qed

lemma ldexpf_sig:
  assumes t: "0 < t" "t < 2 ^ (m + 1)" and m: "m \<le> 23" and k: "- 149 \<le> k" and max: "of_int t * pow2 k < pow2 128"
  shows "ldexpf (fi t) k = FFin False (of_int t * pow2 k)"
proof -
  have "(2 :: int) ^ (m + 1) \<le> 2 ^ 24" using m by (intro power_increasing) auto
  then have t24: "t < 16777216" using t by simp
  have "representable F32 (of_int t * pow2 k)"
    using t t24 k max by (intro representable_dyadic [of _ t k]) auto
  then show ?thesis using t t24 by (simp add: fi_exact fround_representable)
qed

lemma encode_sig:
  assumes t: "2 ^ m \<le> t" "t < 2 ^ (m + 1)" and m: "m \<le> 23" and e: "1 \<le> e" "e \<le> 8"
    and E: "1 - mx_bias e \<le> E" and R: "R = of_int t * pow2 (E - int m)"
  shows "(if E > mx_bias e then FInf s else if s then fneg (ldexpf (fi t) (E - int m)) else ldexpf (fi t) (E - int m))
    = (if pow2 (mx_bias e + 1) \<le> R then FInf s else FFin s R)"
proof -
  have t0: "0 < t" using t(1) less_le_trans [of 0 "2 ^ m :: int" t] by simp
  have "(of_int (2 ^ m) :: rat) \<le> of_int t" "(of_int t :: rat) < of_int (2 ^ (m + 1))"
    using t by (simp_all only: of_int_le_iff of_int_less_iff)
  then have "pow2 (int m) * pow2 (E - int m) \<le> R" "R < pow2 (int (m + 1)) * pow2 (E - int m)"
    unfolding R pow2_of_nat by simp_all
  moreover have "int m + (E - int m) = E" "int (m + 1) + (E - int m) = E + 1" by simp_all
  ultimately have lo: "pow2 E \<le> R" and hi: "R < pow2 (E + 1)" by (simp_all only: flip: pow2_add)
  note b = mx_bias_bounds [OF e]
  show ?thesis
  proof (cases "E > mx_bias e")
    case True
    then have "pow2 (mx_bias e + 1) \<le> R" using pow2_mono [of "mx_bias e + 1" E] lo by simp
    then show ?thesis using True by simp
  next
    case False
    then have "pow2 (E + 1) \<le> pow2 (mx_bias e + 1)" "pow2 (E + 1) \<le> pow2 128"
      using b by (simp_all add: pow2_mono)
    then have "\<not> pow2 (mx_bias e + 1) \<le> R" "R < pow2 128" using hi by linarith+
    moreover from this have "ldexpf (fi t) (E - int m) = FFin False R"
      unfolding R using t0 t m b E by (intro ldexpf_sig) auto
    ultimately show ?thesis using False by simp
  qed
qed

lemma frnd_sig: "frnd F r = of_int (round_even (r / fulp F r)) * pow2 (fexp F r - int (mbits F))"
  by (simp add: frnd_def fulp_eq)

lemma quantize_rounds:
  assumes rep: "representable F32 r" and r0: "0 < r"
    and e: "1 \<le> e" "e \<le> 8" and m: "m \<le> 23"
    and big: "pow2 (1 - mx_bias e - int m - 40) \<le> r"
  shows "fp_quantize_rne_scalar (FFin s r) e m = Some (plus_zero (fround (small_fmt e m) s r))"
proof -
  obtain n ex where nx: "num_exp2 (f32_bits (FFin False r)) = (n, ex)" and r: "r = of_int (uint n) * pow2 ex"
    and n: "0 < uint n" "uint n < 2 ^ 24" and ex: "- 149 \<le> ex" "ex \<le> 104"
    using num_exp2_spec [OF rep r0] by metis
  define G where "G = small_fmt e m"
  define L where "L = 1 - mx_bias e"
  define E where "E = ex + top_bit n"
  define X where "X = fexp G r"
  have E: "E = ilog2 r" unfolding E_def r blen_ilog2 [OF n(1)] by (simp add: top_bit_def)
  have X: "X = max E L" by (simp add: X_def fexp_def G_def E L_def)
  have n24: "top_bit n \<le> 23"
  proof (rule ccontr)
    assume "\<not> top_bit n \<le> 23"
    then have "pow2 24 \<le> pow2 (top_bit n)" by (intro pow2_mono) simp
    also have "\<dots> \<le> of_int (uint n)" using blen_bounds [OF n(1)] by (simp add: top_bit_def)
    finally have "pow2 24 \<le> of_int (uint n)" .
    moreover have "pow2 24 = of_int (2 ^ 24)" by (simp add: pow2_def)
    ultimately have "2 ^ 24 \<le> uint n" by (simp only: of_int_le_iff)
    then show False using n(2) by linarith
  qed
  have n0: "0 \<le> top_bit n" using blen_bounds [OF n(1)] by (simp add: top_bit_def)
  have "E > L - int m - 40 - 1"
  proof (rule ccontr)
    assume "\<not> E > L - int m - 40 - 1"
    then have "pow2 (E + 1) \<le> pow2 (1 - mx_bias e - int m - 40)" by (intro pow2_mono) (simp add: L_def)
    then show False using big ilog2_bounds [OF r0] unfolding E by linarith
  qed
  then have sh: "- 39 \<le> X - int m - ex" "X - int m - ex < 64"
    using n0 n24 m by (auto simp: X E_def max_def)
  obtain q where q: "round_div_pow2_rne_u64 n (X - int m - ex) = Some q"
    and uq: "uint q = round_even (of_int (uint n) * pow2 (- (X - int m - ex)))"
    using round_div_spec [OF n(2) sh] by blast
  have "of_int (uint n) * pow2 (- (X - int m - ex)) = r / fulp G r"
    by (simp add: r fulp_eq X_def G_def pow2_uminus pow2_diff)
  then have R: "frnd G r = of_int (uint q) * pow2 (X - int m)"
    by (simp only: uq frnd_sig) (simp add: X_def G_def)
  have fr: "fround G s r = (if pow2 (mx_bias e + 1) \<le> frnd G r then FInf s else FFin s (frnd G r))"
    using r0 by (simp add: fround_eq G_def)
  have q_pos: "0 \<le> uint q" by simp
  note b = mx_bias_bounds [OF e]
  show ?thesis
  proof (cases "E < L")
    case True
    then have XL: "X = L" using X by simp
    have "r \<le> pow2 X" using ilog2_bounds [OF r0] pow2_mono [of "E + 1" X] True unfolding E XL by linarith
    then have "frnd G r \<le> pow2 X" unfolding X_def using r0 by (intro frnd_le_pow2) auto
    also have "pow2 X = of_int (2 ^ m) * pow2 (X - int m)" by (simp add: pow2_diff pow2_of_nat)
    finally have "(of_int (uint q) :: rat) \<le> of_int (2 ^ m)" unfolding R by simp
    then have q_le: "uint q \<le> 2 ^ m" by (simp only: of_int_le_iff)
    have code: "fp_quantize_rne_scalar (FFin s r) e m = Some (if q = 0 then f32_zero
      else if push_bit m 1 \<le> q then case carry_out m q L of (t, E') \<Rightarrow>
        (if E' > mx_bias e then FInf s else if s then fneg (ldexpf (fi (uint t)) (E' - int m)) else ldexpf (fi (uint t)) (E' - int m))
      else if s then fneg (ldexpf (fi (uint q)) (L - int m)) else ldexpf (fi (uint q)) (L - int m))"
      using r0 True q unfolding XL
      by (simp add: fp_quantize_rne_scalar_def nx E_def L_def split: prod.split)
    consider "q = 0" | "2 ^ m \<le> uint q" | "0 < uint q" "uint q < 2 ^ m"
      using q_pos by (metis linorder_not_le order_le_less uint_0_iff)
    then show ?thesis
    proof cases
      case 1
      then have "frnd G r = 0" by (simp add: R)
      then have "fround G s r = FFin s 0" by (simp add: fr)
      then show ?thesis using code 1 by (simp add: plus_zero_def flip: G_def)
    next
      case 2
      then have q2: "uint q = 2 ^ m" using q_le by simp
      then have qb: "2 ^ m \<le> uint q" "uint q \<le> 2 ^ (m + 1)" by simp_all
      obtain t E' where c: "carry_out m q L = (t, E')"
        "of_int (uint t) * pow2 (E' - int m) = of_int (uint q) * pow2 (L - int m)"
        "2 ^ m \<le> uint t" "uint t < 2 ^ (m + 1)" "L \<le> E'"
        by (rule carry_out_spec [OF qb m, of L])
      have R0: "0 < frnd G r" unfolding R by (simp add: q2)
      have "frnd G r = of_int (uint t) * pow2 (E' - int m)" by (simp only: R XL c(2))
      note enc = encode_sig [OF c(3,4) m e _ this, of s]
      have "push_bit m 1 \<le> q" using push_bit_one_le [of m q] m 2 by simp
      moreover have "q \<noteq> 0" using q2 by auto
      ultimately show ?thesis
        unfolding code c(1) G_def [symmetric] fr
        using enc c(5) R0 by (simp only: if_False if_True prod.case L_def plus_zero_if)
    next
      case 3
      then have "(of_int (uint q) :: rat) < of_int (2 ^ m)" by (simp only: of_int_less_iff)
      then have "frnd G r < pow2 L" unfolding R XL by (simp add: pow2_diff pow2_of_nat field_simps)
      moreover have "pow2 L \<le> pow2 (mx_bias e + 1)" "pow2 L \<le> pow2 128"
        using b by (auto intro!: pow2_mono simp: L_def)
      ultimately have lt: "\<not> pow2 (mx_bias e + 1) \<le> frnd G r" "frnd G r < pow2 128" by linarith+
      have "(0 :: rat) < of_int (uint q)" using 3(1) by (simp only: of_int_0_less_iff)
      then have R0: "0 < frnd G r" unfolding R by (intro mult_pos_pos pow2_pos)
      have l: "ldexpf (fi (uint q)) (L - int m) = FFin False (frnd G r)"
        using 3 b m lt(2) unfolding R XL by (intro ldexpf_sig) (auto simp: L_def)
      have "\<not> push_bit m 1 \<le> q" using push_bit_one_le [of m q] m 3 by simp
      moreover have "q \<noteq> 0" using 3 by auto
      ultimately show ?thesis
        unfolding code G_def [symmetric] fr using lt(1) R0 by (simp add: l plus_zero_pos)
    qed
  next
    case False
    then have XE: "X = E" using X by simp
    have code: "fp_quantize_rne_scalar (FFin s r) e m = Some (case carry_out m q E of (t, E') \<Rightarrow>
        (if E' > mx_bias e then FInf s else if s then fneg (ldexpf (fi (uint t)) (E' - int m)) else ldexpf (fi (uint t)) (E' - int m)))"
      using r0 False q unfolding XE
      by (simp add: fp_quantize_rne_scalar_def nx E_def L_def split: prod.split)
    have "pow2 X \<le> frnd G r" "frnd G r \<le> pow2 (X + 1)"
      using r0 ilog2_bounds [OF r0] frnd_ge_pow2 [of r G] frnd_le_pow2 [of r "X + 1" G]
      by (simp_all add: XE E flip: X_def)
    then have "of_int (2 ^ m) * pow2 (X - int m) \<le> frnd G r" "frnd G r \<le> of_int (2 ^ (m + 1)) * pow2 (X - int m)"
      by (simp_all add: pow2_diff pow2_of_nat pow2_add)
    then have "(of_int (2 ^ m) :: rat) \<le> of_int (uint q)" "of_int (uint q) \<le> (of_int (2 ^ (m + 1)) :: rat)"
      unfolding R mult_le_cancel_right by (auto simp del: of_int_power of_int_of_nat_eq)
    then have q2: "2 ^ m \<le> uint q" "uint q \<le> 2 ^ (m + 1)" by (simp_all only: of_int_le_iff)
    obtain t E' where c: "carry_out m q E = (t, E')"
      "of_int (uint t) * pow2 (E' - int m) = of_int (uint q) * pow2 (E - int m)"
      "2 ^ m \<le> uint t" "uint t < 2 ^ (m + 1)" "E \<le> E'"
      by (rule carry_out_spec [OF q2 m, of E])
    have R0: "0 < frnd G r" using \<open>pow2 X \<le> frnd G r\<close> pow2_pos [of X] by linarith
    have "frnd G r = of_int (uint t) * pow2 (E' - int m)" by (simp only: R XE c(2))
    note enc = encode_sig [OF c(3,4) m e _ this, of s]
    show ?thesis
      unfolding code c(1) G_def [symmetric] fr
      using enc c(5) R0 False by (simp add: plus_zero_if L_def)
  qed
qed



text \<open>Far below the smallest subnormal the quantisation is undefined: for the smallest
  \<open>float\<close> and the e4m3 format the code shifts a 64-bit word by 140.\<close>

theorem fp_quantize_rne_tiny_undefined:
  "fp_quantize_rne_scalar (f32_of_bits 1) 4 3 = None"
  by code_simp

end
