(* ===== verification/Mx_Bf16.thy ===== *)
theory Mx_Bf16
  imports Mx_Rounding
begin

text \<open>
  The conversion of \<open>float\<close> to bfloat16 by integer addition on the bit pattern
  (\<open>f32_to_bf16_rne\<close> of \<open>src/lib/golden/mx_fp_math.h\<close>) is IEEE rounding to the format of
  8 exponent and 7 mantissa bits, and bfloat16 numbers survive a round trip.
\<close>

section \<open>The magnitude\<close>

abbreviation bfloat16 :: ffmt where "bfloat16 \<equiv> small_fmt 8 7"

text \<open>What the integer addition computes on the magnitude bits.\<close>

definition bf16_mag :: "int \<Rightarrow> int" where
  "bf16_mag n = (n + 32767 + n div 65536 mod 2) div 65536"

lemma bf16_mag_round_even: "bf16_mag n = round_even (of_int n / of_int 65536)"
proof -
  define f g where "f = n div 65536" and "g = n mod 65536"
  have n: "n = f * 65536 + g" "0 \<le> g" "g < 65536" by (simp_all add: f_def g_def)
  have "n + 32767 + f mod 2 = f * 65536 + (g + 32767 + f mod 2)" using n(1) by linarith
  then have "bf16_mag n = (f * 65536 + (g + 32767 + f mod 2)) div 65536"
    by (simp only: bf16_mag_def flip: f_def)
  also have "\<dots> = f + (g + 32767 + f mod 2) div 65536" by (simp only: div_mult_self3)
  finally have "bf16_mag n = f + (g + 32767 + f mod 2) div 65536" .
  moreover have "(g + 32767 + f mod 2) div 65536 =
      (if 65536 < 2 * g \<or> 2 * g = 65536 \<and> odd f then 1 else 0)"
  proof -
    have "(g + 32768) div 65536 = (if 32768 \<le> g then 1 else 0)" "(g + 32767) div 65536 = (if 32768 < g then 1 else 0)"
      using n(2,3) div_eqI [of 65536 0 "g + 32768"] div_eqI [of 65536 1 "g + 32768"]
        div_eqI [of 65536 0 "g + 32767"] div_eqI [of 65536 1 "g + 32767"] by auto
    then show ?thesis by (cases "even f") (auto simp: odd_iff_mod_2_eq_one even_iff_mod_2_eq_zero)
  qed
  ultimately show ?thesis
    unfolding round_even_div [of 65536 n, simplified, folded f_def g_def] of_int_numeral by auto
qed

lemma bf16_mag_bounds: "0 \<le> n \<Longrightarrow> n < 2139095040 \<Longrightarrow> 0 \<le> bf16_mag n \<and> bf16_mag n \<le> 32640"
  unfolding bf16_mag_def by (auto simp: pos_imp_zdiv_nonneg_iff)

lemma frnd_bf16:
  assumes n: "0 < n" "n < 2139095040"
  shows "frnd bfloat16 (dec_mag F32 n) = dec_mag F32 (bf16_mag n * 65536)"
proof -
  define e where "e = n div 8388608"
  define E where "E = max 1 e"
  define sg where "sg = n - (E - 1) * 8388608"
  define k where "k = bf16_mag n"
  define r where "r = dec_mag F32 n"
  have e: "0 \<le> e" "e * 8388608 \<le> n" "n < e * 8388608 + 8388608"
    using n le_div_less [of n 8388608 e] mult_div_le [of 8388608 n] by (auto simp: e_def pos_imp_zdiv_nonneg_iff mult.commute)
  have r: "r = of_int sg * pow2 (E - 150)"
    using dec_mag_sig [of n] n by (simp add: r_def sg_def E_def e_def)
  have sg: "0 < sg" "sg < 16777216" "E = 1 \<and> sg < 8388608 \<or> 8388608 \<le> sg" "1 \<le> E"
    using e n by (auto simp: sg_def E_def max_def)
  have X: "fexp bfloat16 r = E - 127"
    using fexp_sig [OF r sg(1,2)] sg(3,4) by (auto simp: fexp_def mx_bias_def)
  have q: "r / fulp bfloat16 r = of_int n / of_int 65536 + of_int (- ((E - 1) * 128))"
  proof -
    have "r / fulp bfloat16 r = of_int sg * (pow2 (E - 150) / pow2 (E - 134))"
      unfolding fulp_eq X by (simp add: r)
    also have "pow2 (E - 150) / pow2 (E - 134) = 1 / of_int 65536"
      by (simp flip: pow2_diff) (simp add: pow2_def)
    finally show ?thesis by (simp add: sg_def field_simps)
  qed
  have "even (- ((E - 1) * 128))" by simp
  note re = round_even_shift [OF this, of "of_int n / of_int 65536", folded bf16_mag_round_even]
  have frnd: "frnd bfloat16 r = of_int (k - (E - 1) * 128) * pow2 (E - 134)"
    unfolding frnd_def q re by (simp add: fulp_eq X k_def)
  have k: "0 \<le> k" "e * 128 \<le> k" "k \<le> e * 128 + 128"
  proof -
    define c where "c = n div 65536 mod 2"
    have "0 \<le> c" "c \<le> 1" "k = (n + 32767 + c) div 65536" by (auto simp: c_def k_def bf16_mag_def)
    then show "0 \<le> k" "e * 128 \<le> k" "k \<le> e * 128 + 128"
      using e n le_divI [of 65536 "e * 128" "n + 32767 + c"] le_divI [of 65536 0 "n + 32767 + c"]
        div_lessI [of 65536 "n + 32767 + c" "e * 128 + 129"] by simp_all
  qed
  define E' where "E' = max 1 (k div 128)"
  have d: "dec_mag F32 (k * 65536) = of_int (k - (E' - 1) * 128) * pow2 (E' - 134)"
  proof -
    have kd: "k * 65536 div 8388608 = k div 128"
      using div_mult_mult2 [of 65536 k 128] by simp
    have "dec_mag F32 (k * 65536) = of_int (k * 65536 - (E' - 1) * 8388608) * pow2 (E' - 150)"
      using dec_mag_sig [of "k * 65536"] k(1) unfolding kd E'_def [symmetric] by simp
    also have "\<dots> = of_int (k - (E' - 1) * 128) * (of_int 65536 * pow2 (E' - 150))" by (simp add: algebra_simps)
    also have "of_int 65536 * pow2 (E' - 150) = pow2 (16 + (E' - 150))"
      unfolding pow2_add by (simp add: pow2_def)
    finally show ?thesis by simp
  qed
  show ?thesis
  proof (cases "E' = E")
    case True
    then show ?thesis using frnd d by (simp add: r_def k_def)
  next
    case False
    then have "E' = E + 1" "k = (e + 1) * 128" "E = e"
      using k e(1) by (auto simp: E'_def E_def max_def split: if_splits)
    then show ?thesis using frnd d pow2_Suc [of "E - 134"] by (simp add: r_def k_def)
  qed
qed

lemma dec_mag_bounds:
  assumes n: "0 < n" "n < 2139095040"
  shows "0 < dec_mag F32 n" "dec_mag F32 n < pow2 128"
proof -
  define e where "e = n div 8388608"
  define E where "E = max 1 e"
  define sg where "sg = n - (E - 1) * 8388608"
  have e: "0 \<le> e" "e * 8388608 \<le> n" "n < e * 8388608 + 8388608" "e < 255"
    using n le_div_less [of n 8388608 e] mult_div_le [of 8388608 n] div_lessI [of 8388608 n 255]
    by (auto simp: e_def pos_imp_zdiv_nonneg_iff mult.commute)
  have d: "dec_mag F32 n = of_int sg * pow2 (E - 150)"
    using dec_mag_sig [of n] n by (simp add: sg_def E_def e_def)
  have sg: "0 < sg" "sg < 16777216" "E \<le> 254" using e n by (auto simp: sg_def E_def max_def)
  have "(of_int sg :: rat) < of_int 16777216" using sg by (simp only: of_int_less_iff)
  also have "\<dots> = pow2 24" by (simp add: pow2_def)
  finally have "dec_mag F32 n < pow2 24 * pow2 (E - 150)" unfolding d by simp
  also have "\<dots> = pow2 (E - 126)" by (simp flip: pow2_add)
  also have "\<dots> \<le> pow2 128" using sg by (intro pow2_mono) simp
  finally show "dec_mag F32 n < pow2 128" .
  show "0 < dec_mag F32 n" unfolding d using sg by simp
qed

lemma dec_mag_rep:
  assumes n: "0 \<le> n" "n < 2139095040"
  shows "representable F32 (dec_mag F32 n)"
proof (cases "n = 0")
  case False
  then have n0: "0 < n" using n by simp
  define e where "e = n div 8388608"
  define E where "E = max 1 e"
  define sg where "sg = n - (E - 1) * 8388608"
  have e: "0 \<le> e" "e * 8388608 \<le> n" "n < e * 8388608 + 8388608"
    using n le_div_less [of n 8388608 e] mult_div_le [of 8388608 n]
    by (auto simp: e_def pos_imp_zdiv_nonneg_iff mult.commute)
  have "dec_mag F32 n = of_int sg * pow2 (E - 150)"
    using dec_mag_sig [of n] n by (simp add: sg_def E_def e_def)
  moreover have "0 < sg" "sg < 16777216" "1 \<le> E" using e n0 by (auto simp: sg_def E_def max_def)
  ultimately show ?thesis
    using dec_mag_bounds [OF n0 n(2)] by (intro representable_dyadic [of _ sg "E - 150"]) auto
qed (simp add: dec_mag_def representable_def)

section \<open>The bit pattern\<close>

lemma u32_split: "\<exists>S. uint (b :: u32) = S * 2147483648 + uint b mod 2147483648 \<and> (S = 0 \<or> S = 1)"
proof -
  have "uint b < 2 ^ LENGTH(32)" by (rule unsigned_less)
  then have "uint b div 2147483648 < 2" "0 \<le> uint b div 2147483648" by (auto intro!: div_lessI simp: pos_imp_zdiv_nonneg_iff)
  then have "uint b div 2147483648 = 0 \<or> uint b div 2147483648 = 1" by linarith
  then show ?thesis by (intro exI [of _ "uint b div 2147483648"]) simp
qed

lemma uint_eq_0: "(w = 0) = (uint w = 0)"
  by (simp add: word_uint_eq_iff)

lemma masks: "(0x7FFFFFFF :: u32) = mask 31" "(0x7FFFFF :: u32) = mask 23" "(0xFF :: u32) = mask 8"
  "(0xFFFF :: u32) = mask 16" "(1 :: u32) = mask 1" "(0x7FFF :: u16) = mask 15"
  by (simp_all add: mask_eq_exp_minus_1)

lemma uint_masks:
  "uint (b AND 0x7FFFFFFF) = uint b mod 2147483648" "uint (b AND 0x7FFFFF) = uint b mod 8388608"
  "uint (b AND 0xFF) = uint b mod 256" "uint (b AND 0xFFFF) = uint b mod 65536"
  "uint (b AND 1) = uint b mod 2" "uint (w AND 0x7FFF) = uint w mod 32768" for b :: u32 and w :: u16
  unfolding masks uint_and_mask by simp_all

lemma f32_of_bits_fin:
  assumes "f32_of_bits b = FFin s r"
  shows "uint b mod 2147483648 < 2139095040" "s = odd (uint b div 2147483648)" "r = dec_mag F32 (uint b mod 2147483648)"
  using assms by (auto simp: f32_of_bits_def fdec_def Let_def split: if_splits)

lemma f32_to_bf16_fin:
  assumes m: "uint b mod 2147483648 < 2139095040" "uint b mod 2147483648 \<noteq> 0"
  shows "uint (f32_to_bf16_rne b) = (if bf16_mag (uint b mod 2147483648) = 0 then 0
    else uint b div 2147483648 * 32768 + bf16_mag (uint b mod 2147483648))"
proof -
  define n where "n = uint b mod 2147483648"
  obtain S where S: "uint b = S * 2147483648 + n" "S = 0 \<or> S = 1" using u32_split [of b] by (auto simp: n_def)
  have n: "0 < n" "n < 2139095040" using m by (auto simp: n_def order_less_le)
  have nz: "b AND 0x7FFFFFFF \<noteq> 0" using m(2) by (simp only: uint_eq_0 uint_masks) simp
  have "uint b div 8388608 = S * 256 + n div 8388608" unfolding S(1) by (simp add: div_mult_self3 [of 8388608 "S * 256" n, simplified])
  moreover have "n div 8388608 < 255" "0 \<le> n div 8388608" using n by (auto intro!: div_lessI simp: pos_imp_zdiv_nonneg_iff)
  ultimately have "uint (drop_bit 23 b AND 0xFF) = n div 8388608"
    unfolding uint_masks uint_drop_bit by simp
  then have ex: "drop_bit 23 b AND 0xFF \<noteq> 0xFF"
    using \<open>n div 8388608 < 255\<close> by (auto simp: word_uint_eq_iff)
  define c where "c = n div 65536 mod 2"
  have "uint b div 65536 = S * 32768 + n div 65536" unfolding S(1) by simp
  then have lsb: "uint (drop_bit 16 b AND 1) = c"
    unfolding uint_masks uint_drop_bit using S(2) by (auto simp: c_def mod_add_left_eq [symmetric])
  have c: "0 \<le> c" "c \<le> 1" by (auto simp: c_def)
  have rounded: "uint (b + 0x7FFF + (drop_bit 16 b AND 1)) = S * 2147483648 + (n + 32767 + c)"
    using S n c lsb by (auto simp: uint_word_ariths)
  have k: "bf16_mag n = (n + 32767 + c) div 65536" by (simp add: bf16_mag_def c_def)
  have kb: "0 \<le> bf16_mag n" "bf16_mag n \<le> 32640" using bf16_mag_bounds [of n] n by auto
  define out where "out = (ucast (drop_bit 16 (b + 0x7FFF + (drop_bit 16 b AND 1)) AND 0xFFFF) :: u16)"
  have "uint (drop_bit 16 (b + 0x7FFF + (drop_bit 16 b AND 1)) AND 0xFFFF) = S * 32768 + bf16_mag n"
    unfolding uint_masks uint_drop_bit rounded k using S(2) kb k by auto
  then have out: "uint out = S * 32768 + bf16_mag n"
    unfolding out_def by (subst unsigned_ucast_eq) (use S(2) kb in \<open>auto simp: take_bit_int_eq_self\<close>)
  have z: "(out AND 0x7FFF = 0) = (bf16_mag n = 0)"
    unfolding uint_eq_0 uint_masks out using kb by auto
  have "f32_to_bf16_rne b = (if out AND 0x7FFF = 0 then 0 else out)"
    unfolding f32_to_bf16_rne_def out_def Let_def using nz ex by (simp only: if_False)
  then show ?thesis
    unfolding n_def [symmetric] using z out S n by auto
qed

lemma bf16_to_f32_eq:
  "bf16_to_f32 w = fdec F32 (uint w * 65536)"
proof -
  have "uint w < 2 ^ LENGTH(16)" by (rule unsigned_less)
  then have "uint (push_bit 16 (ucast w) :: u32) = uint w * 65536"
    by (subst unsigned_push_bit_eq) (simp add: uint_up_ucast push_bit_eq_mult take_bit_int_eq_self)
  then show ?thesis by (simp add: bf16_to_f32_def f32_of_bits_def)
qed

lemma bf16_rounds:
  assumes "f32_of_bits b = FFin s r"
  shows "bf16_to_f32 (f32_to_bf16_rne b) = plus_zero (fround bfloat16 s r)"
proof -
  define n where "n = uint b mod 2147483648"
  note f = f32_of_bits_fin [OF assms, folded n_def]
  obtain S where S: "uint b = S * 2147483648 + n" "S = 0 \<or> S = 1" using u32_split [of b] by (auto simp: n_def)
  have Sd: "uint b div 2147483648 = S" and n0: "0 \<le> n" using S by (auto simp: n_def)
  have z: "fdec F32 0 = f32_zero" by (simp add: fdec_def dec_mag_def)
  show ?thesis
  proof (cases "n = 0")
    case True
    then have "b AND 0x7FFFFFFF = 0" unfolding uint_eq_0 uint_masks n_def .
    then have "f32_to_bf16_rne b = 0" by (simp add: f32_to_bf16_rne_def)
    moreover have "r = 0" using f(3) True by (simp add: dec_mag_def)
    ultimately show ?thesis by (simp add: bf16_to_f32_eq z plus_zero_def fround_def)
  next
    case False
    then have n: "0 < n" using n0 by simp
    define k where "k = bf16_mag n"
    have k: "0 \<le> k" "k \<le> 32640" using bf16_mag_bounds [of n] n f(1) by (auto simp: k_def)
    have u: "uint (f32_to_bf16_rne b) = (if k = 0 then 0 else S * 32768 + k)"
      using f32_to_bf16_fin [of b] f(1) False unfolding n_def [symmetric] Sd k_def by simp
    have frnd: "frnd bfloat16 r = dec_mag F32 (k * 65536)" unfolding f(3) k_def using n f(1) by (rule frnd_bf16)
    have r: "0 < r" using dec_mag_bounds [OF n f(1)] f(3) by simp
    have fr: "fround bfloat16 s r = (if pow2 128 \<le> dec_mag F32 (k * 65536) then FInf s
        else FFin s (dec_mag F32 (k * 65536)))"
      using r by (simp add: fround_eq frnd) (simp add: mx_bias_def)
    have sgn: "s = odd S" using f(2) Sd by simp
    consider "k = 0" | "0 < k" "k < 32640" | "k = 32640" using k by linarith
    then show ?thesis
    proof cases
      case 1
      have "dec_mag F32 0 = 0" by (simp add: dec_mag_def)
      then show ?thesis using u fr 1 by (simp add: bf16_to_f32_eq z plus_zero_def)
    next
      case 2
      then have b: "0 < dec_mag F32 (k * 65536)" "dec_mag F32 (k * 65536) < pow2 128"
        using dec_mag_bounds [of "k * 65536"] by auto
      have "uint (f32_to_bf16_rne b) * 65536 = S * 2147483648 + k * 65536" using u 2 by simp
      moreover have "fdec F32 (S * 2147483648 + k * 65536) = FFin (odd S) (dec_mag F32 (k * 65536))"
        using 2 by (simp add: fdec_def Let_def)
      ultimately show ?thesis unfolding bf16_to_f32_eq fr unfolding sgn using b by (simp add: plus_zero_pos not_le)
    next
      case 3
      have "dec_mag F32 2139095040 = of_int 8388608 * pow2 105"
        by (subst dec_mag_sig) simp_all
      also have "\<dots> = pow2 23 * pow2 105" by (simp add: pow2_def)
      finally have "dec_mag F32 2139095040 = pow2 128" by (simp flip: pow2_add)
      moreover have "uint (f32_to_bf16_rne b) * 65536 = S * 2147483648 + 2139095040" using u 3 by simp
      moreover have "fdec F32 (S * 2147483648 + 2139095040) = FInf (odd S)" by (simp add: fdec_def Let_def)
      ultimately show ?thesis unfolding bf16_to_f32_eq fr unfolding sgn by (simp add: plus_zero_pos 3)
    qed
  qed
qed

text \<open>C22: Converting a finite \<open>float\<close> to bfloat16 by the integer trick yields the number
  that IEEE round-to-nearest-even gives in the format of 8 exponent and 7 mantissa bits,
  overflow to infinity and subnormal results included, except that a zero result is \<open>+0\<close>.\<close>

theorem f32_to_bf16_rne_rounds:
  assumes "f32_of_bits b = FFin s r"
  shows "bf16_to_f32 (f32_to_bf16_rne b) = plus_zero (fround bfloat16 s r)"
  using assms by (rule bf16_rounds)

theorem f32_to_bf16_rne_rounds_witness:
  "bf16_to_f32 (f32_to_bf16_rne 0x3EAAAAAB) = plus_zero (fround bfloat16 False (dec_mag F32 0x3EAAAAAB))"
  by (rule f32_to_bf16_rne_rounds) (simp add: f32_of_bits_def fdec_def Let_def)

text \<open>A bfloat16 number converted to \<open>float\<close> and back is itself.\<close>

theorem bf16_round_trip:
  fixes w :: u16
  assumes fin: "uint w mod 32768 < 32640" and nz: "uint w mod 32768 \<noteq> 0"
  shows "f32_to_bf16_rne (push_bit 16 (ucast w)) = w"
proof -
  have w: "uint w < 2 ^ LENGTH(16)" by (rule unsigned_less)
  then have b: "uint (push_bit 16 (ucast w) :: u32) = uint w * 65536"
    by (subst unsigned_push_bit_eq) (simp add: uint_up_ucast push_bit_eq_mult take_bit_int_eq_self)
  define S n where "S = uint w div 32768" and "n = uint w mod 32768"
  have sn: "uint w = S * 32768 + n" "0 \<le> n" "n < 32640" "n \<noteq> 0" using fin nz by (simp_all add: S_def n_def)
  have "S < 2" "0 \<le> S" using w by (auto simp: S_def pos_imp_zdiv_nonneg_iff intro!: div_lessI)
  then have S: "S = 0 \<or> S = 1" by linarith
  have d: "uint w * 65536 = S * 2147483648 + n * 65536" using sn(1) by simp
  have m: "uint w * 65536 mod 2147483648 = n * 65536" "uint w * 65536 div 2147483648 = S"
    unfolding d using sn by auto
  have k: "bf16_mag (n * 65536) = n" unfolding bf16_mag_def using sn
    by (intro div_eqI) (auto simp: mod_2_eq_odd)
  have "uint (f32_to_bf16_rne (push_bit 16 (ucast w))) = uint w"
    using f32_to_bf16_fin [of "push_bit 16 (ucast w)"] sn unfolding b m k by simp
  then show ?thesis by (simp add: word_uint_eq_iff)
qed

theorem bf16_round_trip_witness: "f32_to_bf16_rne (push_bit 16 (ucast (0xBF80 :: u16))) = 0xBF80"
  by (rule bf16_round_trip) simp_all

end
