(* ===== verification/Mx_Codes_Props.thy ===== *)
theory Mx_Codes_Props
  imports Mx_Codes Mx_Bf16
begin

text \<open>
  Properties of the narrow codes of \<open>src/lib/golden/mx_fp_math.h\<close>: the decoders against the
  formats, the encoders as their inverses, the nearest table entry and the packed table.
\<close>

section \<open>The packed table\<close>

text \<open>The three 32-bit words of a packed table as one number.\<close>

definition lut_word :: "u32 \<Rightarrow> u32 \<Rightarrow> u32 \<Rightarrow> 96 word" where
  "lut_word d0 d1 d2 = ucast d0 OR push_bit 32 (ucast d1) OR push_bit 64 (ucast d2)"

lemma bit_lut_word:
  "bit (lut_word d0 d1 d2) n \<longleftrightarrow>
    (if n < 32 then bit d0 n else if n < 64 then bit d1 (n - 32) else bit d2 (n - 64))"
  by (auto simp: lut_word_def bit_simps not_less dest: bit_imp_le_length)

lemma bit_lo: "bit (ucast d0 OR push_bit 32 (ucast d1) :: u64) n \<longleftrightarrow> (if n < 32 then bit d0 n else bit d1 (n - 32))"
  for d0 d1 :: u32
  by (auto simp: bit_simps not_less dest: bit_imp_le_length)

lemma bit_code: "bit (ucast (w AND mask 6) :: u8) n \<longleftrightarrow> n < 6 \<and> bit w n" for w :: "'a::len word"
  by (auto simp: bit_simps dest: bit_imp_le_length)

text \<open>Code \<open>i\<close> of an unpacked table is the \<open>i\<close>-th field of six bits of the 96-bit
  number that the three words form, also where the field straddles two words.\<close>

theorem unpack_lut_fields:
  assumes "i < 16"
  shows "unpack_lut_96bit d0 d1 d2 ! i = ucast (drop_bit (6 * i) (lut_word d0 d1 d2) AND 0x3F)"
proof -
  have m: "(0x3F :: u64) = mask 6" "(0x3F :: u32) = mask 6" "(0x3F :: 96 word) = mask 6"
    by (simp_all add: mask_eq_exp_minus_1)
  define lo :: u64 where "lo = ucast d0 OR push_bit 32 (ucast d1)"
  have lo: "bit lo n \<longleftrightarrow> (if n < 32 then bit d0 n else bit d1 (n - 32))" for n
    unfolding lo_def by (rule bit_lo)
  have "bit (unpack_code lo d2 i) n = bit (ucast (drop_bit (6 * i) (lut_word d0 d1 d2) AND mask 6) :: u8) n" for n
  proof (cases "n < 6")
    case True
    consider "i * 6 + 6 \<le> 64" | "64 \<le> i * 6" | "i = 10" using assms by linarith
    then show ?thesis
    proof cases
      case 1
      then show ?thesis using True unfolding unpack_code_def Let_def m
        by (simp add: bit_code bit_drop_bit_eq lo bit_lut_word mult.commute)
    next
      case 2
      then show ?thesis using True unfolding unpack_code_def Let_def m
        by (simp add: bit_code bit_drop_bit_eq bit_lut_word mult.commute not_le)
    next
      case 3
      then show ?thesis using True unfolding unpack_code_def Let_def m
        by (auto simp: bit_code bit_simps lo bit_lut_word dest: bit_imp_le_length)
    qed
  qed (simp_all add: bit_code unpack_code_def m Let_def)
  then have "unpack_code lo d2 i = ucast (drop_bit (6 * i) (lut_word d0 d1 d2) AND 0x3F)"
    unfolding m by (intro bit_eqI) simp
  then show ?thesis using assms by (simp add: unpack_lut_96bit_def lo_def Let_def del: upt_rec_numeral)
qed

theorem unpack_lut_fields_witness: "unpack_lut_96bit 0 0xF 0 ! 5 = ucast (drop_bit 30 (lut_word 0 0xF 0) AND 0x3F)"
  using unpack_lut_fields [of 5 0 "0xF" 0] by simp

section \<open>The nearest entry\<close>

lemma and_511: "(d :: int) AND 511 = d mod 512"
proof -
  have "(511 :: int) = mask 9" by (simp add: mask_eq_exp_minus_1)
  then show ?thesis by (simp only: flip: take_bit_eq_mask) (simp add: take_bit_eq_mod)
qed

text \<open>All 64 codes, for properties decided by evaluation.\<close>

definition codes6 :: "u8 list" where
  "codes6 = map word_of_nat [0..<64]"

lemma fixed_point_bounds: "\<bar>fp6_to_fixed_point v\<bar> \<le> 224"
proof -
  have "\<forall>c \<in> set codes6. \<bar>fp6_to_fixed_point c\<bar> \<le> 224" by code_simp
  moreover have "fp6_to_fixed_point v = fp6_to_fixed_point (v AND 0x3F)" by (simp add: fp6_to_fixed_point_def and.assoc)
  moreover have "v AND 0x3F \<in> set codes6"
  proof -
    have "(0x3F :: u8) = mask 6" by (simp add: mask_eq_exp_minus_1)
    then have "unat (v AND 0x3F) < 64" using uint_and_mask [of v 6] by (simp add: unat_eq_nat_uint nat_less_iff)
    moreover have "v AND 0x3F = word_of_nat (unat (v AND 0x3F))" by simp
    ultimately show ?thesis unfolding codes6_def by (metis atLeastLessThan_iff image_eqI list.set_map set_upt zero_le)
  qed
  ultimately show ?thesis by metis
qed

definition finder_dist :: "u8 \<Rightarrow> u8 \<Rightarrow> int" where
  "finder_dist a b = \<bar>fp6_to_fixed_point a - fp6_to_fixed_point b\<bar>"

lemma finder_step_eq:
  "finder_step (fp6_to_fixed_point c) lut i (b, d) =
    (if i = 0 \<or> finder_dist c (lut i) < d then (i, finder_dist c (lut i)) else (b, d))"
proof -
  have "\<bar>fp6_to_fixed_point c - fp6_to_fixed_point (lut i)\<bar> < 512"
    using fixed_point_bounds [of c] fixed_point_bounds [of "lut i"] by linarith
  moreover have "(if x < 0 then - x else x) = \<bar>x\<bar>" for x :: int by simp
  ultimately show ?thesis by (simp add: finder_step_def finder_dist_def Let_def and_511)
qed

lemma finder_fold:
  "0 < n \<Longrightarrow> \<exists>b. fold (finder_step (fp6_to_fixed_point c) lut) [0..<n] (0, 0) = (b, finder_dist c (lut b)) \<and> b < n
     \<and> (\<forall>i<n. finder_dist c (lut b) \<le> finder_dist c (lut i)) \<and> (\<forall>i<b. finder_dist c (lut b) < finder_dist c (lut i))"
proof (induction n)
  case (Suc n)
  show ?case
  proof (cases "n = 0")
    case False
    then obtain b where "fold (finder_step (fp6_to_fixed_point c) lut) [0..<n] (0, 0) = (b, finder_dist c (lut b))"
      "b < n" "\<forall>i<n. finder_dist c (lut b) \<le> finder_dist c (lut i)" "\<forall>i<b. finder_dist c (lut b) < finder_dist c (lut i)"
      using Suc.IH by auto
    then show ?thesis using False
      by (cases "finder_dist c (lut n) < finder_dist c (lut b)") (auto simp: finder_step_eq less_Suc_eq)
  qed (simp add: finder_step_eq)
qed simp

text \<open>The finder returns the lowest index whose table entry has the smallest fixed-point
  distance to the input; the truncation of the distance to nine bits never matters.\<close>

lemma nearest_finder_lowest_minimum:
  "let b = fp6e3m2_nearest_finder c lut
   in b < 16 \<and> (\<forall>i<16. finder_dist c (lut b) \<le> finder_dist c (lut i)) \<and> (\<forall>i<b. finder_dist c (lut b) < finder_dist c (lut i))"
  using finder_fold [of 16 c lut] by (auto simp: fp6e3m2_nearest_finder_def simp del: upt_rec_numeral)

section \<open>The decoders\<close>

lemma fi_small: "0 \<le> n \<Longrightarrow> n < 256 \<Longrightarrow> fi n = FFin False (of_int n)"
  by (rule fi_exact) auto

lemma ldexpf_one: "- 149 \<le> k \<Longrightarrow> k \<le> 104 \<Longrightarrow> ldexpf (fi 1) k = FFin False (pow2 k)"
  by (simp add: fi_small fround_pow2)

text \<open>\<open>(1 + mt / 2^k) * 2^x\<close> and \<open>mt / 2^k * 2^x\<close> are exact.\<close>

lemma small_quot:
  assumes "0 \<le> mt" "mt < 256" "k \<le> 7"
  shows "fdiv F32 (fi mt) (fi (2 ^ k)) = FFin False (of_int mt * pow2 (- int k))"
proof -
  have "(2 :: int) ^ k \<le> 2 ^ 7" using assms by (intro power_increasing) auto
  then have "fi (2 ^ k) = FFin False (pow2 (int k))" by (simp add: fi_small pow2_of_nat)
  moreover have "of_int mt / pow2 (int k) = of_int mt * pow2 (- int k)" by (simp add: pow2_uminus)
  ultimately show ?thesis using assms fdiv_exact [of "pow2 (int k)" "of_int mt" mt "- int k" False False]
    by (simp add: fi_small)
qed

lemma one_plus:
  assumes "0 \<le> mt" "mt < 256" "k \<le> 7"
  shows "fadd F32 (fi 1) (FFin False (of_int mt * pow2 (- int k))) = FFin False (of_int (2 ^ k + mt) * pow2 (- int k))"
proof -
  have "(2 :: int) ^ k \<le> 2 ^ 7" using assms by (intro power_increasing) auto
  moreover have "1 + of_int mt * pow2 (- int k) = of_int (2 ^ k + mt) * pow2 (- int k)"
    by (simp add: pow2_uminus pow2_of_nat field_simps)
  moreover have "(0 :: int) < 2 ^ k + mt" using assms(1) by (simp add: add_pos_nonneg)
  ultimately show ?thesis
    using assms fadd_exact [of 1 "of_int mt * pow2 (- int k)" "2 ^ k + mt" "- int k"] by (simp add: fi_small)
qed

lemma times_pow2:
  assumes "0 \<le> n" "n < 16777216" "- 149 \<le> a + x" "a + x \<le> 104" "- 149 \<le> x" "x \<le> 104"
  shows "fmul F32 (FFin False (of_int n * pow2 a)) (ldexpf (fi 1) x) = FFin False (of_int n * pow2 (a + x))"
proof -
  have "of_int n * pow2 a * pow2 x = of_int n * pow2 (a + x)" by (simp add: pow2_add)
  then show ?thesis using assms fmul_exact [of "of_int n * pow2 a" "pow2 x" n "a + x" False False]
    by (simp add: ldexpf_one)
qed

lemma dec_small:
  "dec_mag (small_fmt e m) n = (let x = n div 2 ^ m; f = n mod 2 ^ m
     in if x = 0 then of_int f * pow2 (1 - mx_bias e - int m)
        else of_int (2 ^ m + f) * pow2 (x - mx_bias e - int m))"
  by (simp add: dec_mag_def Let_def)

text \<open>The fields of a code.\<close>

lemma u8_masks: "(0x7 :: u8) = mask 3" "(0xF :: u8) = mask 4" "(1 :: u8) = mask 1" "(0x3 :: u8) = mask 2"
  by (simp_all add: mask_eq_exp_minus_1)

lemma drop_and_one: "(drop_bit k (c :: u8) AND 1 \<noteq> 0) = odd (uint c div 2 ^ k)"
  unfolding u8_masks word_uint_eq_iff uint_and_mask uint_drop_bit by (simp add: odd_iff_mod_2_eq_one)

lemma uint_fields: "uint (c AND 0x7) = uint c mod 8" "uint (c AND 0xF) = uint c mod 16"
  "uint (c AND 0x3) = uint c mod 4" "uint (c AND 1) = uint c mod 2" for c :: u8
  unfolding u8_masks uint_and_mask by simp_all

lemma fneg_if: "(if b then fneg (FFin False r) else FFin False r) = FFin b r"
  by simp

lemma mx_bias_small: "mx_bias 2 = 1" "mx_bias 3 = 3" "mx_bias 4 = 7"
  by (simp_all add: mx_bias_def)

text \<open>Each decoder reads its code as the format does: sign, biased exponent with a subnormal
  range, mantissa; no code stands for an infinity or for not-a-number.\<close>

lemma fp8_decode:
  "fp8_e4m3_decode c = FFin (odd (uint c div 128)) (dec_mag (small_fmt 4 3) (uint c mod 128))"
proof -
  define e mt where "e = uint c div 8 mod 16" and "mt = uint c mod 8"
  have b: "0 \<le> mt" "mt < 8" "0 \<le> e" "e < 16" by (simp_all add: e_def mt_def)
  have f: "uint c mod 128 div 8 = e" "uint c mod 128 mod 8 = mt"
    using zmod_zmult2_eq [of 16 "uint c" 8] by (simp_all add: e_def mt_def mod_mod_cancel)
  have n: "fmul F32 (fdiv F32 (fi mt) (fi 8)) (ldexpf (fi 1) (- 6)) = FFin False (of_int mt * pow2 (- 9))"
    "fmul F32 (fadd F32 (fi 1) (fdiv F32 (fi mt) (fi 8))) (ldexpf (fi 1) (e - 7)) = FFin False (of_int (8 + mt) * pow2 (e - 10))"
    using b small_quot [of mt 3] one_plus [of mt 3] times_pow2 [of mt "- 3" "- 6"] times_pow2 [of "8 + mt" "- 3" "e - 7"]
    by (simp_all del: ldexpf.simps fadd.simps fmul.simps fdiv.simps of_int_add)
  show ?thesis
    unfolding fp8_e4m3_decode_def Let_def drop_and_one uint_fields uint_drop_bit dec_small
    using n b by (simp add: f fneg_if mx_bias_small del: ldexpf.simps fadd.simps fmul.simps fdiv.simps of_int_add flip: e_def mt_def)
qed

lemma const_pow2: "const_f F32 (1 / 16) = FFin False (pow2 (- 4))" "const_f F32 (1 / 4) = FFin False (pow2 (- 2))"
  "const_f F32 (1 / 2) = FFin False (pow2 (- 1))"
  using fround_pow2 [of "- 4" False] fround_pow2 [of "- 2" False] fround_pow2 [of "- 1" False]
  by (simp_all add: const_f_def fround_val_def pow2_def)

lemma times_const:
  assumes "0 \<le> n" "n < 256" "- 7 \<le> x" "x \<le> 0"
  shows "fmul F32 (fi n) (FFin False (pow2 x)) = FFin False (of_int n * pow2 x)"
  using assms fmul_exact [of "of_int n" "pow2 x" n x False False] by (simp add: fi_small)

lemma fp6_decode:
  "fp6_e3m2_decode c = FFin (odd (uint c div 32)) (dec_mag (small_fmt 3 2) (uint c mod 32))"
proof -
  define e mt where "e = uint c div 4 mod 8" and "mt = uint c mod 4"
  have b: "0 \<le> mt" "mt < 4" "0 \<le> e" "e < 8" by (simp_all add: e_def mt_def)
  have f: "uint c mod 32 div 4 = e" "uint c mod 32 mod 4 = mt"
    using zmod_zmult2_eq [of 8 "uint c" 4] by (simp_all add: e_def mt_def mod_mod_cancel)
  have n: "fmul F32 (fi mt) (FFin False (pow2 (- 4))) = FFin False (of_int mt * pow2 (- 4))"
    "fmul F32 (fadd F32 (fi 1) (fmul F32 (fi mt) (FFin False (pow2 (- 2))))) (ldexpf (fi 1) (e - 3))
      = FFin False (of_int (4 + mt) * pow2 (e - 5))"
    using b times_const [of mt "- 4"] times_const [of mt "- 2"] one_plus [of mt 2] times_pow2 [of "4 + mt" "- 2" "e - 3"]
    by (simp_all del: ldexpf.simps fadd.simps fmul.simps fdiv.simps of_int_add)
  show ?thesis
    unfolding fp6_e3m2_decode_def Let_def drop_and_one uint_fields uint_drop_bit dec_small const_pow2
    using n b by (simp add: f fneg_if mx_bias_small del: ldexpf.simps fadd.simps fmul.simps fdiv.simps of_int_add flip: e_def mt_def)
qed

lemma fp4_decode:
  "fp4_e2m1_decode c = FFin (odd (uint c div 8)) (dec_mag (small_fmt 2 1) (uint c mod 8))"
proof -
  define e mt where "e = uint c div 2 mod 4" and "mt = uint c mod 2"
  have b: "0 \<le> mt" "mt < 2" "0 \<le> e" "e < 4" by (simp_all add: e_def mt_def)
  have f: "uint c mod 8 div 2 = e" "uint c mod 8 mod 2 = mt"
    using zmod_zmult2_eq [of 4 "uint c" 2] by (simp_all add: e_def mt_def mod_mod_cancel)
  have n: "fdiv F32 (fi mt) (fi 2) = FFin False (of_int mt * pow2 (- 1))"
    "fmul F32 (fadd F32 (fi 1) (fdiv F32 (fi mt) (fi 2))) (ldexpf (fi 1) (e - 1)) = FFin False (of_int (2 + mt) * pow2 (e - 2))"
    using b small_quot [of mt 1] one_plus [of mt 1] times_pow2 [of "2 + mt" "- 1" "e - 1"]
    by (simp_all del: ldexpf.simps fadd.simps fmul.simps fdiv.simps of_int_add)
  have three: "(0x3 :: u8) = mask 2" by (rule u8_masks)
  show ?thesis
    unfolding fp4_e2m1_decode_def Let_def drop_and_one uint_fields uint_drop_bit dec_small
    using n b by (simp add: f fneg_if mx_bias_small del: ldexpf.simps fadd.simps fmul.simps fdiv.simps of_int_add flip: e_def mt_def)
qed

text \<open>C23: The three decoders implement their formats: the value of a code is the number its
  bits encode with the format's numbers of exponent and mantissa bits, subnormals included, and
  every code is a finite number.\<close>

theorem decoders_implement_formats:
  "fp8_e4m3_decode c = FFin (odd (uint c div 128)) (dec_mag (small_fmt 4 3) (uint c mod 128))
    \<and> fp6_e3m2_decode c = FFin (odd (uint c div 32)) (dec_mag (small_fmt 3 2) (uint c mod 32))
    \<and> fp4_e2m1_decode c = FFin (odd (uint c div 8)) (dec_mag (small_fmt 2 1) (uint c mod 8))"
  by (intro conjI fp8_decode fp6_decode fp4_decode)

section \<open>fp8 codes survive decoding and encoding\<close>

text \<open>
  What the code relies on in \<open>log2f\<close>: it is accurate enough to find the binade of a number with
  at most eight significant bits.
\<close>

definition log2f_finds_binade :: "(fnum \<Rightarrow> fnum) \<Rightarrow> bool" where
  "log2f_finds_binade lg \<longleftrightarrow> (\<forall>n k. 0 < n \<and> n < 256 \<and> - 149 \<le> k \<and> k \<le> 104 \<longrightarrow>
     f_to_int (floorf (lg (FFin False (of_int n * pow2 k)))) = Some (ilog2 (of_int n * pow2 k)))"

lemma round_half_to_even_int:
  assumes "0 \<le> n" "n < 16777216"
  shows "round_half_to_even (FFin False (of_int n)) = Some n"
proof -
  have "fsub F32 (FFin False (of_int n)) (FFin False (of_int n)) = f32_zero"
    by (simp add: fsub_def fround_val_def)
  moreover have "in_int n" using assms by (simp add: in_int_def)
  ultimately show ?thesis using assms
    by (simp add: round_half_to_even_def f_to_int_def ck_in const_pow2 Let_def)
qed

lemma fp8_code_fields:
  "\<forall>s\<in>set [0, 1]. \<forall>e\<in>set [0..15]. \<forall>mt\<in>set [0..7].
     uint (word_of_int (push_bit 7 s OR push_bit 3 (e AND 0xF) OR (mt AND 0x7)) :: u8) = s * 128 + e * 8 + mt"
  by code_simp

lemma ilog2_sig8: "0 \<le> mt \<Longrightarrow> mt < 8 \<Longrightarrow> ilog2 (of_int (8 + mt) * pow2 x) = x + 3"
proof (rule ilog2_eq)
  assume mt: "0 \<le> mt" "mt < 8"
  have p: "pow2 (x + 3) = of_int 8 * pow2 x" "pow2 (x + 3 + 1) = of_int 16 * pow2 x"
    by (simp_all add: pow2_add) (simp_all add: pow2_def)
  have "(of_int 8 :: rat) \<le> of_int (8 + mt)" "(of_int (8 + mt) :: rat) < of_int 16"
    using mt by (simp_all only: of_int_le_iff of_int_less_iff)
  then show "pow2 (x + 3) \<le> of_int (8 + mt) * pow2 x" "of_int (8 + mt) * pow2 x < pow2 (x + 3 + 1)"
    unfolding p by (simp_all del: of_int_add)
qed

lemma fsub_exact:
  assumes "r - q = of_int n * pow2 k" "0 \<le> n" "n < 16777216" "- 149 \<le> k" "k \<le> 104"
  shows "fsub F32 (FFin False r) (FFin False q) = FFin False (r - q)"
proof (cases "n = 0")
  case False
  then have "0 < of_int n * pow2 k" using assms by simp
  then show ?thesis using assms(1) fround_dyadic [OF assms(2-5), of False]
    by (simp add: fsub_def fround_val_def)
qed (use assms in \<open>simp add: fsub_def fround_val_def\<close>)

lemma fdiv_pow2:
  assumes "0 \<le> n" "n < 16777216" "- 149 \<le> a - b" "a - b \<le> 104"
  shows "fdiv F32 (FFin False (of_int n * pow2 a)) (FFin False (pow2 b)) = FFin False (of_int n * pow2 (a - b))"
  using assms fdiv_exact [of "pow2 b" "of_int n * pow2 a" n "a - b" False False] by (simp add: pow2_diff)

lemma fp8_to_code_normal:
  assumes lg: "log2f_finds_binade lg" and b: "0 \<le> mt" "mt < 8" "1 \<le> e" "e < 16"
  shows "fp8_e4m3_to_code lg (FFin s (of_int (8 + mt) * pow2 (e - 10)))
    = Some (word_of_int (push_bit 7 (c_bool s) OR push_bit 3 (e AND 0xF) OR ((if e = 15 then min mt 6 else mt) AND 0x7)))"
proof -
  let ?r = "of_int (8 + mt) * pow2 (e - 10)"
  have r0: "?r \<noteq> 0" using b by (simp del: of_int_add)
  have E: "f_to_int (floorf (lg (FFin False ?r))) = Some (e - 7)"
    using lg b ilog2_sig8 [OF b(1,2), of "e - 10"] by (simp add: log2f_finds_binade_def del: of_int_add)
  have base: "ldexpf (fi 1) (e - 7) = FFin False (pow2 (e - 7))" using b by (simp add: ldexpf_one del: ldexpf.simps)
  have eight: "fi 8 = FFin False (pow2 3)" by (simp add: fi_small pow2_def)
  have delta: "fdiv F32 (FFin False (pow2 (e - 7))) (fi 8) = FFin False (pow2 (e - 10))"
    using fdiv_pow2 [of 1 "e - 7" 3] b unfolding eight by simp
  have p: "pow2 (e - 7) = of_int 8 * pow2 (e - 10)"
    using pow2_add [of 3 "e - 10"] by (simp add: pow2_def [of 3])
  have diff: "?r - pow2 (e - 7) = of_int mt * pow2 (e - 10)" unfolding p by (simp add: algebra_simps)
  have sub: "fsub F32 (FFin False ?r) (FFin False (pow2 (e - 7))) = FFin False (of_int mt * pow2 (e - 10))"
    using fsub_exact [OF diff] b unfolding diff by simp
  have quot: "fdiv F32 (FFin False (of_int mt * pow2 (e - 10))) (FFin False (pow2 (e - 10))) = FFin False (of_int mt)"
    using fdiv_pow2 [of mt "e - 10" "e - 10"] b by simp
  have k: "round_half_to_even (FFin False (of_int mt)) = Some mt" using b by (intro round_half_to_even_int) auto
  have nz: "\<not> feq (FFin s ?r) f32_zero" using r0 by (cases s) (simp_all del: of_int_add)
  show ?thesis
    using nz b by (simp add: fp8_e4m3_to_code_def E base delta sub quot k min_def max_def
        del: feq.simps ldexpf.simps fdiv.simps of_int_add)
qed

lemma fp8_to_code_subnormal:
  assumes lg: "log2f_finds_binade lg" and b: "0 \<le> mt" "mt < 8"
  shows "fp8_e4m3_to_code lg (FFin s (of_int mt * pow2 (- 9))) = Some 0"
proof (cases "mt = 0")
  case False
  then have mt: "0 < mt" using b by simp
  let ?r = "of_int mt * pow2 (- 9)"
  have "(of_int mt :: rat) < of_int 8" using b by (simp only: of_int_less_iff)
  then have "?r < pow2 (- 6)" using pow2_add [of 3 "- 9"] by (simp add: pow2_def [of 3])
  moreover have r0: "0 < ?r" using mt by simp
  ultimately have "ilog2 ?r < - 6"
    using ilog2_bounds [of ?r] pow2_mono [of "- 6" "ilog2 ?r"] by linarith
  moreover have "f_to_int (floorf (lg (FFin False ?r))) = Some (ilog2 ?r)"
    using lg mt b by (simp add: log2f_finds_binade_def)
  moreover have "\<not> feq (FFin s ?r) f32_zero" using mt by (cases s) simp_all
  ultimately show ?thesis by (simp add: fp8_e4m3_to_code_def del: feq.simps)
qed (simp add: fp8_e4m3_to_code_def)

text \<open>C24: Every fp8 code that is a normal number comes back from decoding and encoding unchanged,
  save for the two codes of magnitude 480, which come back as 448; the codes of zeros and of
  subnormal numbers come back as zero.\<close>

theorem fp8_code_round_trip:
  assumes lg: "log2f_finds_binade lg"
  shows "fp8_e4m3_to_code lg (fp8_e4m3_decode c)
    = Some (if uint c div 8 mod 16 = 0 then 0 else if uint c mod 128 = 127 then c - 1 else c)"
proof -
  define e mt sb where "e = uint c div 8 mod 16" and "mt = uint c mod 8" and "sb = uint c div 128"
  have b: "0 \<le> mt" "mt < 8" "0 \<le> e" "e < 16" by (simp_all add: e_def mt_def)
  have c256: "uint c < 2 ^ LENGTH(8)" by (rule unsigned_less)
  then have sb: "0 \<le> sb" "sb < 2" by (auto simp: sb_def pos_imp_zdiv_nonneg_iff intro!: div_lessI)
  then have sb01: "sb = 0 \<or> sb = 1" by linarith
  have f: "uint c mod 128 div 8 = e" "uint c mod 128 mod 8 = mt" "uint c mod 128 = e * 8 + mt"
    using zmod_zmult2_eq [of 16 "uint c" 8] by (simp_all add: e_def mt_def mod_mod_cancel)
  have c: "uint c = sb * 128 + e * 8 + mt"
    using div_mult_mod_eq [of "uint c" 128] unfolding f(3) sb_def [symmetric] by simp
  have d: "fp8_e4m3_decode c = FFin (odd sb) (if e = 0 then of_int mt * pow2 (- 9) else of_int (8 + mt) * pow2 (e - 10))"
    unfolding fp8_decode dec_small Let_def by (simp add: f(1,2) mx_bias_small sb_def)
  show ?thesis
  proof (cases "e = 0")
    case True
    then show ?thesis using fp8_to_code_subnormal [OF lg b(1,2)] by (simp add: d flip: e_def)
  next
    case False
    then have e1: "1 \<le> e" using b by simp
    define m' where "m' = (if e = 15 then min mt 6 else mt)"
    have m': "0 \<le> m'" "m' < 8" using b by (auto simp: m'_def)
    have sc: "c_bool (odd sb) = sb" using sb01 by (auto simp: c_bool_def)
    have "uint (word_of_int (push_bit 7 sb OR push_bit 3 (e AND 0xF) OR (m' AND 0x7)) :: u8) = sb * 128 + e * 8 + m'"
      by (rule fp8_code_fields [rule_format]) (use sb01 b m' in auto)
    then have w: "word_of_int (push_bit 7 sb OR push_bit 3 (e AND 0xF) OR (m' AND 0x7)) = (word_of_int (sb * 128 + e * 8 + m') :: u8)"
      by (metis word_of_int_uint)
    have eq: "fp8_e4m3_to_code lg (fp8_e4m3_decode c) = Some (word_of_int (sb * 128 + e * 8 + m'))"
      using fp8_to_code_normal [OF lg b(1,2) e1 b(4), of "odd sb"] False
      unfolding d sc m'_def [symmetric] w by simp
    have "c = word_of_int (uint c)" by simp
    then have "c = word_of_int (sb * 128 + e * 8 + mt)" unfolding c .
    moreover have top: "uint c mod 128 = 127 \<longleftrightarrow> e = 15 \<and> mt = 7" using f(3) b by auto
    moreover have "m' = (if uint c mod 128 = 127 then mt - 1 else mt)" unfolding top using b by (auto simp: m'_def)
    ultimately have "word_of_int (sb * 128 + e * 8 + m') = (if uint c mod 128 = 127 then c - 1 else c)"
      by (cases "uint c mod 128 = 127") (simp_all add: algebra_simps)
    then show ?thesis unfolding eq using False by (simp flip: e_def)
  qed
qed

text \<open>A \<open>log2f\<close> with exact binades, for the witness.\<close>

definition log2f_floor :: "fnum \<Rightarrow> fnum" where
  "log2f_floor x = FFin (ilog2 (fval x) < 0) (of_int \<bar>ilog2 (fval x)\<bar>)"

lemma log2f_floor_ok: "log2f_finds_binade log2f_floor"
  unfolding log2f_finds_binade_def
proof (intro allI impI, elim conjE)
  fix n k :: int
  assume n: "0 < n" "n < 256" and k: "- 149 \<le> k" "k \<le> 104"
  let ?i = "ilog2 (of_int n * pow2 k)"
  have "0 < of_int n * pow2 k" using n by simp
  note b = ilog2_bounds [OF this]
  have "(of_int n :: rat) < of_int 256" "(of_int 1 :: rat) \<le> of_int n" using n by (simp_all only: of_int_less_iff of_int_le_iff)
  then have "of_int n * pow2 k < pow2 (k + 8)" "pow2 k \<le> of_int n * pow2 k"
    by (simp_all add: pow2_add) (simp add: pow2_def [of 8])
  then have "pow2 ?i < pow2 (k + 8)" "pow2 k < pow2 (?i + 1)" using b by linarith+
  then have "?i < k + 8" "k < ?i + 1" by (meson pow2_mono not_le)+
  then have "in_int ?i" using k by (simp add: in_int_def)
  then show "f_to_int (floorf (log2f_floor (FFin False (of_int n * pow2 k)))) = Some ?i"
    by (simp add: log2f_floor_def f_to_int_def ck_in)
qed

theorem fp8_code_round_trip_witness:
  "fp8_e4m3_to_code log2f_floor (fp8_e4m3_decode 0xB3) = Some 0xB3"
  using fp8_code_round_trip [OF log2f_floor_ok, of "0xB3"] by simp

section \<open>What the finder's fixed-point numbers mean\<close>

text \<open>Sixteen times the magnitude of an fp6 number.\<close>

definition fp6_sixteenths :: "int \<Rightarrow> int" where
  "fp6_sixteenths c = (let e = c div 4 mod 8; mt = c mod 4 in if e = 0 then mt else (4 + mt) * 2 ^ nat (e - 1))"

lemma fixed_point_codes:
  "\<forall>c\<in>set codes6. fp6_to_fixed_point c =
     (if odd (uint c div 32) then - (fp6_sixteenths (uint c) mod 256) else fp6_sixteenths (uint c) mod 256)
   \<and> (uint c div 4 mod 8 \<noteq> 7 \<longrightarrow> fp6_sixteenths (uint c) < 256)"
  by code_simp

lemma fp6_value_sixteenths:
  "16 * fval (fp6_e3m2_decode c) = of_int (if odd (uint c div 32) then - fp6_sixteenths (uint c) else fp6_sixteenths (uint c))"
proof -
  define e mt where "e = uint c div 4 mod 8" and "mt = uint c mod 4"
  have f: "uint c mod 32 div 4 = e" "uint c mod 32 mod 4 = mt"
    using zmod_zmult2_eq [of 8 "uint c" 4] by (simp_all add: e_def mt_def mod_mod_cancel)
  have e: "0 \<le> e" by (simp add: e_def)
  have sixteen: "16 * pow2 (- 4) = 1" by (simp add: pow2_def)
  have "16 * pow2 (e - 5) = of_int (2 ^ nat (e - 1))" if "e \<noteq> 0"
    using that e pow2_add [of "e - 5" 4] pow2_int [of "e - 1"] by (simp add: pow2_def [of 4])
  then have "16 * dec_mag (small_fmt 3 2) (uint c mod 32) = of_int (fp6_sixteenths (uint c))"
    unfolding dec_small Let_def fp6_sixteenths_def e_def [symmetric] mt_def [symmetric]
    using sixteen by (auto simp: f mx_bias_small)
  then show ?thesis by (auto simp: fp6_decode)
qed

text \<open>
  A code the finder handles: six bits, and a magnitude below 16, the exponent field being less
  than 7.
\<close>

definition finder_code :: "u8 \<Rightarrow> bool" where
  "finder_code c \<longleftrightarrow> uint c < 64 \<and> uint c div 4 mod 8 \<noteq> 7"

lemma in_codes6: "uint c < 64 \<Longrightarrow> c \<in> set codes6"
proof -
  assume "uint c < 64"
  then have "int (unat c) < 64" unfolding uint_nat .
  then have "unat c < 64" by linarith
  then have "unat c \<in> set [0..<64]" unfolding set_upt by simp
  then have "word_of_nat (unat c) \<in> set codes6" unfolding codes6_def set_map by (rule imageI)
  then show ?thesis by simp
qed

lemma fixed_point_value:
  assumes "finder_code c"
  shows "of_int (fp6_to_fixed_point c) = 16 * fval (fp6_e3m2_decode c)"
proof -
  have c: "c \<in> set codes6" "uint c div 4 mod 8 \<noteq> 7" using assms in_codes6 by (auto simp: finder_code_def)
  have "0 \<le> fp6_sixteenths (uint c)" by (simp add: fp6_sixteenths_def Let_def)
  moreover note bspec [OF fixed_point_codes c(1)]
  ultimately have "fp6_to_fixed_point c = (if odd (uint c div 32) then - fp6_sixteenths (uint c) else fp6_sixteenths (uint c))"
    using c(2) by simp
  then show ?thesis unfolding fp6_value_sixteenths by simp
qed

text \<open>C25: For codes of magnitude below 16 the finder returns the lowest index among the table
  entries whose decoded value is nearest to that of the input.\<close>

theorem nearest_finder_nearest_value:
  assumes "finder_code c" and "\<And>i. i < 16 \<Longrightarrow> finder_code (lut i)"
  shows "let b = fp6e3m2_nearest_finder c lut; dist = (\<lambda>i. \<bar>fval (fp6_e3m2_decode c) - fval (fp6_e3m2_decode (lut i))\<bar>)
    in b < 16 \<and> (\<forall>i<16. dist b \<le> dist i) \<and> (\<forall>i<b. dist b < dist i)"
proof -
  have d: "of_int (finder_dist c (lut i)) = 16 * \<bar>fval (fp6_e3m2_decode c) - fval (fp6_e3m2_decode (lut i))\<bar>" if "i < 16" for i
  proof -
    have "of_int (fp6_to_fixed_point c - fp6_to_fixed_point (lut i))
        = 16 * (fval (fp6_e3m2_decode c) - fval (fp6_e3m2_decode (lut i)))"
      by (simp only: of_int_diff right_diff_distrib fixed_point_value [OF assms(1)] fixed_point_value [OF assms(2) [OF that]])
    then show ?thesis by (simp only: finder_dist_def of_int_abs abs_mult abs_numeral)
  qed
  have cmp: "(finder_dist c (lut i) \<le> finder_dist c (lut j)) =
      (\<bar>fval (fp6_e3m2_decode c) - fval (fp6_e3m2_decode (lut i))\<bar> \<le> \<bar>fval (fp6_e3m2_decode c) - fval (fp6_e3m2_decode (lut j))\<bar>)"
    if "i < 16" "j < 16" for i j
    using d [OF that(1)] d [OF that(2)] by (simp flip: of_int_le_iff [where 'a = rat])
  define b where "b = fp6e3m2_nearest_finder c lut"
  have m: "b < 16" "\<forall>i<16. finder_dist c (lut b) \<le> finder_dist c (lut i)" "\<forall>i<b. finder_dist c (lut b) < finder_dist c (lut i)"
    using nearest_finder_lowest_minimum [of c lut] by (simp_all add: Let_def b_def)
  then show ?thesis
    unfolding Let_def b_def [symmetric] using cmp [of b] cmp [of _ b] by (auto simp flip: not_le)
qed

theorem nearest_finder_nearest_value_witness:
  "let b = fp6e3m2_nearest_finder 9 (\<lambda>i. word_of_nat i); dist = (\<lambda>i. \<bar>fval (fp6_e3m2_decode 9) - fval (fp6_e3m2_decode (word_of_nat i))\<bar>)
    in b < 16 \<and> (\<forall>i<16. dist b \<le> dist i) \<and> (\<forall>i<b. dist b < dist i)"
proof (rule nearest_finder_nearest_value)
  have "\<forall>i\<in>set [0..<16]. finder_code (word_of_nat i)" by code_simp
  then show "finder_code (word_of_nat i)" if "i < 16" for i using that by (auto simp del: upt_rec_numeral)
qed (simp add: finder_code_def)

text \<open>From magnitude 16 on the fixed-point numbers wrap around: 16 is taken for 0, so a table
  that holds the very code of the input at index 1 and zero at index 0 yields index 0.\<close>

theorem nearest_finder_wraps:
  "fp6_e3m2_decode 0x1C = FFin False 16 \<and> fp6_e3m2_decode 0 = FFin False 0
    \<and> fp6e3m2_nearest_finder 0x1C (\<lambda>i. if i = 0 then 0 else 0x1C) = 0"
proof -
  have "fp6_e3m2_decode 0x1C = FFin False 16" "fp6_e3m2_decode 0 = FFin False 0"
    unfolding fp6_decode dec_small by (simp_all add: mx_bias_small pow2_def)
  moreover have "fp6e3m2_nearest_finder 0x1C (\<lambda>i. if i = 0 then 0 else 0x1C) = 0" by code_simp
  ultimately show ?thesis by blast
qed

end
