(* ===== verification/Mx_Products.thy ===== *)
theory Mx_Products
  imports Mx_Codes_Props
begin

text \<open>
  The quantisation of a product on its way into the systolic array
  (\<open>mx_product_quantize_trunc\<close> of \<open>src/lib/golden/mx_fp_math.h\<close> in the e4m3 format that
  \<open>src/lib/golden/mx_golden.cpp\<close> uses): truncation to four significant bits, exponents without
  a lower bound, saturation at 448.
\<close>

definition trunc4 :: "rat \<Rightarrow> rat" where
  "trunc4 r = of_int \<lfloor>r / pow2 (ilog2 r - 3)\<rfloor> * pow2 (ilog2 r - 3)"

lemma saturate_e4m3_gen:
  "mx_product_saturate x 4 3 = (if feq (fabsf x) f32_zero then f32_zero
     else if flt (FFin False 448) (fabsf x) then FFin (signbit x) 448 else x)"
proof -
  have bias: "mx_bias 4 = 7" by (simp add: mx_bias_def)
  have "fadd F32 (fi 1) (fdiv F32 (fi 6) (fi 8)) = FFin False (of_int 14 * pow2 (- 3))"
    using small_quot [of 6 3] one_plus [of 6 3] by (simp del: fadd.simps fdiv.simps)
  moreover have "ldexpf (FFin False (of_int 14 * pow2 (- 3))) 8 = FFin False 448"
  proof -
    have "of_int 14 * pow2 (- 3) * pow2 8 = of_int 14 * pow2 5" by (simp add: mult.assoc flip: pow2_add)
    moreover have "of_int 14 * pow2 5 = 448" by (simp add: pow2_def)
    ultimately show ?thesis using fround_dyadic [of 14 5 False] by (simp only: ldexpf.simps)
  qed
  ultimately show ?thesis
    by (simp add: mx_product_saturate_def bias Let_def del: fadd.simps fdiv.simps ldexpf.simps)
qed

lemma saturate_e4m3:
  "mx_product_saturate (FFin s r) 4 3 = (if r = 0 then f32_zero else if 448 < r then FFin s 448 else FFin s r)"
  by (simp add: saturate_e4m3_gen)

lemma product_trunc:
  assumes rep: "representable F32 r" and r0: "0 < r"
  shows "mx_product_quantize_trunc (FFin s r) 4 3 = FFin s (min (trunc4 r) 448)"
    and "representable F32 (trunc4 r)"
proof -
  obtain sg X where r: "r = of_int sg * pow2 (X - 150)" and X: "1 \<le> X" "X \<le> 254"
    and sg: "0 < sg" "sg < 16777216" "X = 1 \<or> 8388608 \<le> sg"
    using f32_parts [OF rep r0] by metis
  define E where "E = ilog2 r"
  define j where "j = X - 150 - E"
  have b: "pow2 E \<le> r" "r < pow2 (E + 1)" using ilog2_bounds [OF r0] by (simp_all add: E_def)
  define x where "x = of_int sg * pow2 j"
  have x: "r / pow2 E = x" by (simp add: r x_def j_def pow2_diff)
  have x12: "1 \<le> x" "x < 2" using b pow2_Suc [of E] by (simp_all add: x [symmetric] field_simps)
  have sgq: "(of_int 1 :: rat) \<le> of_int sg" "(of_int sg :: rat) < of_int 16777216"
    using sg by (simp_all only: of_int_le_iff of_int_less_iff)
  have Ej: "- 149 \<le> E" "E \<le> 127" "- 23 \<le> j" "j \<le> 0"
  proof -
    have "pow2 (- 149) \<le> pow2 (X - 150)" using X by (intro pow2_mono) simp
    also have "\<dots> \<le> r" unfolding r using sgq mult_right_mono [of 1 "of_int sg" "pow2 (X - 150)"] by simp
    finally have "pow2 (- 149) < pow2 (E + 1)" using b by linarith
    then show "- 149 \<le> E" by simp
    have "r < pow2 128" using rep r0 by (simp add: representable_def)
    then have "pow2 E < pow2 128" using b by linarith
    then show "E \<le> 127" by simp
    have "pow2 j \<le> x" unfolding x_def using sgq mult_right_mono [of 1 "of_int sg" "pow2 j"] by simp
    then have "pow2 j < pow2 1" using x12 by simp
    then show "j \<le> 0" by (simp only: pow2_less_iff)
    have "x < of_int 16777216 * pow2 j" unfolding x_def using sgq(2) by (intro mult_strict_right_mono) auto
    also have "of_int 16777216 * pow2 j = pow2 (24 + j)" by (simp add: pow2_add) (simp add: pow2_def)
    finally have "pow2 0 < pow2 (24 + j)" using x12 by simp
    then show "- 23 \<le> j" by (simp only: pow2_less_iff)
  qed
  define a where "a = \<lfloor>(x - 1) * 8\<rfloor>"
  have a: "0 \<le> a" "a < 8" using x12 by (auto simp: a_def floor_less_iff)
  have t: "trunc4 r = of_int (8 + a) * pow2 (E - 3)"
  proof -
    have "r / pow2 (E - 3) = (x - 1) * 8 + of_int 8" by (simp add: pow2_diff x [symmetric] pow2_def [of 3] field_simps)
    then have "\<lfloor>r / pow2 (E - 3)\<rfloor> = a + 8" unfolding a_def by (simp only: floor_add_int)
    then show ?thesis by (simp add: trunc4_def E_def [symmetric] add.commute)
  qed
  have le: "trunc4 r \<le> r"
  proof -
    have "of_int \<lfloor>r / pow2 (E - 3)\<rfloor> * pow2 (E - 3) \<le> r / pow2 (E - 3) * pow2 (E - 3)"
      by (intro mult_right_mono) auto
    then show ?thesis by (simp add: trunc4_def flip: E_def)
  qed
  have rep4: "representable F32 (trunc4 r)"
  proof (cases "- 149 \<le> E - 3")
    case True
    then show ?thesis unfolding t using a le rep r0
      by (intro representable_dyadic [of _ "8 + a" "E - 3"]) (auto simp: t representable_def simp del: of_int_add)
  next
    case False
    then have "0 \<le> X - 150 - (E - 3)" using X by simp
    then have "r / pow2 (E - 3) = of_int (sg * 2 ^ nat (X - 150 - (E - 3)))"
      unfolding r using pow2_int pow2_diff [of "X - 150" "E - 3"] by simp
    then have "trunc4 r = r" by (simp only: trunc4_def E_def [symmetric] floor_of_int) (simp add: field_simps)
    then show ?thesis using rep by simp
  qed
  have m1: "fmul F32 (fi 2) (FFin False (r / pow2 (E + 1))) = FFin False x"
  proof -
    have "2 * (r / pow2 (E + 1)) = of_int sg * pow2 j" unfolding x_def [symmetric] x [symmetric] by (simp add: pow2_Suc)
    then show ?thesis using fmul_exact [of 2 "r / pow2 (E + 1)" sg j False False] sg Ej by (simp add: fi_small x_def)
  qed
  define n1 where "n1 = sg - 2 ^ nat (- j)"
  have x1: "x - 1 = of_int n1 * pow2 j"
  proof -
    have "pow2 (- j) * pow2 j = 1" by (simp add: pow2_uminus)
    moreover have "pow2 (- j) = of_int (2 ^ nat (- j))" using Ej by (intro pow2_int) simp
    ultimately show ?thesis by (simp add: x_def n1_def left_diff_distrib)
  qed
  have n1: "0 \<le> n1" "n1 < 16777216"
  proof -
    have "0 \<le> of_int n1 * pow2 j" using x1 x12 by simp
    then show "0 \<le> n1" by (simp add: zero_le_mult_iff)
    have "(0 :: int) < 2 ^ nat (- j)" by simp
    then show "n1 < 16777216" using sg(2) unfolding n1_def by linarith
  qed
  have m2: "fsub F32 (FFin False x) (fi 1) = FFin False (x - 1)"
    using fsub_exact [OF x1 n1] Ej by (simp add: fi_small)
  have m3: "fmul F32 (FFin False (x - 1)) (fi 8) = FFin False ((x - 1) * 8)"
  proof -
    have "(x - 1) * 8 = of_int n1 * pow2 (j + 3)" unfolding x1 by (simp add: pow2_add) (simp add: pow2_def [of 3])
    then show ?thesis using fmul_exact [of "x - 1" 8 n1 "j + 3" False False] n1 Ej by (simp add: fi_small)
  qed
  have m4: "floorf (fmul F32 (FFin False (x - 1)) (fi 8)) = fi a"
    unfolding m3 using a x12 by (simp add: a_def fi_small)
  have m5: "fadd F32 (fi 1) (fdiv F32 (fi a) (fi 8)) = FFin False (of_int (8 + a) * pow2 (- 3))"
    using a small_quot [of a 3] one_plus [of a 3] by (simp del: fadd.simps fdiv.simps)
  have m6: "ldexpf (fadd F32 (fi 1) (fdiv F32 (fi a) (fi 8))) E = FFin False (trunc4 r)"
    unfolding m5 using fround_representable [OF rep4, of False] unfolding t
    by (simp add: mult.assoc add.commute flip: pow2_add)
  have t0: "0 < trunc4 r" unfolding t using a by (simp del: of_int_add)
  show "representable F32 (trunc4 r)" by (rule rep4)
  show "mx_product_quantize_trunc (FFin s r) 4 3 = FFin s (min (trunc4 r) 448)"
    using r0 t0
    by (simp add: mx_product_quantize_trunc_def m1 m2 m4 m6 saturate_e4m3 Let_def min_def
        flip: E_def del: fadd.simps fmul.simps fdiv.simps ldexpf.simps floorf.simps)
qed

text \<open>A product entering the array is cut off after four significant bits, toward zero and
  with every exponent \<open>float\<close> has, keeps its sign, and saturates at 448.\<close>

theorem product_quantize_truncates:
  assumes rep: "representable F32 r" and r0: "0 < r"
  shows "mx_product_quantize_trunc (FFin s r) 4 3 = FFin s (min (trunc4 r) 448)"
  using assms by (rule product_trunc(1))

theorem product_quantize_truncates_witness:
  "mx_product_quantize_trunc (FFin True (11184811 / 33554432)) 4 3 = FFin True (min (trunc4 (11184811 / 33554432)) 448)"
  by (rule product_quantize_truncates) (use dyadic_rep [of 11184811 "- 25"] in \<open>simp_all add: pow2_def\<close>)

end
