(* ===== verification/Mx_Golden.thy ===== *)
theory Mx_Golden
  imports Mx_Products
begin

text \<open>
  The host reference of the MX matrix product, \<open>src/lib/golden/mx_golden.cpp\<close>: the tile loops
  over packed operands, the 16-deep column of quantised multiply-accumulates, the e8m0 scaling
  of each K group, and the requantisation of the result with its nibble packing.  Files are the
  byte lists \<open>slurp\<close> has read; an access outside a buffer is \<^const>\<open>None\<close>.
\<close>

section \<open>Parameters and operands\<close>

definition DIM :: nat where "DIM = 16"
definition GROUP :: nat where "GROUP = 32"

definition ACC_E :: "nat list" where
  "ACC_E = [4, 4, 4, 4, 4, 4, 4, 4, 4, 4, 4, 4, 4, 4, 4, 8]"
definition ACC_M :: "nat list" where
  "ACC_M = [4, 4, 4, 4, 4, 4, 4, 4, 5, 5, 6, 6, 6, 6, 6, 7]"
definition PROD_E :: nat where "PROD_E = 4"
definition PROD_M :: nat where "PROD_M = 3"

record golden =
  g_M :: nat
  g_N :: nat
  g_K :: nat
  g_fmt :: int
  g_A :: "u8 list"
  g_B :: "u8 list"
  g_SA :: "u8 list"
  g_SB :: "u8 list"
  g_LA :: "u8 list"
  g_LB :: "u8 list"
  g_G :: nat

definition sub_byte :: "golden \<Rightarrow> bool" where
  "sub_byte g \<longleftrightarrow> g_fmt g \<noteq> 0"

definition TILE :: "golden \<Rightarrow> nat" where
  "TILE g = (if sub_byte g then 32 else DIM)"

text \<open>The test of the dimensions; the program exits with status 1 when it fails.\<close>

definition dims_ok :: "golden \<Rightarrow> bool" where
  "dims_ok g \<longleftrightarrow> \<not> (g_M g mod DIM \<noteq> 0 \<or> g_N g mod DIM \<noteq> 0 \<or> g_K g mod DIM \<noteq> 0 \<or> g_K g mod GROUP \<noteq> 0)"

text \<open>The sizes \<open>slurp\<close> reads; the tables exist in the fp6 format only.\<close>

definition files_ok :: "golden \<Rightarrow> bool" where
  "files_ok g \<longleftrightarrow>
     length (g_A g) = (if sub_byte g then g_M g div 2 * g_K g else g_M g * g_K g)
     \<and> length (g_B g) = (if sub_byte g then g_K g * (g_N g div 2) else g_K g * g_N g)
     \<and> length (g_SA g) = g_K g div GROUP * g_M g
     \<and> length (g_SB g) = g_K g div GROUP * g_N g
     \<and> (g_fmt g = 1 \<longrightarrow> length (g_LA g) = ((g_M g - 1) div 2 ^ g_G g + 1) * 16
                    \<and> length (g_LB g) = ((g_N g - 1) div 2 ^ g_G g + 1) * 16)"

definition nibble :: "nat \<Rightarrow> u8 \<Rightarrow> u8" where
  "nibble m byte = (if odd m then drop_bit 4 byte AND 0xF else byte AND 0xF)"

definition dec_nibble :: "golden \<Rightarrow> u8 list \<Rightarrow> nat \<Rightarrow> u8 \<Rightarrow> fnum option" where
  "dec_nibble g lut x nib =
     (if g_fmt g = 2 then Some (fp4_e2m1_decode nib)
      else do { c \<leftarrow> aref lut (x div 2 ^ g_G g * 16 + unat nib); Some (fp6_e3m2_decode c) })"

definition dec_a :: "golden \<Rightarrow> nat \<Rightarrow> nat \<Rightarrow> nat \<Rightarrow> nat \<Rightarrow> fnum option" where
  "dec_a g i m k_outer kk =
     (if \<not> sub_byte g then do {
        b \<leftarrow> aref (g_A g) ((i * TILE g + m) * g_K g + k_outer * DIM + kk);
        Some (fp8_e4m3_decode b) }
      else do {
        let row = (i * TILE g + m) div 2;
        byte \<leftarrow> aref (g_A g) (row * g_K g + k_outer * DIM + kk);
        dec_nibble g (g_LA g) (i * TILE g + m) (nibble m byte) })"

definition dec_b :: "golden \<Rightarrow> nat \<Rightarrow> nat \<Rightarrow> nat \<Rightarrow> nat \<Rightarrow> fnum option" where
  "dec_b g j n k_outer kk =
     (if \<not> sub_byte g then do {
        b \<leftarrow> aref (g_B g) ((k_outer * DIM + kk) * g_N g + j * TILE g + n);
        Some (fp8_e4m3_decode b) }
      else do {
        let col = (j * TILE g + n) div 2;
        byte \<leftarrow> aref (g_B g) ((k_outer * DIM + kk) * (g_N g div 2) + col);
        dec_nibble g (g_LB g) (j * TILE g + n) (nibble n byte) })"

section \<open>The product\<close>

text \<open>One processing element: the quantised product added to the partial sum.\<close>

definition pe_mac :: "nat \<Rightarrow> fnum \<Rightarrow> fnum \<Rightarrow> fnum \<Rightarrow> fnum option" where
  "pe_mac kk a b ct = do {
     let ae = ACC_E ! kk;
     let am = ACC_M ! kk;
     let p = mx_product_quantize_trunc (fmul F32 a b) PROD_E PROD_M;
     Cq \<leftarrow> fp_quantize_rne ct ae am;
     pq \<leftarrow> fp_quantize_rne p ae am;
     fp_add_exact Cq pq ae am }"

definition tile_mac :: "golden \<Rightarrow> nat \<Rightarrow> nat \<Rightarrow> nat \<Rightarrow> nat \<Rightarrow> (nat \<times> nat \<Rightarrow> fnum) \<Rightarrow> (nat \<times> nat \<Rightarrow> fnum) option" where
  "tile_mac g k_outer j i kk Ct = do {
     A_col \<leftarrow> those (map (\<lambda>r. dec_a g i r k_outer kk) [0..<TILE g]);
     B_row \<leftarrow> those (map (\<lambda>c. dec_b g j c k_outer kk) [0..<TILE g]);
     foldM (\<lambda>r. foldM (\<lambda>c Ct. do {
         v \<leftarrow> pe_mac kk (A_col ! r) (B_row ! c) (Ct (r, c));
         Some (Ct((r, c) := v)) }) [0..<TILE g]) [0..<TILE g] Ct }"

definition scale_code :: "u8 \<Rightarrow> u8 \<Rightarrow> u8" where
  "scale_code sa sb = (let e = uint sa + uint sb - 127
     in if e < 0 then 0 else if e > 254 then 254 else word_of_int e)"

text \<open>The scaled partial sum of a group added to an element of the result.\<close>

definition group_add :: "u8 \<Rightarrow> u8 \<Rightarrow> fnum \<Rightarrow> fnum \<Rightarrow> fnum option" where
  "group_add sa sb ct acc = do {
     let scaled = bf16_round (fmul F32 ct (fpe8m0_decode (scale_code sa sb)));
     s \<leftarrow> bf16_accum_add acc scaled;
     Some (bf16_to_f32 (f32_to_bf16_rne (f32_bits s))) }"

definition tile_accum :: "golden \<Rightarrow> nat \<Rightarrow> nat \<Rightarrow> nat \<Rightarrow> (nat \<times> nat \<Rightarrow> fnum) \<Rightarrow> fnum list \<Rightarrow> fnum list option" where
  "tile_accum g k_outer j i Ct =
     (let grp = k_outer * DIM div GROUP
      in foldM (\<lambda>r. foldM (\<lambda>c C. do {
           let m = i * TILE g + r;
           let n = j * TILE g + c;
           sa \<leftarrow> aref (g_SA g) (grp * g_M g + m);
           sb \<leftarrow> aref (g_SB g) (grp * g_N g + n);
           acc \<leftarrow> aref C (m * g_N g + n);
           v \<leftarrow> group_add sa sb (Ct (r, c)) acc;
           Some (C[m * g_N g + n := v]) }) [0..<TILE g]) [0..<TILE g])"

definition golden_matmul :: "golden \<Rightarrow> fnum list option" where
  "golden_matmul g =
     foldM (\<lambda>k_outer. foldM (\<lambda>j. foldM (\<lambda>i C. do {
         Ct \<leftarrow> foldM (tile_mac g k_outer j i) [0..<DIM] (\<lambda>_. f32_zero);
         tile_accum g k_outer j i Ct C }) [0..<g_M g div TILE g]) [0..<g_N g div TILE g])
       [0..<g_K g div DIM] (replicate (g_M g * g_N g) f32_zero)"

definition golden_out :: "fnum list \<Rightarrow> u16 list" where
  "golden_out C = map (\<lambda>x. f32_to_bf16_rne (f32_bits x)) C"

section \<open>Requantisation\<close>

definition GROUP_OUT :: nat where "GROUP_OUT = 32"

definition block_max :: "fnum list \<Rightarrow> fnum" where
  "block_max vals = fold (\<lambda>v mx. if flt mx (fabsf v) then fabsf v else mx) vals f32_zero"

definition block_scale :: "(fnum \<Rightarrow> fnum) \<Rightarrow> int \<Rightarrow> fnum \<Rightarrow> u8 option" where
  "block_scale lg out_fmt max_abs =
     (let log2_pmax = (if out_fmt = 0 then 8 else if out_fmt = 1 then 4 else 2)
      in if feq max_abs f32_zero then Some 0
         else do {
           l \<leftarrow> f_to_int (floorf (lg max_abs));
           let s2 = l - log2_pmax + 127;
           Some (if s2 < 0 then 0 else if s2 > 254 then 254 else word_of_int s2) })"

text \<open>The code of a value divided by its block scale; \<open>lc\<close> and \<open>gc\<close> are the fp6 output tables.\<close>

definition requant_code :: "(fnum \<Rightarrow> fnum) \<Rightarrow> int \<Rightarrow> u8 list \<Rightarrow> nat \<Rightarrow> nat \<Rightarrow> fnum \<Rightarrow> fnum \<Rightarrow> u8 option" where
  "requant_code lg out_fmt lc gc m scale v =
     (if out_fmt = 0 then fp8_e4m3_to_code lg (fdiv F32 v scale)
      else do {
        let sb = f32_to_bf16_rne (f32_bits (fdiv F32 v scale));
        if out_fmt = 1 then do {
          c6 \<leftarrow> bf16_bits_to_fp6_e3m2_code lg sb;
          lut \<leftarrow> those (map (\<lambda>i. aref lc (m div 2 ^ gc * 16 + i)) [0..<16]);
          Some (word_of_nat (fp6e3m2_nearest_finder c6 (\<lambda>i. lut ! i))) }
        else Some (bf16_bits_to_fp4_e2m1_code sb) })"

definition put_nibble :: "nat \<Rightarrow> u8 \<Rightarrow> u8 \<Rightarrow> u8" where
  "put_nibble m byte code =
     (if odd m then (byte AND 0x0F) OR push_bit 4 (code AND 0xF) else (byte AND 0xF0) OR (code AND 0xF))"

definition requant_put :: "(fnum \<Rightarrow> fnum) \<Rightarrow> int \<Rightarrow> u8 list \<Rightarrow> nat \<Rightarrow> nat \<Rightarrow> nat \<Rightarrow> fnum \<Rightarrow> fnum list \<Rightarrow> nat \<Rightarrow> u8 list \<Rightarrow> u8 list option" where
  "requant_put lg out_fmt lc gc N m scale C j packed = do {
     v \<leftarrow> aref C (m * N + j);
     code \<leftarrow> requant_code lg out_fmt lc gc m scale v;
     if out_fmt = 0 then do {
       _ \<leftarrow> aref packed (m * N + j);
       Some (packed[m * N + j := code]) }
     else do {
       let bp = m div 2 * N + j;
       byte \<leftarrow> aref packed bp;
       Some (packed[bp := put_nibble m byte code]) } }"

definition requant_block :: "(fnum \<Rightarrow> fnum) \<Rightarrow> int \<Rightarrow> u8 list \<Rightarrow> nat \<Rightarrow> nat \<Rightarrow> fnum list \<Rightarrow> nat \<Rightarrow> nat \<Rightarrow> u8 list \<times> u8 list \<Rightarrow> (u8 list \<times> u8 list) option" where
  "requant_block lg out_fmt lc gc N C m bi st = do {
     let (packed, scales) = st;
     vals \<leftarrow> those (map (\<lambda>jj. aref C (m * N + bi * GROUP_OUT + jj)) [0..<GROUP_OUT]);
     sc \<leftarrow> block_scale lg out_fmt (block_max vals);
     _ \<leftarrow> aref scales (m * (N div GROUP_OUT) + bi);
     let scales = scales[m * (N div GROUP_OUT) + bi := sc];
     packed \<leftarrow> foldM (\<lambda>jj. requant_put lg out_fmt lc gc N m (fpe8m0_decode sc) C (bi * GROUP_OUT + jj)) [0..<GROUP_OUT] packed;
     Some (packed, scales) }"

definition requant :: "(fnum \<Rightarrow> fnum) \<Rightarrow> int \<Rightarrow> u8 list \<Rightarrow> nat \<Rightarrow> nat \<Rightarrow> nat \<Rightarrow> fnum list \<Rightarrow> (u8 list \<times> u8 list) option" where
  "requant lg out_fmt lc gc M N C =
     foldM (\<lambda>m. foldM (requant_block lg out_fmt lc gc N C m) [0..<N div GROUP_OUT]) [0..<M]
       (replicate (M * N) 0, replicate (M * (N div GROUP_OUT)) 0)"

end
