(* ===== verification/Mx_Total.thy ===== *)
theory Mx_Total
  imports Mx_Golden
begin

text \<open>
  The quantised arithmetic of the reference program is total on the numbers it meets: every
  intermediate result is an infinity, not-a-number, or a \<open>binary32\<close> number on a grid whose step
  keeps the 64-bit shifts of \<open>fp_quantize_rne_scalar\<close> in range.
\<close>

section \<open>Numbers on a grid\<close>

text \<open>A well-formed \<open>float\<close>.\<close>

fun wf_f32 :: "fnum \<Rightarrow> bool" where
  "wf_f32 (FFin s r) = representable F32 r"
| "wf_f32 _ = True"

text \<open>A \<open>float\<close> that is zero or has at least the magnitude \<open>2 ^ d\<close>.\<close>

fun above :: "int \<Rightarrow> fnum \<Rightarrow> bool" where
  "above d (FFin s r) = (r = 0 \<or> pow2 d \<le> r)"
| "above d _ = True"

text \<open>A \<open>float\<close> that is a multiple of \<open>2 ^ d\<close>.\<close>

fun gridded :: "int \<Rightarrow> fnum \<Rightarrow> bool" where
  "gridded d (FFin s r) = (\<exists>n\<ge>0. r = of_int n * pow2 d)"
| "gridded d _ = True"

lemma above_mono: "above d x \<Longrightarrow> d' \<le> d \<Longrightarrow> above d' x"
  using pow2_mono [of d' d] by (cases x) auto

lemma gridded_above: "gridded d x \<Longrightarrow> above d x"
proof (cases x)
  case (FFin s r)
  assume "gridded d x"
  then obtain n where n: "0 \<le> n" "r = of_int n * pow2 d" by (auto simp: FFin)
  have "pow2 d \<le> r" if "n \<noteq> 0"
  proof -
    have "(of_int 1 :: rat) \<le> of_int n" using that n(1) by (simp only: of_int_le_iff)
    then show ?thesis using mult_right_mono [of 1 "of_int n" "pow2 d"] by (simp add: n(2))
  qed
  then show ?thesis using n by (auto simp: FFin)
qed simp_all

text \<open>Rounding into a format inside binary32 gives a binary32 number on the format's grid.\<close>

lemma frnd_cases:
  assumes r: "0 < r" and f: "mbits F \<le> 23" "- 149 \<le> femin F - int (mbits F)" and lt: "frnd F r < pow2 128"
  shows "representable F32 (frnd F r) \<and> (\<exists>n\<ge>0. frnd F r = of_int n * pow2 (femin F - int (mbits F)))"
proof -
  define k where "k = round_even (r / fulp F r)"
  define X where "X = fexp F r - int (mbits F)"
  have e: "frnd F r = of_int k * pow2 X" by (simp add: k_def X_def frnd_sig)
  have X: "femin F - int (mbits F) \<le> X" by (simp add: X_def fexp_def)
  have "of_int 0 \<le> r / fulp F r" using r by (simp add: less_imp_le)
  then have k0: "0 \<le> k" unfolding k_def by (rule round_even_ge)
  have "frnd F r \<le> pow2 (fexp F r + 1)"
    using r fexp_less [OF r, of F] by (intro frnd_le_pow2) auto
  also have "pow2 (fexp F r + 1) = pow2 (int (mbits F + 1)) * pow2 X"
    unfolding X_def pow2_add [symmetric] by (simp add: algebra_simps)
  also have "pow2 (int (mbits F + 1)) = of_int (2 ^ (mbits F + 1))" unfolding pow2_of_nat by simp
  finally have "(of_int k :: rat) \<le> of_int (2 ^ (mbits F + 1))" unfolding e by simp
  then have k1: "k \<le> 2 ^ (mbits F + 1)" by (simp only: of_int_le_iff)
  have p24: "(2 :: int) ^ (mbits F + 1) \<le> 2 ^ 24" using f by (intro power_increasing) auto
  have rep: "representable F32 (frnd F r)"
  proof -
    consider "k = 0" | "k = 2 ^ 24" | "0 < k" "k < 2 ^ 24" using k0 k1 p24 by linarith
    then show ?thesis
    proof cases
      case 1
      then show ?thesis by (simp add: e representable_def)
    next
      case 2
      have "of_int (2 ^ 24) * pow2 X = of_int 8388608 * pow2 (X + 1)" by (simp add: pow2_Suc)
      then show ?thesis using 2 lt X f unfolding e by (intro representable_dyadic [of _ 8388608 "X + 1"]) auto
    next
      case 3
      then show ?thesis using lt X f unfolding e by (intro representable_dyadic [of _ k X]) auto
    qed
  qed
  have "pow2 X = pow2 (X - (femin F - int (mbits F))) * pow2 (femin F - int (mbits F))"
    by (simp flip: pow2_add)
  also have "pow2 (X - (femin F - int (mbits F))) = of_int (2 ^ nat (X - (femin F - int (mbits F))))"
    using X by (intro pow2_int) simp
  finally have "frnd F r = of_int (k * 2 ^ nat (X - (femin F - int (mbits F)))) * pow2 (femin F - int (mbits F))"
    by (simp add: e)
  moreover have "0 \<le> k * 2 ^ nat (X - (femin F - int (mbits F)))" using k0 by simp
  ultimately show ?thesis using rep by blast
qed

lemma representable_nonneg: "representable F r \<Longrightarrow> 0 \<le> r"
  by (auto simp: representable_def)

lemma fround32_wf: "0 \<le> r \<Longrightarrow> wf_f32 (fround F32 s r)"
proof (cases "r = 0")
  case False
  then show "0 \<le> r \<Longrightarrow> wf_f32 (fround F32 s r)" using frnd_cases [of r F32] by (auto simp: fround_eq not_le)
qed (simp add: fround_def representable_def)

lemma fround32_above:
  assumes r: "pow2 d \<le> r" and d: "- 126 \<le> d"
  shows "above d (fround F32 s r)"
proof -
  have "pow2 d \<le> frnd F32 r"
  proof -
    have "0 < pow2 d" by simp
    moreover have "frnd F32 (pow2 d) \<le> frnd F32 r" using r by (intro frnd_mono) auto
    moreover have "ilog2 (pow2 d) = d" by (intro ilog2_eq) auto
    then have "pow2 d \<le> frnd F32 (pow2 d)"
      using d frnd_ge_pow2 [of "pow2 d" F32] by (simp add: fexp_def)
    ultimately show ?thesis by linarith
  qed
  moreover have "r \<noteq> 0" using r pow2_pos [of d] by linarith
  ultimately show ?thesis by (simp add: fround_eq)
qed

section \<open>Quantisation and addition are total\<close>

lemma quantize_total:
  assumes x: "wf_f32 x" "above (1 - mx_bias e - int m - 40) x" and e: "1 \<le> e" "e \<le> 8" and m: "m \<le> 22"
  shows "\<exists>y. fp_quantize_rne_scalar x e m = Some y \<and> wf_f32 y \<and> gridded (1 - mx_bias e - int m) y"
proof (cases x)
  case (FFin s r)
  have zero: "wf_f32 f32_zero" "gridded d f32_zero" for d
    by (auto simp: representable_def intro: exI [of _ 0])
  show ?thesis
  proof (cases "r = 0")
    case True
    then show ?thesis using zero by (simp add: fp_quantize_rne_scalar_def FFin)
  next
    case False
    then have r: "0 < r" "representable F32 r" using x by (auto simp: FFin representable_def)
    have big: "pow2 (1 - mx_bias e - int m - 40) \<le> r" using x(2) False by (simp add: FFin)
    have q: "fp_quantize_rne_scalar x e m = Some (plus_zero (fround (small_fmt e m) s r))"
      unfolding FFin using m by (intro quantize_rounds r e big) simp
    note b = mx_bias_bounds [OF e]
    let ?G = "small_fmt e m"
    show ?thesis
    proof (cases "pow2 (mx_bias e + 1) \<le> frnd ?G r")
      case True
      then show ?thesis using q r by (simp add: fround_eq plus_zero_pos)
    next
      case False
      then have "frnd ?G r < pow2 (mx_bias e + 1)" by simp
      also have "\<dots> \<le> pow2 128" using b by (intro pow2_mono) simp
      finally have "frnd ?G r < pow2 128" .
      then have c: "representable F32 (frnd ?G r)" "\<exists>n\<ge>0. frnd ?G r = of_int n * pow2 (1 - mx_bias e - int m)"
        using frnd_cases [of r ?G] r b m by auto
      then show ?thesis using q r False zero by (auto simp: fround_eq plus_zero_def)
    qed
  qed
qed (simp_all add: fp_quantize_rne_scalar_def)

lemma fadd_wf: "wf_f32 x \<Longrightarrow> wf_f32 y \<Longrightarrow> wf_f32 (fadd F32 x y)"
  by (induction F32 x y rule: fadd.induct)
    (auto simp: fround_val_def fround32_wf representable_def [of _ 0])

lemma fmul_wf: "wf_f32 x \<Longrightarrow> wf_f32 y \<Longrightarrow> wf_f32 (fmul F32 x y)"
  by (induction F32 x y rule: fmul.induct) (auto intro!: fround32_wf mult_nonneg_nonneg dest: representable_nonneg)

lemma fval_gridded: "gridded d (FFin s r) \<Longrightarrow> \<exists>n. fval (FFin s r) = of_int n * pow2 d"
proof -
  assume "gridded d (FFin s r)"
  then obtain n where "r = of_int n * pow2 d" by auto
  then have "fval (FFin s r) = of_int (if s then - n else n) * pow2 d" by simp
  then show ?thesis ..
qed

text \<open>The exact sum of two numbers of a grid is on the grid, so rounding cannot bring it near zero.\<close>

lemma fadd_above:
  assumes "gridded d x" "gridded d y" "- 126 \<le> d"
  shows "above d (fadd F32 x y)"
proof (cases "\<exists>s r t q. x = FFin s r \<and> y = FFin t q")
  case True
  then obtain s r t q where x: "x = FFin s r" and y: "y = FFin t q" by blast
  obtain n m where n: "fval x = of_int n * pow2 d" and m: "fval y = of_int m * pow2 d"
    using assms(1,2) fval_gridded unfolding x y by metis
  have sum: "fval x + fval y = of_int (n + m) * pow2 d" by (simp add: n m distrib_right)
  show ?thesis
  proof (cases "n + m = 0")
    case True
    then have "fval x + fval y = 0" by (simp only: sum of_int_0 mult_zero_left)
    then show ?thesis by (simp add: x y fround_val_def)
  next
    case False
    then have "(1 :: rat) \<le> of_int \<bar>n + m\<bar>" by (metis of_int_1_le_iff zero_less_abs_iff zless_imp_add1_zle add_0)
    then have "pow2 d \<le> \<bar>fval x + fval y\<bar>"
      using mult_right_mono [of 1 "of_int \<bar>n + m\<bar>" "pow2 d"] unfolding sum abs_mult by simp
    then have "above d (fround F32 (fval x + fval y < 0) \<bar>fval x + fval y\<bar>)"
      using assms(3) by (rule fround32_above)
    moreover have "fval x + fval y \<noteq> 0" unfolding sum using False by (simp del: of_int_add)
    ultimately show ?thesis by (simp add: x y fround_val_def)
  qed
next
  case False
  then show ?thesis by (cases x; cases y) auto
qed

lemma wf_above: "wf_f32 x \<Longrightarrow> above (- 149) x"
proof (cases x)
  case (FFin s r)
  assume "wf_f32 x"
  then have rep: "representable F32 r" by (simp add: FFin)
  show ?thesis
  proof (cases "r = 0")
    case False
    then have r: "0 < r" using rep by (simp add: representable_def)
    obtain sg E where p: "r = of_int sg * pow2 (E - 150)" "1 \<le> E" "0 < sg" using f32_parts [OF rep r] by metis
    have "(of_int 1 :: rat) \<le> of_int sg" using p(3) by (simp only: of_int_le_iff)
    then have "pow2 (E - 150) \<le> r" unfolding p(1) using mult_right_mono [of 1 "of_int sg" "pow2 (E - 150)"] by simp
    moreover have "pow2 (- 149) \<le> pow2 (E - 150)" using p(2) by (intro pow2_mono) simp
    ultimately show ?thesis by (simp add: FFin)
  qed (simp add: FFin)
qed simp_all

lemma wf_fdec: "wf_f32 (fdec F32 b)"
  by (auto simp: fdec_def Let_def intro!: dec_mag_rep)

lemma bf16_round_wf [simp]: "wf_f32 (bf16_round x)" "wf_f32 (bf16_to_f32 w)"
  by (simp_all add: bf16_round_def bf16_to_f32_eq wf_fdec)

lemma add_exact_total:
  assumes "wf_f32 x" "wf_f32 y" "above (1 - mx_bias e - int m - 40) (fadd F32 x y)"
    and "gridded (1 - mx_bias e - int m) x \<and> gridded (1 - mx_bias e - int m) y \<or> g" and "1 \<le> e" "e \<le> 8" "m \<le> 22"
  shows "\<exists>z. fp_add_exact x y e m = Some z \<and> wf_f32 z \<and> (gridded (1 - mx_bias e - int m) z \<or> g)"
  using assms quantize_total [OF fadd_wf [OF assms(1,2)] assms(3,5,6,7)]
  by (cases x; cases y) (auto simp: fp_add_exact_def simp del: fadd.simps)

text \<open>In bfloat16 there is nothing to require of the operands.\<close>

lemma add_exact_bf16_total:
  assumes "wf_f32 x" "wf_f32 y"
  shows "\<exists>z. fp_add_exact x y 8 7 = Some z \<and> wf_f32 z"
proof -
  have b: "mx_bias 8 = 127" by (simp add: mx_bias_def)
  have "above (- 173) (fadd F32 x y)"
    using wf_above [OF fadd_wf [OF assms]] by (rule above_mono) simp
  then show ?thesis using add_exact_total [OF assms, where e = 8 and m = 7 and g = True] by (simp add: b)
qed

lemma gridded_mono: "gridded d x \<Longrightarrow> d' \<le> d \<Longrightarrow> gridded d' x"
proof (cases x)
  case (FFin s r)
  assume "gridded d x" "d' \<le> d"
  then obtain n where n: "0 \<le> n" "r = of_int n * pow2 d" by (auto simp: FFin)
  have "pow2 d = pow2 (d - d') * pow2 d'" by (simp flip: pow2_add)
  also have "pow2 (d - d') = of_int (2 ^ nat (d - d'))" using \<open>d' \<le> d\<close> by (intro pow2_int) simp
  finally have "r = of_int (n * 2 ^ nat (d - d')) * pow2 d'" by (simp add: n(2))
  moreover have "0 \<le> n * 2 ^ nat (d - d')" using n by simp
  ultimately show ?thesis unfolding FFin gridded.simps by blast
qed simp_all

section \<open>The processing element\<close>

lemma product_quantize_total:
  assumes "wf_f32 x" "above (- 18) x"
  shows "wf_f32 (mx_product_quantize_trunc x 4 3) \<and> above (- 18) (mx_product_quantize_trunc x 4 3)"
proof -
  have r448: "representable F32 448" using dyadic_rep [of 448 0] by simp
  have p18: "pow2 (- 18) \<le> 448" by (simp add: pow2_def)
  show ?thesis
  proof (cases x)
    case (FFin s r)
    show ?thesis
    proof (cases "r = 0")
      case True
      then show ?thesis by (simp add: FFin mx_product_quantize_trunc_def saturate_e4m3 representable_def)
    next
      case False
      then have r: "0 < r" "representable F32 r" "pow2 (- 18) \<le> r" using assms by (auto simp: FFin representable_def)
      have "pow2 (- 18) < pow2 (ilog2 r + 1)" using ilog2_bounds [OF r(1)] r(3) by linarith
      then have "- 18 \<le> ilog2 r" by simp
      then have "pow2 (- 18) \<le> pow2 (ilog2 r)" by (rule pow2_mono)
      also have "pow2 (ilog2 r) \<le> trunc4 r"
      proof -
        have p: "pow2 (ilog2 r) = of_int 8 * pow2 (ilog2 r - 3)" by (simp add: pow2_diff) (simp add: pow2_def)
        have "of_int 8 \<le> r / pow2 (ilog2 r - 3)"
          using ilog2_bounds [OF r(1)] unfolding p by (simp add: field_simps)
        then have "8 \<le> \<lfloor>r / pow2 (ilog2 r - 3)\<rfloor>" by (simp only: le_floor_iff)
        then have "(of_int 8 :: rat) \<le> of_int \<lfloor>r / pow2 (ilog2 r - 3)\<rfloor>" by (simp only: of_int_le_iff)
        then show ?thesis unfolding p trunc4_def by (intro mult_right_mono) auto
      qed
      finally show ?thesis
        using product_trunc(1) [OF r(2,1), of s] product_trunc(2) [OF r(2,1)] r448 p18 by (auto simp: FFin min_def)
    qed
  qed (use r448 p18 in \<open>simp_all add: mx_product_quantize_trunc_def saturate_e4m3_gen\<close>)
qed

text \<open>A decoded operand.\<close>

definition operand :: "fnum \<Rightarrow> bool" where
  "operand x \<longleftrightarrow> wf_f32 x \<and> gridded (- 9) x \<and> isfinite x"

lemma operand_product:
  assumes "operand a" "operand b"
  shows "wf_f32 (fmul F32 a b) \<and> above (- 18) (fmul F32 a b)"
proof -
  obtain s r where a: "a = FFin s r" using assms(1) by (cases a) (auto simp: operand_def)
  obtain t q where b: "b = FFin t q" using assms(2) by (cases b) (auto simp: operand_def)
  obtain n m where n: "0 \<le> n" "r = of_int n * pow2 (- 9)" and m: "0 \<le> m" "q = of_int m * pow2 (- 9)"
    using assms by (auto simp: operand_def a b)
  have rq: "r * q = of_int (n * m) * pow2 (- 18)"
    using pow2_add [of "- 9" "- 9"] by (simp add: n(2) m(2))
  then have "gridded (- 18) (FFin False (r * q))" using n(1) m(1) by (auto intro!: exI [of _ "n * m"])
  then have "above (- 18) (FFin False (r * q))" by (rule gridded_above)
  then have "above (- 18) (fmul F32 a b)"
    using fround32_above [of "- 18" "r * q"] by (auto simp: a b fround_def)
  moreover have "wf_f32 a" "wf_f32 b" using assms by (simp_all add: operand_def)
  ultimately show ?thesis by (simp only: fmul_wf)
qed

text \<open>A partial sum flowing down the column: on the grid until the last element.\<close>

lemma acc_formats: "kk < 15 \<Longrightarrow> ACC_E ! kk = 4 \<and> 4 \<le> ACC_M ! kk \<and> ACC_M ! kk \<le> 6"
  "ACC_E ! 15 = 8" "ACC_M ! 15 = 7"
proof -
  have "\<forall>k\<in>set [0..<15]. ACC_E ! k = 4 \<and> 4 \<le> ACC_M ! k \<and> ACC_M ! k \<le> 6" by code_simp
  then show "kk < 15 \<Longrightarrow> ACC_E ! kk = 4 \<and> 4 \<le> ACC_M ! kk \<and> ACC_M ! kk \<le> 6" by (simp only: set_upt) auto
qed (code_simp)+

lemma pe_mac_total:
  assumes a: "operand a" and b: "operand b" and kk: "kk < 16" and ct: "wf_f32 ct" "gridded (- 12) ct"
  shows "\<exists>z. pe_mac kk a b ct = Some z \<and> wf_f32 z \<and> (kk < 15 \<longrightarrow> gridded (- 12) z)"
proof -
  define p where "p = mx_product_quantize_trunc (fmul F32 a b) 4 3"
  have p: "wf_f32 p" "above (- 18) p"
    using product_quantize_total operand_product [OF a b] by (simp_all add: p_def)
  have mac: "pe_mac kk a b ct = do {
     Cq \<leftarrow> fp_quantize_rne ct (ACC_E ! kk) (ACC_M ! kk); pq \<leftarrow> fp_quantize_rne p (ACC_E ! kk) (ACC_M ! kk);
     fp_add_exact Cq pq (ACC_E ! kk) (ACC_M ! kk) }"
    by (simp add: pe_mac_def PROD_E_def PROD_M_def Let_def p_def)
  show ?thesis
  proof (cases "kk < 15")
    case True
    define m where "m = ACC_M ! kk"
    have f: "ACC_E ! kk = 4" "4 \<le> m" "m \<le> 6" using acc_formats(1) [OF True] by (simp_all add: m_def)
    have bias: "1 - mx_bias 4 - int m = - 6 - int m" by (simp add: mx_bias_def)
    have q: "\<exists>y. fp_quantize_rne x 4 m = Some y \<and> wf_f32 y \<and> gridded (- 6 - int m) y"
      if "wf_f32 x" "above (- 18) x" for x
      using quantize_total [of x 4 m, unfolded bias] that f above_mono [of "- 18" x "- 6 - int m - 40"]
      by (simp add: fp_quantize_rne_def)
    have "above (- 18) ct" using gridded_above [OF ct(2)] by (rule above_mono) simp
    then obtain Cq pq where c: "fp_quantize_rne ct 4 m = Some Cq" "wf_f32 Cq" "gridded (- 6 - int m) Cq"
      and pq: "fp_quantize_rne p 4 m = Some pq" "wf_f32 pq" "gridded (- 6 - int m) pq"
      using q [OF ct(1)] q [OF p] by blast
    have "above (- 6 - int m) (fadd F32 Cq pq)" using f by (intro fadd_above c pq) simp
    then have "above (- 6 - int m - 40) (fadd F32 Cq pq)" by (rule above_mono) simp
    then obtain z where z: "fp_add_exact Cq pq 4 m = Some z" "wf_f32 z" "gridded (- 6 - int m) z"
      using add_exact_total [OF c(2) pq(2), of 4 m False] c(3) pq(3) f by (auto simp: bias)
    then have "gridded (- 12) z" using f gridded_mono [of "- 6 - int m" z "- 12"] by simp
    then show ?thesis using z c pq f unfolding mac m_def [symmetric] by simp
  next
    case False
    then have k: "kk = 15" using kk by simp
    show ?thesis
      using add_exact_bf16_total [of "bf16_round ct" "bf16_round p"] unfolding mac unfolding k acc_formats(2,3)
      by (simp add: fp_quantize_rne_def)
  qed
qed

lemma group_add_total: "\<exists>z. group_add sa sb ct acc = Some z"
  using add_exact_bf16_total [of "bf16_round (bf16_round (fmul F32 ct (fpe8m0_decode (scale_code sa sb))))" "bf16_round acc"]
    add_exact_bf16_total [of "bf16_round acc" "bf16_round (bf16_round (fmul F32 ct (fpe8m0_decode (scale_code sa sb))))"]
  by (auto simp: group_add_def bf16_accum_add_def)

section \<open>Decoded operands\<close>

lemma operand_dec:
  assumes "dec_mag (small_fmt e m) n = of_int k * pow2 d" "0 \<le> k" "k < 16777216" "- 9 \<le> d" "d \<le> 104"
  shows "operand (FFin s (dec_mag (small_fmt e m) n))"
proof -
  have "gridded d (FFin s (dec_mag (small_fmt e m) n))" using assms(1,2) by auto
  then have "gridded (- 9) (FFin s (dec_mag (small_fmt e m) n))" by (rule gridded_mono) fact
  then show ?thesis using dyadic_rep [of k d] assms by (simp add: operand_def)
qed

lemma operand_small:
  assumes e: "0 < mx_bias e" "mx_bias e \<le> 7" and m: "m \<le> 3" "- 9 \<le> 1 - mx_bias e - int m" and n: "0 \<le> n" "n < 16 * 2 ^ m"
  shows "operand (FFin s (dec_mag (small_fmt e m) n))"
proof -
  have p: "(2 :: int) ^ m \<le> 8" using power_increasing [of m 3 "2 :: int"] m by simp
  have p1: "(1 :: int) \<le> 2 ^ m" by simp
  have f: "0 \<le> n mod 2 ^ m" "n mod 2 ^ m < 2 ^ m" by simp_all
  have x: "0 \<le> n div 2 ^ m" "n div 2 ^ m \<le> n"
    using n div_le_self [of n "2 ^ m"] by (simp_all add: pos_imp_zdiv_nonneg_iff)
  show ?thesis
  proof (cases "n div 2 ^ m = 0")
    case True
    have "n mod 2 ^ m < 16777216" using f p by linarith
    then show ?thesis using True f e m
      by (intro operand_dec [where k = "n mod 2 ^ m" and d = "1 - mx_bias e - int m"]) (simp_all add: dec_small)
  next
    case False
    then have x1: "1 \<le> n div 2 ^ m" using x by simp
    have "n div 2 ^ m < 16" using n by (intro div_lessI) simp_all
    moreover have "0 \<le> 2 ^ m + n mod 2 ^ m" "2 ^ m + n mod 2 ^ m < 16777216" using f p by linarith+
    ultimately show ?thesis using False x1 e m
      by (intro operand_dec [where k = "2 ^ m + n mod 2 ^ m" and d = "n div 2 ^ m - mx_bias e - int m"])
        (simp_all add: dec_small)
  qed
qed

lemma decoded_operand: "operand (fp8_e4m3_decode c)" "operand (fp6_e3m2_decode c)" "operand (fp4_e2m1_decode c)"
  unfolding fp8_decode fp6_decode fp4_decode
  by (rule operand_small; simp add: mx_bias_small)+

end
