(* ===== verification/Mx_Golden_Props.thy ===== *)
theory Mx_Golden_Props
  imports Mx_Total
begin

text \<open>
  The tiled loops of \<open>src/lib/golden/mx_golden.cpp\<close> against the definition of one element of the
  product, and the packing of the requantised result.
\<close>

section \<open>One element of the product\<close>

text \<open>Row \<open>m\<close> of the left and column \<open>n\<close> of the right operand, without tiles.\<close>

definition operand_a :: "golden \<Rightarrow> nat \<Rightarrow> nat \<Rightarrow> fnum option" where
  "operand_a g m k =
     (if \<not> sub_byte g then map_option fp8_e4m3_decode (aref (g_A g) (m * g_K g + k))
      else do { byte \<leftarrow> aref (g_A g) (m div 2 * g_K g + k); dec_nibble g (g_LA g) m (nibble m byte) })"

definition operand_b :: "golden \<Rightarrow> nat \<Rightarrow> nat \<Rightarrow> fnum option" where
  "operand_b g k n =
     (if \<not> sub_byte g then map_option fp8_e4m3_decode (aref (g_B g) (k * g_N g + n))
      else do { byte \<leftarrow> aref (g_B g) (k * (g_N g div 2) + n div 2); dec_nibble g (g_LB g) n (nibble n byte) })"

definition elem_mac :: "golden \<Rightarrow> nat \<Rightarrow> nat \<Rightarrow> nat \<Rightarrow> nat \<Rightarrow> fnum \<Rightarrow> fnum option" where
  "elem_mac g m n ko kk ct = do {
     a \<leftarrow> operand_a g m (ko * DIM + kk);
     b \<leftarrow> operand_b g (ko * DIM + kk) n;
     pe_mac kk a b ct }"

definition elem_group :: "golden \<Rightarrow> nat \<Rightarrow> nat \<Rightarrow> nat \<Rightarrow> fnum \<Rightarrow> fnum option" where
  "elem_group g m n ko acc = do {
     ct \<leftarrow> foldM (elem_mac g m n ko) [0..<DIM] f32_zero;
     sa \<leftarrow> aref (g_SA g) (ko * DIM div GROUP * g_M g + m);
     sb \<leftarrow> aref (g_SB g) (ko * DIM div GROUP * g_N g + n);
     group_add sa sb ct acc }"

definition golden_elem :: "golden \<Rightarrow> nat \<Rightarrow> nat \<Rightarrow> fnum option" where
  "golden_elem g m n = foldM (elem_group g m n) [0..<g_K g div DIM] f32_zero"

section \<open>The operands exist\<close>

lemma TILE_even: "even (TILE g)" and TILE_pos: "0 < TILE g"
  by (simp_all add: TILE_def DIM_def)

lemma dec_a_eq: "dec_a g i r ko kk = operand_a g (i * TILE g + r) (ko * DIM + kk)"
proof -
  have "odd (i * TILE g + r) = odd r" using TILE_even [of g] by simp
  then show ?thesis
    by (cases "aref (g_A g) ((i * TILE g + r) * g_K g + ko * DIM + kk)")
      (simp_all add: dec_a_def operand_a_def nibble_def add.assoc)
qed

lemma dec_b_eq: "dec_b g j c ko kk = operand_b g (ko * DIM + kk) (j * TILE g + c)"
proof -
  have "odd (j * TILE g + c) = odd c" using TILE_even [of g] by simp
  then show ?thesis
    by (cases "aref (g_B g) ((ko * DIM + kk) * g_N g + j * TILE g + c)")
      (simp_all add: dec_b_def operand_b_def nibble_def add.assoc)
qed

lemma grid_index: "m < M \<Longrightarrow> k < K \<Longrightarrow> m * K + k < M * K" for m k :: nat
proof -
  assume "m < M" "k < K"
  then have "m * K + k < (m + 1) * K" by simp
  also have "\<dots> \<le> M * K" using \<open>m < M\<close> by (intro mult_right_mono) auto
  finally show ?thesis .
qed

lemma nibble_less: "unat (nibble m b) < 16"
proof -
  have "unat (w AND 0xF) < 16" for w :: u8
    using uint_fields(2) [of w] by (simp add: unat_eq_nat_uint nat_less_iff)
  then show ?thesis by (simp add: nibble_def)
qed

lemma dec_nibble_ok:
  assumes "g_fmt g = 1 \<Longrightarrow> length lut = ((M - 1) div 2 ^ g_G g + 1) * 16" "g_fmt g = 1 \<or> g_fmt g = 2" "m < M"
  shows "\<exists>x. dec_nibble g lut m (nibble m' b) = Some x \<and> operand x"
proof (cases "g_fmt g = 2")
  case False
  then have f: "g_fmt g = 1" using assms by simp
  have "m div 2 ^ g_G g \<le> (M - 1) div 2 ^ g_G g" using assms(3) by (intro div_le_mono) simp
  then have "m div 2 ^ g_G g * 16 + unat (nibble m' b) < length lut"
    using nibble_less [of m' b] assms(1) [OF f] grid_index [of "m div 2 ^ g_G g" "(M - 1) div 2 ^ g_G g + 1" _ 16] by simp
  then show ?thesis using f by (simp add: dec_nibble_def decoded_operand)
qed (simp add: dec_nibble_def decoded_operand)

definition fmt_ok :: "golden \<Rightarrow> bool" where
  "fmt_ok g \<longleftrightarrow> g_fmt g \<in> {0, 1, 2}"

lemma half_less: "even M \<Longrightarrow> m < M \<Longrightarrow> m div 2 < M div 2" for m M :: nat
  by auto

lemma operand_a_ok:
  assumes "dims_ok g" "files_ok g" "fmt_ok g" "m < g_M g" "k < g_K g"
  shows "\<exists>x. operand_a g m k = Some x \<and> operand x"
proof -
  have "even (g_M g)" using assms(1) by (auto simp: dims_ok_def DIM_def)
  then have "m div 2 * g_K g + k < g_M g div 2 * g_K g"
    using assms half_less grid_index by blast
  moreover have "m * g_K g + k < g_M g * g_K g" using assms grid_index by blast
  ultimately show ?thesis
    using assms dec_nibble_ok [of g "g_LA g" "g_M g" m]
    by (auto simp: operand_a_def files_ok_def fmt_ok_def sub_byte_def decoded_operand)
qed

lemma operand_b_ok:
  assumes "dims_ok g" "files_ok g" "fmt_ok g" "k < g_K g" "n < g_N g"
  shows "\<exists>x. operand_b g k n = Some x \<and> operand x"
proof -
  have "even (g_N g)" using assms(1) by (auto simp: dims_ok_def DIM_def)
  then have "k * (g_N g div 2) + n div 2 < g_K g * (g_N g div 2)"
    using assms half_less grid_index by blast
  moreover have "k * g_N g + n < g_K g * g_N g" using assms grid_index by blast
  ultimately show ?thesis
    using assms dec_nibble_ok [of g "g_LB g" "g_N g" n]
    by (auto simp: operand_b_def files_ok_def fmt_ok_def sub_byte_def decoded_operand)
qed

section \<open>The partial sums of a tile\<close>

definition in_grid :: "golden \<Rightarrow> bool" where
  "in_grid g \<longleftrightarrow> dims_ok g \<and> files_ok g \<and> fmt_ok g"

lemma elem_mac_total:
  assumes g: "in_grid g" and mn: "m < g_M g" "n < g_N g" and k: "ko < g_K g div DIM" "kk < DIM"
    and ct: "wf_f32 ct" "gridded (- 12) ct"
  shows "\<exists>z. elem_mac g m n ko kk ct = Some z \<and> wf_f32 z \<and> (kk < 15 \<longrightarrow> gridded (- 12) z)"
proof -
  have "ko * DIM + kk < g_K g div DIM * DIM" using k by (rule grid_index)
  also have "\<dots> \<le> g_K g" by simp
  finally have k: "ko * DIM + kk < g_K g" .
  obtain a b where "operand_a g m (ko * DIM + kk) = Some a" "operand a" "operand_b g (ko * DIM + kk) n = Some b" "operand b"
    using operand_a_ok [of g m] operand_b_ok [of g _ n] g mn k by (force simp: in_grid_def)
  then show ?thesis using pe_mac_total [of a b kk ct] assms by (simp add: elem_mac_def DIM_def)
qed

lemma those_map_total: "(\<And>x. x \<in> set xs \<Longrightarrow> f x = Some (h x)) \<Longrightarrow> those (map f xs) = Some (map h xs)"
  by (induction xs) auto

lemma tile_index: "i < M div T \<Longrightarrow> r < T \<Longrightarrow> i * T + r < M" for i M T r :: nat
  using grid_index [of i "M div T" r T] div_times_less_eq_dividend [of M T] by linarith

text \<open>One step of a tile is one step of each of its elements.\<close>

lemma tile_mac_elems:
  assumes g: "in_grid g" and ij: "i < g_M g div TILE g" "j < g_N g div TILE g" and k: "ko < g_K g div DIM" "kk < DIM"
    and Ct: "\<And>r c. r < TILE g \<Longrightarrow> c < TILE g \<Longrightarrow> wf_f32 (Ct (r, c)) \<and> gridded (- 12) (Ct (r, c))"
  shows "tile_mac g ko j i kk Ct = Some (\<lambda>(r, c). if r < TILE g \<and> c < TILE g
     then the (elem_mac g (i * TILE g + r) (j * TILE g + c) ko kk (Ct (r, c))) else Ct (r, c))"
proof -
  let ?T = "TILE g" and ?k = "ko * DIM + kk"
  have "?k < g_K g div DIM * DIM" using k by (rule grid_index)
  also have "\<dots> \<le> g_K g" by simp
  finally have kK: "?k < g_K g" .
  define av where "av r = the (operand_a g (i * ?T + r) ?k)" for r
  define bv where "bv c = the (operand_b g ?k (j * ?T + c))" for c
  have a: "operand_a g (i * ?T + r) ?k = Some (av r)" if "r < ?T" for r
    using operand_a_ok [of g "i * ?T + r" ?k] g kK tile_index [OF ij(1) that] by (force simp: av_def in_grid_def)
  have b: "operand_b g ?k (j * ?T + c) = Some (bv c)" if "c < ?T" for c
    using operand_b_ok [of g ?k "j * ?T + c"] g kK tile_index [OF ij(2) that] by (force simp: bv_def in_grid_def)
  have A: "those (map (\<lambda>r. dec_a g i r ko kk) [0..<?T]) = Some (map av [0..<?T])"
    by (rule those_map_total) (simp add: dec_a_eq a)
  have B: "those (map (\<lambda>c. dec_b g j c ko kk) [0..<?T]) = Some (map bv [0..<?T])"
    by (rule those_map_total) (simp add: dec_b_eq b)
  let ?ps = "List.product [0..<?T] [0..<?T]"
  let ?h = "\<lambda>(r, c). the (elem_mac g (i * ?T + r) (j * ?T + c) ko kk (Ct (r, c)))"
  let ?f = "\<lambda>(r, c) x. elem_mac g (i * ?T + r) (j * ?T + c) ko kk x"
  have step: "elem_mac g (i * ?T + r) (j * ?T + c) ko kk x = pe_mac kk (map av [0..<?T] ! r) (map bv [0..<?T] ! c) x"
    if "r < ?T" "c < ?T" for r c x
    using that by (simp add: elem_mac_def a b)
  have "tile_mac g ko j i kk Ct =
      foldM (\<lambda>r. foldM (\<lambda>c Ct. do { v \<leftarrow> pe_mac kk (map av [0..<?T] ! r) (map bv [0..<?T] ! c) (Ct (r, c));
        Some (Ct((r, c) := v)) }) [0..<?T]) [0..<?T] Ct"
    by (simp only: tile_mac_def A B Option.bind.bind_lunit)
  also have "\<dots> = foldM (\<lambda>(r, c) Ct. do { v \<leftarrow> pe_mac kk (map av [0..<?T] ! r) (map bv [0..<?T] ! c) (Ct (r, c));
        Some (Ct((r, c) := v)) }) ?ps Ct"
    by (rule foldM_product)
  also have "\<dots> = foldM (\<lambda>p Ct. do { v \<leftarrow> ?f p (Ct p); Some (Ct(p := v)) }) ?ps Ct"
    by (rule foldM_cong) (auto simp: step)
  also have "\<dots> = Some (\<lambda>p. if p \<in> set ?ps then ?h p else Ct p)"
  proof (rule foldM_fun_upd)
    fix p assume "p \<in> set ?ps"
    then obtain r c where p: "p = (r, c)" "r < ?T" "c < ?T" by auto
    show "?f p (Ct p) = Some (?h p)"
      using elem_mac_total [OF g tile_index [OF ij(1) p(2)] tile_index [OF ij(2) p(3)] k] Ct [OF p(2,3)] by (force simp: p(1))
  qed (simp add: distinct_product)
  also have "(\<lambda>p. if p \<in> set ?ps then ?h p else Ct p) = (\<lambda>(r, c). if r < ?T \<and> c < ?T
     then the (elem_mac g (i * ?T + r) (j * ?T + c) ko kk (Ct (r, c))) else Ct (r, c))"
    by (auto simp: fun_eq_iff)
  finally show ?thesis .
qed

text \<open>The whole column.\<close>

lemma tile_column:
  assumes g: "in_grid g" and ij: "i < g_M g div TILE g" "j < g_N g div TILE g" and k: "ko < g_K g div DIM"
  shows "n \<le> DIM \<Longrightarrow> \<exists>Ct. foldM (tile_mac g ko j i) [0..<n] (\<lambda>_. f32_zero) = Some Ct \<and>
    (\<forall>r<TILE g. \<forall>c<TILE g. foldM (elem_mac g (i * TILE g + r) (j * TILE g + c) ko) [0..<n] f32_zero = Some (Ct (r, c))
       \<and> wf_f32 (Ct (r, c)) \<and> (n < DIM \<longrightarrow> gridded (- 12) (Ct (r, c))))"
proof (induction n)
  case 0
  have "wf_f32 f32_zero" "gridded (- 12) f32_zero" by (auto simp: representable_def intro: exI [of _ 0])
  then show ?case by simp
next
  case (Suc n)
  then obtain Ct where Ct: "foldM (tile_mac g ko j i) [0..<n] (\<lambda>_. f32_zero) = Some Ct"
    "\<And>r c. r < TILE g \<Longrightarrow> c < TILE g \<Longrightarrow>
      foldM (elem_mac g (i * TILE g + r) (j * TILE g + c) ko) [0..<n] f32_zero = Some (Ct (r, c))
      \<and> wf_f32 (Ct (r, c)) \<and> gridded (- 12) (Ct (r, c))" by auto
  have n: "n < DIM" using Suc.prems by simp
  define Ct' where "Ct' = (\<lambda>(r, c). if r < TILE g \<and> c < TILE g
     then the (elem_mac g (i * TILE g + r) (j * TILE g + c) ko n (Ct (r, c))) else Ct (r, c))"
  have t: "tile_mac g ko j i n Ct = Some Ct'"
    unfolding Ct'_def using Ct(2) by (intro tile_mac_elems g ij k n) auto
  have e: "elem_mac g (i * TILE g + r) (j * TILE g + c) ko n (Ct (r, c)) = Some (Ct' (r, c)) \<and> wf_f32 (Ct' (r, c))
      \<and> (n < 15 \<longrightarrow> gridded (- 12) (Ct' (r, c)))" if "r < TILE g" "c < TILE g" for r c
    using elem_mac_total [OF g tile_index [OF ij(1) that(1)] tile_index [OF ij(2) that(2)] k n] Ct(2) [OF that] that
    by (force simp: Ct'_def)
  show ?case
    using Ct e t by (intro exI [of _ Ct']) (auto simp: foldM_append DIM_def)
qed

section \<open>One group added to the whole result\<close>

text \<open>The places of all tiles: tile column, tile row, row and column in the tile.\<close>

definition places :: "golden \<Rightarrow> (nat \<times> nat \<times> nat \<times> nat) list" where
  "places g = List.product [0..<g_N g div TILE g] (List.product [0..<g_M g div TILE g] (List.product [0..<TILE g] [0..<TILE g]))"

definition row_of :: "golden \<Rightarrow> nat \<times> nat \<times> nat \<times> nat \<Rightarrow> nat" where
  "row_of g = (\<lambda>(j, i, r, c). i * TILE g + r)"

definition col_of :: "golden \<Rightarrow> nat \<times> nat \<times> nat \<times> nat \<Rightarrow> nat" where
  "col_of g = (\<lambda>(j, i, r, c). j * TILE g + c)"

definition place_index :: "golden \<Rightarrow> nat \<times> nat \<times> nat \<times> nat \<Rightarrow> nat" where
  "place_index g p = row_of g p * g_N g + col_of g p"

lemma distinct_places: "distinct (places g)"
  by (simp add: places_def distinct_product)

lemma row_col_less: "p \<in> set (places g) \<Longrightarrow> row_of g p < g_M g \<and> col_of g p < g_N g"
  by (auto simp: places_def row_of_def col_of_def intro: tile_index)

lemma place_index_less: "p \<in> set (places g) \<Longrightarrow> place_index g p < g_M g * g_N g"
  using row_col_less [of p g] by (simp add: place_index_def grid_index)

lemma grid_index_inject:
  assumes "m * N + n = m' * N + n'" "n < N" "n' < (N :: nat)"
  shows "m = m' \<and> n = n'"
proof -
  have "(m * N + n) div N = (m' * N + n') div N" "(m * N + n) mod N = (m' * N + n') mod N" by (simp_all only: assms(1))
  then show ?thesis using assms(2,3) by simp
qed

lemma inj_place_index: "inj_on (place_index g) (set (places g))"
proof (rule inj_onI)
  fix p q assume pq: "p \<in> set (places g)" "q \<in> set (places g)" "place_index g p = place_index g q"
  then have e: "row_of g p = row_of g q \<and> col_of g p = col_of g q"
    unfolding place_index_def using row_col_less by (intro grid_index_inject) blast+
  obtain j i r c where p: "p = (j, i, r, c)" by (cases p)
  obtain j' i' r' c' where q: "q = (j', i', r', c')" by (cases q)
  have "r < TILE g" "c < TILE g" "r' < TILE g" "c' < TILE g" using pq(1,2) by (auto simp: p q places_def)
  moreover have "i * TILE g + r = i' * TILE g + r'" "j * TILE g + c = j' * TILE g + c'"
    using e by (simp_all add: p q row_of_def col_of_def)
  ultimately show "p = q"
    using grid_index_inject [of i "TILE g" r i' r'] grid_index_inject [of j "TILE g" c j' c'] by (simp add: p q)
qed

definition group_pass :: "golden \<Rightarrow> nat \<Rightarrow> fnum list \<Rightarrow> fnum list option" where
  "group_pass g ko = foldM (\<lambda>j. foldM (\<lambda>i C. do {
     Ct \<leftarrow> foldM (tile_mac g ko j i) [0..<DIM] (\<lambda>_. f32_zero);
     tile_accum g ko j i Ct C }) [0..<g_M g div TILE g]) [0..<g_N g div TILE g]"

lemma golden_matmul_passes:
  "golden_matmul g = foldM (group_pass g) [0..<g_K g div DIM] (replicate (g_M g * g_N g) f32_zero)"
  by (simp add: golden_matmul_def group_pass_def [abs_def])

lemma bind_swap: "do { x \<leftarrow> a; y \<leftarrow> b; z \<leftarrow> c; f x y z } = do { z \<leftarrow> c; x \<leftarrow> a; y \<leftarrow> b; f x y z }"
  for a :: "'a option"
  by (cases a; cases b; cases c) simp_all

lemma group_pass_places:
  assumes g: "in_grid g" and k: "ko < g_K g div DIM"
  shows "group_pass g ko C = foldM (\<lambda>p C. do { a \<leftarrow> aref C (place_index g p);
     v \<leftarrow> elem_group g (row_of g p) (col_of g p) ko a; Some (C[place_index g p := v]) }) (places g) C"
proof -
  let ?B = "\<lambda>p C. do { a \<leftarrow> aref C (place_index g p);
     v \<leftarrow> elem_group g (row_of g p) (col_of g p) ko a; Some (C[place_index g p := v]) }"
  have tile: "do { Ct \<leftarrow> foldM (tile_mac g ko j i) [0..<DIM] (\<lambda>_. f32_zero); tile_accum g ko j i Ct D }
      = foldM (\<lambda>r. foldM (\<lambda>c. ?B (j, i, r, c)) [0..<TILE g]) [0..<TILE g] D"
    if ij: "i < g_M g div TILE g" "j < g_N g div TILE g" for i j D
  proof -
    obtain Ct where Ct: "foldM (tile_mac g ko j i) [0..<DIM] (\<lambda>_. f32_zero) = Some Ct"
      "\<And>r c. r < TILE g \<Longrightarrow> c < TILE g \<Longrightarrow>
        foldM (elem_mac g (i * TILE g + r) (j * TILE g + c) ko) [0..<DIM] f32_zero = Some (Ct (r, c))"
      using tile_column [OF g ij k, of DIM] by auto
    have "tile_accum g ko j i Ct D = foldM (\<lambda>r. foldM (\<lambda>c. ?B (j, i, r, c)) [0..<TILE g]) [0..<TILE g] D"
      unfolding tile_accum_def Let_def
      by (intro foldM_cong refl, subst bind_swap)
        (simp add: Ct(2) place_index_def row_of_def col_of_def elem_group_def)
    then show ?thesis by (simp add: Ct(1))
  qed
  have "group_pass g ko C = foldM (\<lambda>j. foldM (\<lambda>i. foldM (\<lambda>r. foldM (\<lambda>c. ?B (j, i, r, c)) [0..<TILE g]) [0..<TILE g])
      [0..<g_M g div TILE g]) [0..<g_N g div TILE g] C"
    unfolding group_pass_def by (intro foldM_cong refl) (simp add: tile)
  also have "\<dots> = foldM ?B (places g) C"
    unfolding places_def by (simp only: foldM_quads [of ?B])
  finally show ?thesis .
qed

text \<open>The elements some tile covers: all of them, unless the tile does not divide the matrix.\<close>

definition covered :: "golden \<Rightarrow> nat \<Rightarrow> nat \<Rightarrow> bool" where
  "covered g m n \<longleftrightarrow> m < g_M g div TILE g * TILE g \<and> n < g_N g div TILE g * TILE g"

lemma covered_place:
  assumes "covered g m n"
  obtains p where "p \<in> set (places g)" "row_of g p = m" "col_of g p = n"
proof -
  let ?T = "TILE g"
  have "m div ?T < g_M g div ?T" "n div ?T < g_N g div ?T"
    using assms TILE_pos [of g] by (simp_all add: covered_def div_less_iff_less_mult)
  then show ?thesis
    using that [of "(n div ?T, m div ?T, m mod ?T, n mod ?T)"] TILE_pos [of g]
    by (auto simp: places_def row_of_def col_of_def)
qed

lemma place_covered: "p \<in> set (places g) \<Longrightarrow> covered g (row_of g p) (col_of g p)"
  by (auto simp: places_def row_of_def col_of_def covered_def intro: grid_index)

lemma elem_group_total:
  assumes g: "in_grid g" and k: "ko < g_K g div DIM" and p: "p \<in> set (places g)"
  shows "\<exists>v. elem_group g (row_of g p) (col_of g p) ko acc = Some v"
proof -
  obtain j i r c where q: "p = (j, i, r, c)" by (cases p)
  have ij: "i < g_M g div TILE g" "j < g_N g div TILE g" "r < TILE g" "c < TILE g" using p by (auto simp: q places_def)
  obtain ct where ct: "foldM (elem_mac g (row_of g p) (col_of g p) ko) [0..<DIM] f32_zero = Some ct"
    using tile_column [OF g ij(1,2) k, of DIM] ij(3,4) by (auto simp: q row_of_def col_of_def)
  have "ko * DIM div GROUP < g_K g div GROUP"
  proof -
    have "g_K g mod GROUP = 0" using g by (simp add: in_grid_def dims_ok_def)
    then have K: "g_K g = g_K g div GROUP * GROUP" by (simp add: dvd_div_mult_self mod_eq_0_iff_dvd)
    have "ko * DIM < g_K g div DIM * DIM" using k by (simp add: DIM_def)
    also have "\<dots> \<le> g_K g" by simp
    finally show ?thesis using K by (simp add: div_less_iff_less_mult GROUP_def)
  qed
  then have "ko * DIM div GROUP * g_M g + row_of g p < length (g_SA g)"
    "ko * DIM div GROUP * g_N g + col_of g p < length (g_SB g)"
    using g row_col_less [OF p] by (simp_all add: in_grid_def files_ok_def grid_index)
  then show ?thesis using ct group_add_total by (simp add: elem_group_def)
qed

lemma group_pass_elems:
  assumes g: "in_grid g" and k: "ko < g_K g div DIM" and C: "length C = g_M g * g_N g"
  shows "\<exists>D. group_pass g ko C = Some D \<and> length D = g_M g * g_N g \<and>
    (\<forall>m<g_M g. \<forall>n<g_N g. if covered g m n then elem_group g m n ko (C ! (m * g_N g + n)) = Some (D ! (m * g_N g + n))
      else D ! (m * g_N g + n) = C ! (m * g_N g + n))"
proof -
  let ?f = "\<lambda>p a. elem_group g (row_of g p) (col_of g p) ko a"
  obtain D where D: "group_pass g ko C = Some D" "length D = length C"
    "\<forall>p\<in>set (places g). D ! place_index g p = the (?f p (C ! place_index g p))"
    "\<forall>i. i \<notin> place_index g ` set (places g) \<longrightarrow> D ! i = C ! i"
    using foldM_list_update [OF distinct_places [of g] inj_place_index [of g], of C ?f "\<lambda>p. the (?f p (C ! place_index g p))"]
      place_index_less [of _ g] elem_group_total [OF g k] C
    unfolding group_pass_places [OF g k] by force
  have "if covered g m n then elem_group g m n ko (C ! (m * g_N g + n)) = Some (D ! (m * g_N g + n))
      else D ! (m * g_N g + n) = C ! (m * g_N g + n)" if mn: "m < g_M g" "n < g_N g" for m n
  proof (cases "covered g m n")
    case True
    then obtain p where p: "p \<in> set (places g)" "row_of g p = m" "col_of g p = n" by (rule covered_place)
    then show ?thesis
      using True D(3) elem_group_total [OF g k p(1), of "C ! (m * g_N g + n)"] by (force simp: place_index_def)
  next
    case False
    have "m * g_N g + n \<notin> place_index g ` set (places g)"
    proof
      assume "m * g_N g + n \<in> place_index g ` set (places g)"
      then obtain p where p: "p \<in> set (places g)" "m * g_N g + n = row_of g p * g_N g + col_of g p"
        by (auto simp: place_index_def)
      then have "m = row_of g p \<and> n = col_of g p"
        using mn row_col_less [OF p(1)] by (intro grid_index_inject) auto
      then show False using False place_covered [OF p(1)] by simp
    qed
    then show ?thesis using False D(4) by simp
  qed
  then show ?thesis using D(1,2) C by auto
qed

lemma golden_prefix:
  assumes g: "in_grid g"
  shows "n \<le> g_K g div DIM \<Longrightarrow> \<exists>C. foldM (group_pass g) [0..<n] (replicate (g_M g * g_N g) f32_zero) = Some C
    \<and> length C = g_M g * g_N g
    \<and> (\<forall>m<g_M g. \<forall>c<g_N g. if covered g m c then foldM (elem_group g m c) [0..<n] f32_zero = Some (C ! (m * g_N g + c))
         else C ! (m * g_N g + c) = f32_zero)"
proof (induction n)
  case 0
  then show ?case by (auto simp: grid_index)
next
  case (Suc n)
  then obtain C where C: "foldM (group_pass g) [0..<n] (replicate (g_M g * g_N g) f32_zero) = Some C"
    "length C = g_M g * g_N g"
    "\<And>m c. m < g_M g \<Longrightarrow> c < g_N g \<Longrightarrow> if covered g m c then foldM (elem_group g m c) [0..<n] f32_zero = Some (C ! (m * g_N g + c))
         else C ! (m * g_N g + c) = f32_zero" by auto
  obtain D where D: "group_pass g n C = Some D" "length D = g_M g * g_N g"
    "\<And>m c. m < g_M g \<Longrightarrow> c < g_N g \<Longrightarrow> if covered g m c then elem_group g m c n (C ! (m * g_N g + c)) = Some (D ! (m * g_N g + c))
      else D ! (m * g_N g + c) = C ! (m * g_N g + c)"
    using group_pass_elems [OF g _ C(2), of n] Suc.prems by auto
  have "if covered g m c then foldM (elem_group g m c) [0..<Suc n] f32_zero = Some (D ! (m * g_N g + c))
         else D ! (m * g_N g + c) = f32_zero" if "m < g_M g" "c < g_N g" for m c
    using C(3) [OF that] D(3) [OF that] by (simp add: foldM_append split: if_splits)
  moreover have "foldM (group_pass g) [0..<Suc n] (replicate (g_M g * g_N g) f32_zero) = Some D"
    using C(1) D(1) by (simp add: foldM_append)
  ultimately show ?case using D(2) by blast
qed

text \<open>C20: On operands of any of the three formats whose dimensions pass the program's test the
  reference product is defined: no read is out of bounds and no shift out of range.  Each element
  that a tile covers is the 16-deep accumulation of its own row and column, group after group; an
  element no tile covers (the tile is 32 wide for the packed formats, the test only asks for
  multiples of 16) stays zero.\<close>

theorem golden_matmul_elements:
  assumes "dims_ok g" "files_ok g" "g_fmt g \<in> {0, 1, 2}"
  shows "\<exists>C. golden_matmul g = Some C \<and> length C = g_M g * g_N g
    \<and> (\<forall>m<g_M g. \<forall>n<g_N g. if covered g m n then golden_elem g m n = Some (C ! (m * g_N g + n))
         else C ! (m * g_N g + n) = f32_zero)"
proof -
  have "in_grid g" using assms by (simp add: in_grid_def fmt_ok_def)
  from golden_prefix [OF this order_refl] show ?thesis
    unfolding golden_matmul_passes golden_elem_def .
qed

text \<open>A packed product of 48 rows: the tiles cover the first 32.\<close>

definition sample_golden :: golden where
  "sample_golden = \<lparr>g_M = 48, g_N = 32, g_K = 32, g_fmt = 2, g_A = replicate 768 0x21, g_B = replicate 512 0x43,
     g_SA = replicate 48 127, g_SB = replicate 32 127, g_LA = [], g_LB = [], g_G = 0\<rparr>"

theorem golden_matmul_elements_witness:
  "\<exists>C. golden_matmul sample_golden = Some C \<and> length C = 1536
    \<and> golden_elem sample_golden 3 5 = Some (C ! 101) \<and> C ! 1280 = f32_zero"
proof -
  have "dims_ok sample_golden" "files_ok sample_golden" "g_fmt sample_golden \<in> {0, 1, 2}"
    by (simp_all add: sample_golden_def dims_ok_def files_ok_def DIM_def GROUP_def sub_byte_def)
  note all = golden_matmul_elements [OF this]
  have sel: "g_M sample_golden = 48" "g_N sample_golden = 32" by (simp_all add: sample_golden_def)
  from all obtain C where C: "golden_matmul sample_golden = Some C" "length C = 1536"
    "\<forall>m<48. \<forall>n<32. if covered sample_golden m n then golden_elem sample_golden m n = Some (C ! (m * 32 + n))
         else C ! (m * 32 + n) = f32_zero"
    unfolding sel by auto
  have "covered sample_golden 3 5" "\<not> covered sample_golden 40 0"
    by (simp_all add: covered_def sample_golden_def TILE_def sub_byte_def)
  then have "golden_elem sample_golden 3 5 = Some (C ! (3 * 32 + 5))" "C ! (40 * 32 + 0) = f32_zero"
    using C(3) [rule_format, of 3 5] C(3) [rule_format, of 40 0] by simp_all
  then show ?thesis using C(1,2) by auto
qed

end
