(* ===== verification/Mxgemm.thy ===== *)
theory Mxgemm
  imports Mu_Schedule
begin

text \<open>
  The software-pipelined GEMM on the MX-Gemmini accelerator,
  \<open>src/lib/mxgemm/mxgemm_lib.hpp\<close> with the memory map of \<open>src/lib/include/mxgemmini_mmio.h\<close>:
  the tile configuration and the placement of the result in the scratchpad, the move-in and
  move-out loops and the K loop.  A function yields the sequence of accelerator calls, fences,
  barriers and word copies that it makes.  The accelerator's macros and its geometry come from a
  submodule that is not part of the repository: the macros are the constructors of \<open>call\<close>, the
  geometry is the parameter record \<open>params\<close>.
\<close>

section \<open>Configuration\<close>

datatype gemm_datatype = FP8 | FP6 | FP4

record gemm_config =
  TILE_M :: u32
  TILE_N :: u32
  TILE_K :: u32
  DATATYPE :: gemm_datatype
  QUANT_OUTPUT :: bool
  ACC_TO_GMEM :: bool

text \<open>The accelerator's geometry (\<open>gemmini_params.h\<close> of the submodule).\<close>

record params =
  p_dim :: u32
  p_bank_num :: u32
  p_bank_rows :: u32
  p_addr_len :: nat
  p_acc_rows :: u32

text \<open>The static assertion on the geometry: a scratchpad of 128 KiB.\<close>

definition geometry_ok :: "params \<Rightarrow> bool" where
  "geometry_ok P \<longleftrightarrow> p_bank_num P * p_bank_rows P * p_dim P = 128 * 1024"

definition IS_FP8 :: "gemm_config \<Rightarrow> bool" where
  "IS_FP8 C \<longleftrightarrow> DATATYPE C = FP8"

definition PE_M :: "gemm_config \<Rightarrow> u32" where
  "PE_M C = (if IS_FP8 C then 16 else 32)"

definition PE_N :: "gemm_config \<Rightarrow> u32" where
  "PE_N C = (if IS_FP8 C then 16 else 32)"

definition PE_K :: "gemm_config \<Rightarrow> u32" where
  "PE_K C = 16"

definition PE_TILES_I :: "gemm_config \<Rightarrow> u32" where
  "PE_TILES_I C = TILE_M C div PE_M C"

definition PE_TILES_J :: "gemm_config \<Rightarrow> u32" where
  "PE_TILES_J C = TILE_N C div PE_N C"

definition PE_TILES_K :: "gemm_config \<Rightarrow> u32" where
  "PE_TILES_K C = TILE_K C div PE_K C"

definition SCALE_FACTORS_PER_TILE_A :: "gemm_config \<Rightarrow> u32" where
  "SCALE_FACTORS_PER_TILE_A C = TILE_M C * TILE_K C div 32"

definition SCALE_FACTORS_PER_TILE_B :: "gemm_config \<Rightarrow> u32" where
  "SCALE_FACTORS_PER_TILE_B C = TILE_N C * TILE_K C div 32"

definition VALUES_PER_BYTE :: "gemm_config \<Rightarrow> u32" where
  "VALUES_PER_BYTE C = (if IS_FP8 C then 1 else 2)"

definition OUT_ELEM_SIZE :: "gemm_config \<Rightarrow> u32" where
  "OUT_ELEM_SIZE C = (if QUANT_OUTPUT C then 1 else 2)"

definition TILE_M_QUANT :: "gemm_config \<Rightarrow> u32" where
  "TILE_M_QUANT C = (if QUANT_OUTPUT C then TILE_M C div VALUES_PER_BYTE C else TILE_M C)"

definition TILE_N_QUANT :: "gemm_config \<Rightarrow> u32" where
  "TILE_N_QUANT C = TILE_N C"

definition USE_LUT :: "gemm_config \<Rightarrow> bool" where
  "USE_LUT C \<longleftrightarrow> DATATYPE C = FP6"

definition SMEM_ROWS :: "params \<Rightarrow> u32" where
  "SMEM_ROWS P = p_bank_num P * p_bank_rows P"

definition A_SPAD_ROWS :: "params \<Rightarrow> gemm_config \<Rightarrow> u32" where
  "A_SPAD_ROWS P C = TILE_M C * TILE_K C div VALUES_PER_BYTE C div p_dim P"

definition B_SPAD_ROWS :: "params \<Rightarrow> gemm_config \<Rightarrow> u32" where
  "B_SPAD_ROWS P C = TILE_K C * TILE_N C div VALUES_PER_BYTE C div p_dim P"

definition C_SPAD_ROWS :: "params \<Rightarrow> gemm_config \<Rightarrow> u32" where
  "C_SPAD_ROWS P C = TILE_M_QUANT C * TILE_N_QUANT C * OUT_ELEM_SIZE C div p_dim P"

definition spad_dest :: "u32 \<Rightarrow> u32 \<Rightarrow> u32 \<Rightarrow> u32 \<Rightarrow> u32" where
  "spad_dest SMEM A B C =
     (let QUARTER = SMEM div 4;
          B_ODD_LO = (SMEM - QUARTER) - B;
          B_EVEN_LO = SMEM - B
      in if A \<le> QUARTER \<and> QUARTER - A \<ge> C then A
         else if QUARTER + A \<le> B_ODD_LO \<and> B_ODD_LO - (QUARTER + A) \<ge> C then QUARTER + A
         else if SMEM - QUARTER \<le> B_EVEN_LO \<and> B_EVEN_LO - (SMEM - QUARTER) \<ge> C then SMEM - QUARTER
         else 0)"

definition SPAD_DEST :: "params \<Rightarrow> gemm_config \<Rightarrow> u32" where
  "SPAD_DEST P C = spad_dest (SMEM_ROWS P) (A_SPAD_ROWS P C) (B_SPAD_ROWS P C) (C_SPAD_ROWS P C)"

definition C_FITS_IN_SPAD :: "params \<Rightarrow> gemm_config \<Rightarrow> bool" where
  "C_FITS_IN_SPAD P C \<longleftrightarrow> SPAD_DEST P C \<noteq> 0"

text \<open>The static assertions of \<open>configure_mxgemmini\<close> and \<open>mxgemm\<close>.\<close>

definition tile_asserts :: "gemm_config \<Rightarrow> bool" where
  "tile_asserts C \<longleftrightarrow> TILE_M C mod PE_M C = 0 \<and> TILE_N C mod PE_N C = 0
     \<and> TILE_K C \<ge> 32 \<and> TILE_K C mod 32 = 0"

definition fits_assert :: "params \<Rightarrow> gemm_config \<Rightarrow> bool" where
  "fits_assert P C \<longleftrightarrow> ACC_TO_GMEM C \<or> C_FITS_IN_SPAD P C"

section \<open>Calls\<close>

datatype rocc_funct = CONFIG_ADDRS_AB | CONFIG_STRIDES_AB

datatype space = Gmem | Smem

datatype call =
    Gemmini_flush u32
  | Config_ex u32 u32 u32 bool
  | Config_ld u32 u32
  | Config_st u32
  | Mxquant_config_mvout u64 u32 u32 u32 u32 u32 u32
  | Loop_config_bounds u32 u32 u32
  | Gemmini_fence
  | Rocc u64 u64 rocc_funct
  | Loop_ws_spad u32 u32 u32 u32 u32 u32 bool u32
  | Mvin u64 u32 u32 u32
  | Mvout u64 u32
  | Copy_word space u32 space u32
  | Copy_half space u32 space u32
  | Store_lut u32 u32
  | Smem_fence
  | Barrier u32 u32

text \<open>The global symbols the library uses: operands, scale factors and tables.\<close>

record symbols =
  A_in :: u32
  B_in :: u32
  A_scales_row :: u32
  B_scales_col :: u32
  C_scale_factors :: u32
  A_lut :: "nat \<Rightarrow> nat \<Rightarrow> u32"
  B_lut :: "nat \<Rightarrow> nat \<Rightarrow> u32"
  C_lut :: "nat \<Rightarrow> nat \<Rightarrow> u32"

definition rad_device_to_host_address :: "u32 \<Rightarrow> u64" where
  "rad_device_to_host_address addr = ucast addr OR 0x100000000"

definition GEMMINI_CTRL :: u32 where "GEMMINI_CTRL = 0x00084000"
definition GEMMINI_LUT0_ADDR :: u32 where "GEMMINI_LUT0_ADDR = GEMMINI_CTRL + 0x80"
definition GEMMINI_LUT1_ADDR :: u32 where "GEMMINI_LUT1_ADDR = GEMMINI_CTRL + 0x380"
definition GEMMINI_LUT2_ADDR :: u32 where "GEMMINI_LUT2_ADDR = GEMMINI_CTRL + 0x680"
definition GEMMINI_SF_MEM :: u32 where "GEMMINI_SF_MEM = 0x00088000"
definition GEMMINI_SF_MEM_SIZE :: u32 where "GEMMINI_SF_MEM_SIZE = 0x2000"
definition GEMMINI_SF_MEM_BUFFER_OFFSET :: u32 where
  "GEMMINI_SF_MEM_BUFFER_OFFSET = GEMMINI_SF_MEM_SIZE div 4"
definition GEMMINI_SF_MEM_A :: u32 where "GEMMINI_SF_MEM_A = GEMMINI_SF_MEM + 0x2000"
definition GEMMINI_SF_MEM_B :: u32 where "GEMMINI_SF_MEM_B = GEMMINI_SF_MEM"

definition QUANT_LUT_UPDATE_GRANULARITY :: nat where "QUANT_LUT_UPDATE_GRANULARITY = 1"

definition gemmini_format :: "gemm_datatype \<Rightarrow> u32" where
  "gemmini_format d = (case d of FP8 \<Rightarrow> 0 | FP6 \<Rightarrow> 1 | FP4 \<Rightarrow> 2)"

definition GEMMINI_FORMAT_FULL :: u32 where "GEMMINI_FORMAT_FULL = 3"

definition loop_matmul_skips :: "u32 \<Rightarrow> u32 \<Rightarrow> u32 \<Rightarrow> u32 \<Rightarrow> u32 \<Rightarrow> u32" where
  "loop_matmul_skips lda ldb ldd ex stc =
     push_bit 3 (lda OR push_bit 1 ldb OR push_bit 2 ldd OR push_bit 3 ex OR push_bit 4 stc)"

text \<open>The benchmark switches, at the values the file gives them.\<close>

definition GEMMINI_DMA :: bool where "GEMMINI_DMA = True"
definition ZERO_STRIDE_K :: bool where "ZERO_STRIDE_K = False"
definition DISABLE_MOVE_IN_AFTER_FIRST_K :: bool where "DISABLE_MOVE_IN_AFTER_FIRST_K = False"
definition DISABLE_SCALE_FACTOR_UPDATE :: bool where "DISABLE_SCALE_FACTOR_UPDATE = False"
definition DISABLE_GMEM_MOVE_OUT :: bool where "DISABLE_GMEM_MOVE_OUT = False"
definition SIMT_GMEM_MOVE_OUT :: bool where "SIMT_GMEM_MOVE_OUT = True"
definition MXGEMM_SF_ILP :: nat where "MXGEMM_SF_ILP = 16"
definition MXGEMM_SF_PIN_LOADS :: bool where "MXGEMM_SF_PIN_LOADS = False"

section \<open>Configuration calls\<close>

definition mxquant_config :: "symbols \<Rightarrow> gemm_config \<Rightarrow> u32 \<Rightarrow> call" where
  "mxquant_config S C toggle =
     Mxquant_config_mvout (rad_device_to_host_address (C_scale_factors S))
       (PE_TILES_I C) (PE_TILES_J C) (PE_TILES_K C) toggle toggle (of_nat QUANT_LUT_UPDATE_GRANULARITY)"

definition configure_mxgemmini :: "symbols \<Rightarrow> gemm_config \<Rightarrow> u32 \<Rightarrow> u32 \<Rightarrow> u32 \<Rightarrow> call list" where
  "configure_mxgemmini S C dim_m dim_n dim_k =
     (let fmt = gemmini_format (DATATYPE C);
          fmt_out = (if QUANT_OUTPUT C then fmt else GEMMINI_FORMAT_FULL);
          bounds = Loop_config_bounds (PE_TILES_I C) (PE_TILES_J C) (PE_TILES_K C)
      in [Gemmini_flush 0,
          Config_ex fmt fmt fmt_out (USE_LUT C),
          Config_ld dim_k 0,
          Config_ld (dim_n div VALUES_PER_BYTE C) 1,
          Config_st (dim_n * OUT_ELEM_SIZE C),
          mxquant_config S C 0,
          bounds, Gemmini_fence, bounds, Gemmini_fence])"

section \<open>Addresses of the double buffers\<close>

definition calculate_spad_addr :: "params \<Rightarrow> bool \<Rightarrow> u32 \<Rightarrow> u32" where
  "calculate_spad_addr P is_b tile_k =
     (let SMEM_SIZE_ROWS = p_bank_num P * p_bank_rows P;
          SMEM_QUARTER_ROWS = SMEM_SIZE_ROWS div 4;
          odd_k = tile_k AND 1;
          a_spad_addr = (if odd_k \<noteq> 0 then SMEM_QUARTER_ROWS else 0);
          b_spad_addr = (if odd_k \<noteq> 0 then SMEM_SIZE_ROWS - SMEM_QUARTER_ROWS else SMEM_SIZE_ROWS)
      in if is_b then b_spad_addr else a_spad_addr)"

definition calculate_scale_factor_smem_addr :: "bool \<Rightarrow> u32 \<Rightarrow> u32" where
  "calculate_scale_factor_smem_addr is_b tile_k =
     (let odd_k = tile_k AND 1;
          dbuf_offset = (if odd_k \<noteq> 0 then GEMMINI_SF_MEM_BUFFER_OFFSET else 0);
          a_sf_addr = GEMMINI_SF_MEM_A + dbuf_offset;
          b_sf_addr = GEMMINI_SF_MEM_B + dbuf_offset
      in if is_b then b_sf_addr else a_sf_addr)"

definition calculate_scale_factor_gmem_addr :: "gemm_config \<Rightarrow> bool \<Rightarrow> u32 \<Rightarrow> u32 \<Rightarrow> u32 \<Rightarrow> u32 \<Rightarrow> u32" where
  "calculate_scale_factor_gmem_addr C is_b scales_base_addr tile_k dim_m dim_n =
     (let dim_mn = (if is_b then dim_n else dim_m)
      in scales_base_addr + (if \<not> ZERO_STRIDE_K then tile_k * TILE_K C * dim_mn div 32 else 0))"

section \<open>Scale factors and tables\<close>

definition sf_load :: "u32 \<Rightarrow> nat \<Rightarrow> u32" where
  "sf_load base idx = base + 4 * of_nat (if MXGEMM_SF_PIN_LOADS then idx mod 16 else idx)"

text \<open>The word copies of the two loops: bodies of \<open>ILP\<close> words, then the remaining words.\<close>

function sf_rest :: "u32 \<Rightarrow> u32 \<Rightarrow> nat \<Rightarrow> nat \<Rightarrow> call list" where
  "sf_rest sf_mem sf words i =
     (if i < words then Copy_word Smem (sf_mem + 4 * of_nat i) Gmem (sf_load sf i) # sf_rest sf_mem sf words (i + 1)
      else [])"
  by auto
termination by (relation "measure (\<lambda>(_, _, w, i). w - i)") auto

function sf_body :: "u32 \<Rightarrow> u32 \<Rightarrow> nat \<Rightarrow> nat \<Rightarrow> call list" where
  "sf_body sf_mem sf words i =
     (if i + MXGEMM_SF_ILP \<le> words then
        (let unrolled = map (\<lambda>j. sf_load sf (i + j)) [0..<MXGEMM_SF_ILP]
         in map (\<lambda>j. Copy_word Smem (sf_mem + 4 * of_nat (i + j)) Gmem (unrolled ! j)) [0..<MXGEMM_SF_ILP])
        @ sf_body sf_mem sf words (i + MXGEMM_SF_ILP)
      else sf_rest sf_mem sf words i)"
  by auto
termination by (relation "measure (\<lambda>(_, _, w, i). w - i)") (auto simp: MXGEMM_SF_ILP_def)

declare sf_rest.simps [simp del] sf_body.simps [simp del]

definition load_scale_factors :: "u32 \<Rightarrow> u32 \<Rightarrow> u32 \<Rightarrow> call list" where
  "load_scale_factors sf_mem scale_factors n = sf_body sf_mem scale_factors (unat n div 4) 0"

definition lut_stores :: "u32 \<Rightarrow> (nat \<Rightarrow> nat \<Rightarrow> u32) \<Rightarrow> u32 \<Rightarrow> call list" where
  "lut_stores base lut tile =
     concat (map (\<lambda>i. map (\<lambda>w. Store_lut (base + 4 * of_nat (3 * i + w)) (lut i w)) [0, 1, 2])
       [0..<unat (drop_bit QUANT_LUT_UPDATE_GRANULARITY tile)])"

definition load_lut :: "symbols \<Rightarrow> gemm_config \<Rightarrow> call list" where
  "load_lut S C =
     (if USE_LUT C then
        lut_stores GEMMINI_LUT0_ADDR (B_lut S) (TILE_N C)
        @ lut_stores GEMMINI_LUT1_ADDR (A_lut S) (TILE_M C)
        @ lut_stores GEMMINI_LUT2_ADDR (C_lut S) (TILE_M C)
      else [])"

section \<open>Move-in\<close>

definition mvin_a :: "params \<Rightarrow> symbols \<Rightarrow> gemm_config \<Rightarrow> u32 \<Rightarrow> u32 \<Rightarrow> call list" where
  "mvin_a P S C dim_k a_spad_addr_start =
     concat (map (\<lambda>i. map (\<lambda>k.
         Mvin (rad_device_to_host_address (A_in S + of_nat i * p_dim P * dim_k + of_nat k * p_dim P))
           (a_spad_addr_start + (of_nat i * PE_TILES_K C + of_nat k) * p_dim P) (p_dim P) (p_dim P))
       [0..<unat (PE_TILES_K C)]) [0..<unat (PE_TILES_I C)])"

definition mvin_b :: "params \<Rightarrow> symbols \<Rightarrow> gemm_config \<Rightarrow> u32 \<Rightarrow> u32 \<Rightarrow> call list" where
  "mvin_b P S C dim_n b_spad_addr_end =
     (let b_spad_addr_start = b_spad_addr_end - PE_TILES_K C * PE_TILES_J C * p_dim P
      in concat (map (\<lambda>k. map (\<lambda>j.
         Mvin (rad_device_to_host_address (B_in S + of_nat k * p_dim P * dim_n div VALUES_PER_BYTE C + of_nat j * p_dim P))
           (b_spad_addr_start + (of_nat k * PE_TILES_J C + of_nat j) * p_dim P) (p_dim P) (p_dim P))
       [0..<unat (PE_TILES_J C)]) [0..<unat (PE_TILES_K C)]))"

definition copy_gmem_to_smem_async :: "params \<Rightarrow> symbols \<Rightarrow> gemm_config \<Rightarrow> u32 \<Rightarrow> u32 \<Rightarrow> u32 \<Rightarrow> call list" where
  "copy_gmem_to_smem_async P S C dim_n dim_k tile_k =
     (let a_spad_addr_start = calculate_spad_addr P False tile_k;
          b_spad_addr_end = calculate_spad_addr P True tile_k
      in if GEMMINI_DMA then
           let A_tile_start = A_in S + (if \<not> ZERO_STRIDE_K then TILE_K C * tile_k else 0);
               B_tile_start = B_in S + (if \<not> ZERO_STRIDE_K then dim_n * TILE_K C * tile_k div VALUES_PER_BYTE C else 0);
               skips_mvin = loop_matmul_skips 0 0 1 1 1
           in [Rocc (rad_device_to_host_address A_tile_start) (rad_device_to_host_address B_tile_start) CONFIG_ADDRS_AB,
               Rocc (ucast dim_k) (ucast (dim_n div VALUES_PER_BYTE C)) CONFIG_STRIDES_AB,
               Loop_ws_spad (PE_TILES_I C) (PE_TILES_J C) (PE_TILES_K C) a_spad_addr_start b_spad_addr_end 0 False skips_mvin]
         else
           Config_ld dim_k 0 # mvin_a P S C dim_k a_spad_addr_start
           @ Config_ld (dim_n div VALUES_PER_BYTE C) 0 # mvin_b P S C dim_n b_spad_addr_end)"

section \<open>Move-out\<close>

text \<open>The words one thread of a block copies: a uniform stride through \<open>units\<close> words.\<close>

definition simt_indices :: "nat \<Rightarrow> nat \<Rightarrow> nat \<Rightarrow> nat list" where
  "simt_indices units threads tid = map (\<lambda>i. threads * i + tid) [0..<units div threads]"

definition copy_smem_to_gmem_simt :: "u32 \<Rightarrow> u32 \<Rightarrow> u32 \<Rightarrow> u32 \<Rightarrow> u32 \<Rightarrow> nat \<Rightarrow> nat \<Rightarrow> call list" where
  "copy_smem_to_gmem_simt dim_row dim_col elem_size src dest tid threads =
     map (\<lambda>i. Copy_word Gmem (dest + 4 * of_nat i) Smem (src + 4 * of_nat i))
       (simt_indices (unat (dim_row * dim_col * elem_size div 4)) threads tid)"

definition copy_gmem_to_smem_simt_bf16 :: "u32 \<Rightarrow> u32 \<Rightarrow> u32 \<Rightarrow> u32 \<Rightarrow> u32 \<Rightarrow> nat \<Rightarrow> nat \<Rightarrow> call list" where
  "copy_gmem_to_smem_simt_bf16 dim_row dim_col elem_size src dest tid threads =
     map (\<lambda>i. Copy_half Smem (dest + 2 * of_nat i) Gmem (src + 2 * of_nat i))
       (simt_indices (unat (dim_row * dim_col * elem_size div 2)) threads tid)"

definition copy_gmem_to_gmem_simt :: "u32 \<Rightarrow> u32 \<Rightarrow> u32 \<Rightarrow> u32 \<Rightarrow> u32 \<Rightarrow> nat \<Rightarrow> nat \<Rightarrow> call list" where
  "copy_gmem_to_gmem_simt dim_row dim_col elem_size src dest tid threads =
     map (\<lambda>i. Copy_word Gmem (dest + 4 * of_nat i) Gmem (src + 4 * of_nat i))
       (simt_indices (unat (dim_row * dim_col * elem_size div 4)) threads tid)"

definition copy_C_smem_to_gmem_dma_sync :: "params \<Rightarrow> gemm_config \<Rightarrow> u32 \<Rightarrow> u32 \<Rightarrow> u32 \<Rightarrow> nat \<Rightarrow> call list" where
  "copy_C_smem_to_gmem_dma_sync P C src_spad_addr dest dim_n tid =
     (if tid = 0 then
        concat (map (\<lambda>i. map (\<lambda>j.
            Mvout (rad_device_to_host_address
                (dest + (of_nat i * 2 * p_dim P * dim_n + of_nat j * p_dim P) * OUT_ELEM_SIZE C))
              (src_spad_addr + (of_nat i * 2 * PE_TILES_J C + of_nat j) * p_dim P))
          [0..<2 * unat (PE_TILES_J C)]) [0..<unat (PE_TILES_I C)])
        @ [Gemmini_fence]
      else [])"

definition copy_accmem_to_gmem_dma_sync :: "params \<Rightarrow> gemm_config \<Rightarrow> u32 \<Rightarrow> u32 \<Rightarrow> nat \<Rightarrow> call list" where
  "copy_accmem_to_gmem_dma_sync P C dest dim_n tid =
     (if tid = 0 then
        (let ELEMS_PER_ACC_ROW = 4 * p_dim P;
             RBLK = TILE_M_QUANT C div p_dim P;
             CBLK = TILE_N_QUANT C div ELEMS_PER_ACC_ROW;
             GEMMINI_ACC_ADDR = push_bit (p_addr_len P - 1) 1
         in concat (map (\<lambda>i. map (\<lambda>j.
            Mvout (rad_device_to_host_address
                (dest + (of_nat i * p_dim P * dim_n + of_nat j * ELEMS_PER_ACC_ROW) * OUT_ELEM_SIZE C))
              (GEMMINI_ACC_ADDR + (of_nat i * CBLK + of_nat j) * p_dim P))
          [0..<unat CBLK]) [0..<unat RBLK]))
        @ [Gemmini_fence]
      else [])"

section \<open>The K loop\<close>

definition matmul_tile_async :: "params \<Rightarrow> gemm_config \<Rightarrow> u32 \<Rightarrow> bool \<Rightarrow> call list" where
  "matmul_tile_async P C tile_k acc_move_out =
     (let skip_stc = (if acc_move_out then 0 else 1);
          skips_compute = loop_matmul_skips 1 1 1 0 skip_stc;
          first_k = (tile_k = 0)
      in [Loop_ws_spad (PE_TILES_I C) (PE_TILES_J C) (PE_TILES_K C)
            (calculate_spad_addr P False tile_k) (calculate_spad_addr P True tile_k)
            (SPAD_DEST P C) (\<not> first_k) skips_compute])"

definition load_tile_scales :: "symbols \<Rightarrow> gemm_config \<Rightarrow> u32 \<Rightarrow> u32 \<Rightarrow> u32 \<Rightarrow> call list" where
  "load_tile_scales S C dim_m dim_n tile_k =
     load_scale_factors (calculate_scale_factor_smem_addr False tile_k)
       (calculate_scale_factor_gmem_addr C False (A_scales_row S) tile_k dim_m dim_n) (SCALE_FACTORS_PER_TILE_A C)
     @ load_scale_factors (calculate_scale_factor_smem_addr True tile_k)
       (calculate_scale_factor_gmem_addr C True (B_scales_col S) tile_k dim_m dim_n) (SCALE_FACTORS_PER_TILE_B C)"

definition k_iteration :: "params \<Rightarrow> symbols \<Rightarrow> gemm_config \<Rightarrow> bool \<Rightarrow> u32 \<Rightarrow> u32 \<Rightarrow> u32 \<Rightarrow> u32 \<Rightarrow> u32 \<Rightarrow> call list" where
  "k_iteration P S C barrier_tile warps dim_m dim_n dim_k tile_k =
     (let odd_k = tile_k AND 1;
          last_k = (tile_k + 1) * TILE_K C \<ge> dim_k
      in [mxquant_config S C odd_k]
         @ (if \<not> DISABLE_MOVE_IN_AFTER_FIRST_K \<and> \<not> last_k
            then copy_gmem_to_smem_async P S C dim_n dim_k (tile_k + 1) else [])
         @ matmul_tile_async P C tile_k (last_k \<and> \<not> ACC_TO_GMEM C)
         @ (if \<not> DISABLE_SCALE_FACTOR_UPDATE
            then load_tile_scales S C dim_m dim_n (tile_k + 1) @ [Smem_fence] else [])
         @ [Gemmini_fence]
         @ (if barrier_tile then [Barrier 2 warps] else []))"

text \<open>
  The loop is driven by \<open>fuel\<close>, \<^const>\<open>None\<close> when it runs out; \<open>dim_k\<close> is always enough
  (lemma \<open>k_loop_terminates\<close>).
\<close>

fun k_loop :: "nat \<Rightarrow> params \<Rightarrow> symbols \<Rightarrow> gemm_config \<Rightarrow> bool \<Rightarrow> u32 \<Rightarrow> u32 \<Rightarrow> u32 \<Rightarrow> u32 \<Rightarrow> u32 \<Rightarrow> call list option" where
  "k_loop 0 P S C bt warps dim_m dim_n dim_k tile_k = (if tile_k * TILE_K C < dim_k then None else Some [])"
| "k_loop (Suc fuel) P S C bt warps dim_m dim_n dim_k tile_k =
     (if tile_k * TILE_K C < dim_k then do {
        rest \<leftarrow> k_loop fuel P S C bt warps dim_m dim_n dim_k (tile_k + 1);
        Some (k_iteration P S C bt warps dim_m dim_n dim_k tile_k @ rest) }
      else Some [])"

definition prologue :: "params \<Rightarrow> symbols \<Rightarrow> gemm_config \<Rightarrow> bool \<Rightarrow> u32 \<Rightarrow> u32 \<Rightarrow> u32 \<Rightarrow> u32 \<Rightarrow> call list" where
  "prologue P S C barrier_tile warps dim_m dim_n dim_k =
     configure_mxgemmini S C dim_m dim_n dim_k
     @ copy_gmem_to_smem_async P S C dim_n dim_k 0
     @ load_tile_scales S C dim_m dim_n 0
     @ load_lut S C
     @ [Smem_fence, Gemmini_fence]
     @ (if barrier_tile then [Barrier 2 warps] else [])"

definition mxgemm_single_output_tile ::
  "params \<Rightarrow> symbols \<Rightarrow> gemm_config \<Rightarrow> bool \<Rightarrow> u32 \<Rightarrow> u32 \<Rightarrow> u32 \<Rightarrow> nat \<Rightarrow> nat \<Rightarrow> call list option" where
  "mxgemm_single_output_tile P S C barrier_tile dim_m dim_n dim_k tid threads =
     (let warps = of_nat (threads div nat MU_NUM_THREADS)
      in if tid \<noteq> 0 then Some []
         else do {
           body \<leftarrow> k_loop (unat dim_k) P S C barrier_tile warps dim_m dim_n dim_k 0;
           Some (prologue P S C barrier_tile warps dim_m dim_n dim_k @ body @ [Gemmini_fence]) })"

definition move_out :: "params \<Rightarrow> gemm_config \<Rightarrow> u32 \<Rightarrow> u32 \<Rightarrow> nat \<Rightarrow> nat \<Rightarrow> call list" where
  "move_out P C dim_n C_gmem tid threads =
     (let warps = of_nat (threads div nat MU_NUM_THREADS);
          trace = copy_gmem_to_gmem_simt (TILE_M_QUANT C) (TILE_N_QUANT C) (OUT_ELEM_SIZE C) C_gmem 0x60000000 tid threads
      in if ACC_TO_GMEM C then
           (if \<not> DISABLE_GMEM_MOVE_OUT then
              copy_accmem_to_gmem_dma_sync P C C_gmem dim_n tid @ [Barrier 2 warps] @ trace
            else [])
         else if \<not> DISABLE_GMEM_MOVE_OUT then
           (if SIMT_GMEM_MOVE_OUT then
              copy_smem_to_gmem_simt (TILE_M_QUANT C) (TILE_N_QUANT C) (OUT_ELEM_SIZE C)
                (SPAD_DEST P C * p_dim P) C_gmem tid threads
            else copy_C_smem_to_gmem_dma_sync P C (SPAD_DEST P C) C_gmem dim_n tid @ [Barrier 2 warps] @ trace)
         else [])"

definition mxgemm :: "params \<Rightarrow> symbols \<Rightarrow> gemm_config \<Rightarrow> u32 \<Rightarrow> u32 \<Rightarrow> u32 \<Rightarrow> u32 \<Rightarrow> nat \<Rightarrow> nat \<Rightarrow> call list option" where
  "mxgemm P S C dim_m dim_n dim_k C_gmem tid threads = do {
     tile \<leftarrow> mxgemm_single_output_tile P S C False dim_m dim_n dim_k tid threads;
     Some (tile @ [Barrier 1 (of_nat (threads div nat MU_NUM_THREADS)), Smem_fence]
       @ move_out P C dim_n C_gmem tid threads) }"

end
