(* ===== verification/Mxgemm_Spad.thy ===== *)
theory Mxgemm_Spad
  imports Mxgemm
begin

text \<open>
  The placement of the result tile in the scratchpad (\<open>GemmConfig::SPAD_DEST\<close> of
  \<open>src/lib/mxgemm/mxgemm_lib.hpp\<close>), the scale-factor copy, and the SIMT move-out.
\<close>

section \<open>Rows of the scratchpad\<close>

text \<open>Half-open ranges of rows.\<close>

definition overlap :: "nat \<times> nat \<Rightarrow> nat \<times> nat \<Rightarrow> bool" where
  "overlap r s \<longleftrightarrow> max (fst r) (fst s) < min (snd r) (snd s)"

definition hits :: "nat \<times> nat \<Rightarrow> (nat \<times> nat) list \<Rightarrow> bool" where
  "hits r rs \<longleftrightarrow> list_ex (overlap r) rs"

lemma overlap_sym: "overlap r s = overlap s r"
  by (simp add: overlap_def max.commute min.commute)

text \<open>The four operand buffers of a scratchpad of \<open>4 * q\<close> rows: \<open>a\<close> rows for A, \<open>b\<close> for B, twice.\<close>

definition operand_buffers :: "nat \<Rightarrow> nat \<Rightarrow> nat \<Rightarrow> (nat \<times> nat) list" where
  "operand_buffers q a b = [(0, a), (q, q + a), (3 * q - b, 3 * q), (4 * q - b, 4 * q)]"

definition place_ok :: "nat \<Rightarrow> nat \<Rightarrow> nat \<Rightarrow> nat \<Rightarrow> nat \<Rightarrow> bool" where
  "place_ok q a b c d \<longleftrightarrow> d + c \<le> 4 * q \<and> \<not> hits (d, d + c) (operand_buffers q a b)"

section \<open>SPAD_DEST\<close>

lemma spad_dest_nat:
  assumes S: "unat S = 4 * q" and A: "unat A \<le> q" and B: "unat B \<le> q"
  shows "unat (spad_dest S A B C) =
    (if unat C \<le> q - unat A then unat A
     else if q + unat A \<le> 3 * q - unat B \<and> unat C \<le> 3 * q - unat B - (q + unat A) then q + unat A
     else if unat C \<le> q - unat B then 3 * q else 0)"
proof -
  have "unat S < 2 ^ LENGTH(32)" by (rule unsigned_less)
  then have S2: "4 * q < 2 ^ 32" using S by simp
  have Q: "unat (S div 4) = q" by (simp add: unat_div S)
  have SQ: "unat (S - S div 4) = 3 * q"
    using unat_sub [of "S div 4" S] by (simp add: word_le_nat_alt Q S)
  have odd: "unat (S - S div 4 - B) = 3 * q - unat B"
    using unat_sub [of B "S - S div 4"] B by (simp add: word_le_nat_alt SQ)
  have even: "unat (S - B) = 4 * q - unat B"
    using unat_sub [of B S] B by (simp add: word_le_nat_alt S)
  have QA: "unat (S div 4 + A) = q + unat A"
    by (rule unat_add_exact) (use S2 A in \<open>simp_all add: Q\<close>)
  have g1: "A \<le> S div 4 \<and> C \<le> S div 4 - A \<longleftrightarrow> unat C \<le> q - unat A"
    using A unat_sub [of A "S div 4"] by (auto simp: word_le_nat_alt Q)
  have g2: "S div 4 + A \<le> S - S div 4 - B \<and> C \<le> S - S div 4 - B - (S div 4 + A)
      \<longleftrightarrow> q + unat A \<le> 3 * q - unat B \<and> unat C \<le> 3 * q - unat B - (q + unat A)"
    using unat_sub [of "S div 4 + A" "S - S div 4 - B"] by (auto simp: word_le_nat_alt QA odd)
  have g3: "S - S div 4 \<le> S - B \<and> C \<le> S - B - (S - S div 4) \<longleftrightarrow> unat C \<le> q - unat B"
    using unat_sub [of "S - S div 4" "S - B"] B by (auto simp: word_le_nat_alt SQ even)
  show ?thesis
    unfolding spad_dest_def Let_def g1 g2 g3 by (simp add: QA SQ)
qed

lemma spad_dest_place:
  assumes S: "unat S = 4 * q" and A: "0 < unat A" "unat A \<le> q" and B: "0 < unat B" "unat B \<le> q" and C: "0 < unat C"
  shows "if spad_dest S A B C \<noteq> 0 then place_ok q (unat A) (unat B) (unat C) (unat (spad_dest S A B C))
    else \<not> (\<exists>d. place_ok q (unat A) (unat B) (unat C) d)"
proof -
  define a b c where "a = unat A" and "b = unat B" and "c = unat C"
  have bounds: "0 < a" "a \<le> q" "0 < b" "b \<le> q" "0 < c" using A B C by (simp_all add: a_def b_def c_def)
  have d: "unat (spad_dest S A B C) = (if c \<le> q - a then a
     else if q + a \<le> 3 * q - b \<and> c \<le> 3 * q - b - (q + a) then q + a
     else if c \<le> q - b then 3 * q else 0)"
    using spad_dest_nat [OF S A(2) B(2)] by (simp add: a_def b_def c_def)
  have z: "(spad_dest S A B C \<noteq> 0) = (unat (spad_dest S A B C) \<noteq> 0)" by (simp add: unat_eq_zero)
  show ?thesis
  proof (cases "unat (spad_dest S A B C) = 0")
    case False
    then have "place_ok q a b c (unat (spad_dest S A B C))"
      using bounds unfolding d place_ok_def hits_def operand_buffers_def overlap_def
      by (auto split: if_splits)
    then show ?thesis using False by (simp add: z a_def b_def c_def)
  next
    case True
    then have n: "\<not> c \<le> q - a" "\<not> (q + a \<le> 3 * q - b \<and> c \<le> 3 * q - b - (q + a))" "\<not> c \<le> q - b"
      using bounds unfolding d by (auto split: if_splits)
    have "\<not> place_ok q a b c e" for e
    proof
      assume "place_ok q a b c e"
      then have e: "e + c \<le> 4 * q" "\<not> overlap (e, e + c) (0, a)" "\<not> overlap (e, e + c) (q, q + a)"
        "\<not> overlap (e, e + c) (3 * q - b, 3 * q)" "\<not> overlap (e, e + c) (4 * q - b, 4 * q)"
        by (auto simp: place_ok_def hits_def operand_buffers_def)
      show False using e n bounds unfolding overlap_def by (auto simp: max_def min_def split: if_splits)
    qed
    then show ?thesis using True by (simp add: z a_def b_def c_def)
  qed
qed

text \<open>The geometry of the part: 8192 rows of 16 bytes.\<close>

definition tapeout :: params where
  "tapeout = \<lparr>p_dim = 16, p_bank_num = 4, p_bank_rows = 2048, p_addr_len = 32, p_acc_rows = 1024\<rparr>"

definition square64 :: gemm_config where
  "square64 = \<lparr>TILE_M = 64, TILE_N = 64, TILE_K = 64, DATATYPE = FP8, QUANT_OUTPUT = False, ACC_TO_GMEM = False\<rparr>"

text \<open>C28: When each operand tile fits its quarter of the scratchpad, the computed place of the
  result is inside the scratchpad and disjoint from all four operand buffers; it is 0, which the
  static assertion rejects, exactly when there is no such place at all.\<close>

theorem spad_dest_correct:
  assumes "unat (SMEM_ROWS P) = 4 * q"
    and "0 < unat (A_SPAD_ROWS P C)" "unat (A_SPAD_ROWS P C) \<le> q"
    and "0 < unat (B_SPAD_ROWS P C)" "unat (B_SPAD_ROWS P C) \<le> q"
    and "0 < unat (C_SPAD_ROWS P C)"
  shows "if C_FITS_IN_SPAD P C
    then place_ok q (unat (A_SPAD_ROWS P C)) (unat (B_SPAD_ROWS P C)) (unat (C_SPAD_ROWS P C)) (unat (SPAD_DEST P C))
    else \<not> (\<exists>d. place_ok q (unat (A_SPAD_ROWS P C)) (unat (B_SPAD_ROWS P C)) (unat (C_SPAD_ROWS P C)) d)"
  unfolding C_FITS_IN_SPAD_def SPAD_DEST_def using assms by (rule spad_dest_place)

theorem spad_dest_correct_witness:
  "place_ok 2048 256 256 512 256 \<and> SPAD_DEST tapeout square64 = 256"
proof -
  have v: "unat (SMEM_ROWS tapeout) = 4 * 2048" "unat (A_SPAD_ROWS tapeout square64) = 256"
    "unat (B_SPAD_ROWS tapeout square64) = 256" "unat (C_SPAD_ROWS tapeout square64) = 512"
    "SPAD_DEST tapeout square64 = 256" "C_FITS_IN_SPAD tapeout square64"
    by code_simp+
  show ?thesis
    using spad_dest_correct [of tapeout 2048 square64] v by simp
qed

text \<open>The static assertions accept a configuration whose operand buffers overlap: with tiles of
  128 by 32 by 512 in fp8 the A tile takes 4096 rows, twice its quarter, so the even buffer of A
  covers the odd one, and a place for the result is still found.\<close>

theorem spad_dest_accepts_overlap:
  "\<exists>C. geometry_ok tapeout \<and> tile_asserts C \<and> C_FITS_IN_SPAD tapeout C
    \<and> overlap (unat (calculate_spad_addr tapeout False 0), unat (calculate_spad_addr tapeout False 0 + A_SPAD_ROWS tapeout C))
              (unat (calculate_spad_addr tapeout False 1), unat (calculate_spad_addr tapeout False 1 + A_SPAD_ROWS tapeout C))"
proof (intro exI [of _ "\<lparr>TILE_M = 128, TILE_N = 32, TILE_K = 512, DATATYPE = FP8, QUANT_OUTPUT = False, ACC_TO_GMEM = False\<rparr>"] conjI)
qed (code_simp+)

section \<open>The copy of the scale factors\<close>

definition sf_copies :: "u32 \<Rightarrow> u32 \<Rightarrow> nat \<Rightarrow> call list" where
  "sf_copies dst src words = map (\<lambda>i. Copy_word Smem (dst + 4 * of_nat i) Gmem (src + 4 * of_nat i)) [0..<words]"

lemma sf_rest_eq:
  "i \<le> words \<Longrightarrow> sf_rest dst src words i
    = map (\<lambda>i. Copy_word Smem (dst + 4 * of_nat i) Gmem (src + 4 * of_nat i)) [i..<words]"
proof (induction dst src words i rule: sf_rest.induct)
  case (1 dst src words i)
  then show ?case
    by (subst sf_rest.simps) (auto simp: upt_conv_Cons sf_load_def MXGEMM_SF_PIN_LOADS_def)
qed

lemma sf_body_eq:
  "i \<le> words \<Longrightarrow> sf_body dst src words i
    = map (\<lambda>i. Copy_word Smem (dst + 4 * of_nat i) Gmem (src + 4 * of_nat i)) [i..<words]"
proof (induction dst src words i rule: sf_body.induct)
  case (1 dst src words i)
  show ?case
  proof (cases "i + MXGEMM_SF_ILP \<le> words")
    case True
    have "[i..<words] = [i..<i + MXGEMM_SF_ILP] @ [i + MXGEMM_SF_ILP..<words]"
      using True upt_add_eq_append [of i "i + MXGEMM_SF_ILP" "words - (i + MXGEMM_SF_ILP)"] by simp
    also have "[i..<i + MXGEMM_SF_ILP] = map (\<lambda>j. i + j) [0..<MXGEMM_SF_ILP]"
      using map_add_upt [of i MXGEMM_SF_ILP] by (simp add: add.commute)
    finally have "[i..<words] = map (\<lambda>j. i + j) [0..<MXGEMM_SF_ILP] @ [i + MXGEMM_SF_ILP..<words]" .
    then show ?thesis
      using True 1 by (subst sf_body.simps) (simp add: sf_load_def MXGEMM_SF_PIN_LOADS_def comp_def del: upt_rec_numeral)
  next
    case False
    then show ?thesis using 1 by (subst sf_body.simps) (simp add: sf_rest_eq)
  qed
qed

lemma load_scale_factors_eq: "load_scale_factors dst src n = sf_copies dst src (unat n div 4)"
  by (simp add: load_scale_factors_def sf_body_eq sf_copies_def)

text \<open>The scale-factor copy, unrolled by 16 with a remainder loop, copies every word of its
  source exactly once and in order, for any number of bytes.\<close>

theorem load_scale_factors_copies:
  "load_scale_factors dst src n
    = map (\<lambda>i. Copy_word Smem (dst + 4 * of_nat i) Gmem (src + 4 * of_nat i)) [0..<unat n div 4]"
  by (simp add: load_scale_factors_eq sf_copies_def)

section \<open>The SIMT move-out\<close>

lemma simt_distinct:
  assumes "distinct ts" "\<And>t. t \<in> set ts \<Longrightarrow> t < threads"
  shows "distinct (concat (map (simt_indices units threads) ts))"
  using assms
proof (induction ts)
  case (Cons t ts)
  have "set (simt_indices units threads t) \<inter> set (concat (map (simt_indices units threads) ts)) = {}"
  proof (rule ccontr)
    assume "\<not> ?thesis"
    then obtain i j u where u: "u \<in> set ts" and eq: "threads * i + t = threads * j + u"
      by (auto simp: simt_indices_def)
    have "(threads * i + t) mod threads = (threads * j + u) mod threads" by (simp only: eq)
    then have "t = u" using Cons.prems(2) u by simp
    then show False using Cons.prems(1) u by simp
  qed
  moreover have "distinct (simt_indices units threads t)"
    using Cons.prems(2) [of t] by (auto simp: simt_indices_def distinct_map inj_on_def)
  ultimately show ?case using Cons by simp
qed simp

lemma simt_set:
  "set (concat (map (simt_indices units threads) [0..<threads])) = {0..<units div threads * threads}"
proof
  show "set (concat (map (simt_indices units threads) [0..<threads])) \<subseteq> {0..<units div threads * threads}"
  proof
    fix x assume "x \<in> set (concat (map (simt_indices units threads) [0..<threads]))"
    then obtain i t where "x = threads * i + t" "t < threads" "i < units div threads"
      by (auto simp: simt_indices_def)
    moreover from this have "threads * i + t < threads * Suc i" "threads * Suc i \<le> threads * (units div threads)"
      by (simp, intro mult_le_mono2) simp
    ultimately show "x \<in> {0..<units div threads * threads}" by (simp add: mult.commute)
  qed
  show "{0..<units div threads * threads} \<subseteq> set (concat (map (simt_indices units threads) [0..<threads]))"
  proof
    fix x assume x: "x \<in> {0..<units div threads * threads}"
    then have "0 < threads" by (cases threads) auto
    then have "x div threads < units div threads" "x mod threads < threads" "x = threads * (x div threads) + x mod threads"
      using x by (simp_all add: div_less_iff_less_mult)
    then have "x mod threads \<in> set [0..<threads]" "x \<in> set (simt_indices units threads (x mod threads))"
      by (auto simp: simt_indices_def intro: image_eqI [where x = "x div threads"])
    then show "x \<in> set (concat (map (simt_indices units threads) [0..<threads]))"
      unfolding set_concat set_map by blast
  qed
qed

lemma simt_mset:
  "mset (concat (map (simt_indices units threads) [0..<threads])) = mset [0..<units div threads * threads]"
proof (rule set_eq_iff_mset_eq_distinct [THEN iffD1])
  show "distinct (concat (map (simt_indices units threads) [0..<threads]))"
    using simt_distinct [of "[0..<threads]" threads units] by simp
  show "set (concat (map (simt_indices units threads) [0..<threads])) = set [0..<units div threads * threads]"
    using simt_set [of units threads] by simp
qed simp

text \<open>The threads of a block together copy each word of the result tile from the scratchpad to
  memory exactly once when their number divides the number of words; in general they copy the
  words below the largest multiple of their number and leave out the rest.\<close>

theorem smem_to_gmem_covers:
  "mset (concat (map (\<lambda>tid. copy_smem_to_gmem_simt dim_row dim_col elem_size src dest tid threads) [0..<threads]))
    = mset (map (\<lambda>i. Copy_word Gmem (dest + 4 * of_nat i) Smem (src + 4 * of_nat i))
        [0..<unat (dim_row * dim_col * elem_size div 4) div threads * threads])"
proof -
  let ?w = "\<lambda>i. Copy_word Gmem (dest + 4 * of_nat i) Smem (src + 4 * of_nat i)"
  let ?n = "unat (dim_row * dim_col * elem_size div 4)"
  have "concat (map (\<lambda>tid. copy_smem_to_gmem_simt dim_row dim_col elem_size src dest tid threads) [0..<threads])
      = map ?w (concat (map (simt_indices ?n threads) [0..<threads]))"
    by (simp add: copy_smem_to_gmem_simt_def map_concat comp_def)
  then show ?thesis using simt_mset [of ?n threads] by (simp only: mset_map)
qed

end
