(* ===== verification/Mxgemm_Monitor.thy ===== *)
theory Mxgemm_Monitor
  imports Mxgemm_Spad
begin

text \<open>
  What the accelerator promises of a sequence of calls, as a monitor of the calls that the K loop
  of \<open>src/lib/mxgemm/mxgemm_lib.hpp\<close> makes.  A call starts work that runs until the next
  \<open>Gemmini_fence\<close>; two pieces of work in flight must not touch the same rows of the
  scratchpad unless both read them, the scale factors the mesh is reading must not be written, and
  scale factors must be fenced before a computation reads them.  A violation is \<^const>\<open>None\<close>.
  The monitor also keeps what each buffer holds, so that its log says which operand tiles and
  which scale factors each computation used.
\<close>

section \<open>The state\<close>

record compute =
  c_a :: u64
  c_b :: u64
  c_toggles :: "u32 \<times> u32"
  c_scales :: "u32 \<Rightarrow> u32 option"
  c_accumulate :: bool
  c_store :: "u32 option"

record mesh =
  pending :: "(u64 \<times> u64) option"
  held :: "nat \<times> nat \<Rightarrow> u64 option"
  reading :: "(nat \<times> nat) list"
  writing :: "(nat \<times> nat) list"
  toggles :: "u32 \<times> u32"
  busy :: "(u32 \<times> u32) option"
  unfenced :: bool
  scales :: "u32 \<Rightarrow> u32 option"
  computes :: "compute list"

definition mesh_init :: mesh where
  "mesh_init = \<lparr>pending = None, held = (\<lambda>_. None), reading = [], writing = [], toggles = (0, 0), busy = None,
     unfenced = False, scales = (\<lambda>_. None), computes = []\<rparr>"

definition quiet :: "mesh \<Rightarrow> bool" where
  "quiet s \<longleftrightarrow> reading s = [] \<and> writing s = [] \<and> busy s = None \<and> \<not> unfenced s"

section \<open>Operand and result transfers\<close>

text \<open>The rows that a tile at an address takes; B grows down from its end address.\<close>

definition a_rows :: "params \<Rightarrow> gemm_config \<Rightarrow> u32 \<Rightarrow> nat \<times> nat" where
  "a_rows P C a = (unat a, unat a + unat (A_SPAD_ROWS P C))"

definition b_rows :: "params \<Rightarrow> gemm_config \<Rightarrow> u32 \<Rightarrow> nat \<times> nat" where
  "b_rows P C b = (unat b - unat (B_SPAD_ROWS P C), unat b)"

definition c_rows :: "params \<Rightarrow> gemm_config \<Rightarrow> u32 \<Rightarrow> nat \<times> nat" where
  "c_rows P C c = (unat c, unat c + unat (C_SPAD_ROWS P C))"

text \<open>A write forgets the tiles it overlaps.\<close>

definition clobber :: "nat \<times> nat \<Rightarrow> (nat \<times> nat \<Rightarrow> u64 option) \<Rightarrow> nat \<times> nat \<Rightarrow> u64 option" where
  "clobber r h = (\<lambda>t. if overlap t r then None else h t)"

definition move_in :: "nat \<times> nat \<Rightarrow> u64 \<Rightarrow> mesh \<Rightarrow> mesh option" where
  "move_in r src s =
     (if hits r (reading s) \<or> hits r (writing s) then None
      else Some (s\<lparr>writing := r # writing s, held := (clobber r (held s))(r := Some src)\<rparr>))"

definition start_compute :: "nat \<times> nat \<Rightarrow> nat \<times> nat \<Rightarrow> bool \<Rightarrow> u32 option \<Rightarrow> mesh \<Rightarrow> mesh option" where
  "start_compute ra rb acc dest s =
     (if hits ra (writing s) \<or> hits rb (writing s) \<or> unfenced s then None
      else do {
        a \<leftarrow> held s ra;
        b \<leftarrow> held s rb;
        Some (s\<lparr>reading := ra # rb # reading s, busy := Some (toggles s),
          computes := computes s @ [\<lparr>c_a = a, c_b = b, c_toggles = toggles s, c_scales = scales s,
            c_accumulate = acc, c_store = dest\<rparr>]\<rparr>) })"

definition store_result :: "nat \<times> nat \<Rightarrow> mesh \<Rightarrow> mesh option" where
  "store_result r s =
     (if hits r (reading s) \<or> hits r (writing s) then None
      else Some (s\<lparr>writing := r # writing s, held := clobber r (held s)\<rparr>))"

text \<open>
  One command of the loop unroller: bits 3 to 7 of \<open>skips\<close> turn off the loads of A, B and D, the
  computation and the store.
\<close>

definition issue_loop :: "params \<Rightarrow> gemm_config \<Rightarrow> u32 \<Rightarrow> u32 \<Rightarrow> u32 \<Rightarrow> bool \<Rightarrow> u32 \<Rightarrow> mesh \<Rightarrow> mesh option" where
  "issue_loop P C a b c acc skips s0 = do {
     s1 \<leftarrow> (if bit skips 3 then Some s0
            else do { (srca, srcb) \<leftarrow> pending s0; move_in (a_rows P C a) srca s0 });
     s2 \<leftarrow> (if bit skips 4 then Some s1
            else do { (srca, srcb) \<leftarrow> pending s1; move_in (b_rows P C b) srcb s1 });
     s3 \<leftarrow> (if bit skips 6 then Some s2
            else start_compute (a_rows P C a) (b_rows P C b) acc (if bit skips 7 then None else Some c) s2);
     if bit skips 7 then Some s3 else store_result (c_rows P C c) s3 }"

section \<open>Scale factors\<close>

definition sf_offset :: "u32 \<Rightarrow> u32" where
  "sf_offset toggle = (if toggle \<noteq> 0 then GEMMINI_SF_MEM_BUFFER_OFFSET else 0)"

definition in_buffer :: "u32 \<Rightarrow> u32 \<Rightarrow> bool" where
  "in_buffer base d \<longleftrightarrow> base \<le> d \<and> d < base + GEMMINI_SF_MEM_BUFFER_OFFSET"

text \<open>Whether the mesh is reading the buffer an address is in.\<close>

definition sf_conflict :: "u32 \<Rightarrow> (u32 \<times> u32) option \<Rightarrow> bool" where
  "sf_conflict d b = (case b of None \<Rightarrow> False
     | Some (ta, tb) \<Rightarrow> in_buffer (GEMMINI_SF_MEM_A + sf_offset ta) d \<or> in_buffer (GEMMINI_SF_MEM_B + sf_offset tb) d)"

definition store_scale :: "u32 \<Rightarrow> u32 \<Rightarrow> mesh \<Rightarrow> mesh option" where
  "store_scale d src s =
     (if sf_conflict d (busy s) then None
      else Some (s\<lparr>unfenced := True, scales := (scales s)(d := Some src)\<rparr>))"

section \<open>The monitor\<close>

fun issue :: "params \<Rightarrow> gemm_config \<Rightarrow> call \<Rightarrow> mesh \<Rightarrow> mesh option" where
  "issue P C Gemmini_fence s = Some (s\<lparr>reading := [], writing := [], busy := None\<rparr>)"
| "issue P C Smem_fence s = Some (s\<lparr>unfenced := False\<rparr>)"
| "issue P C (Rocc a b CONFIG_ADDRS_AB) s = Some (s\<lparr>pending := Some (a, b)\<rparr>)"
| "issue P C (Mxquant_config_mvout addr i j k ta tb g) s =
     (if busy s = None then Some (s\<lparr>toggles := (ta, tb)\<rparr>) else None)"
| "issue P C (Loop_ws_spad i j k a b c acc skips) s = issue_loop P C a b c acc skips s"
| "issue P C (Copy_word Smem d Gmem src) s = store_scale d src s"
| "issue P C (Copy_word Gmem d Smem src) s = (if writing s = [] \<and> \<not> unfenced s then Some s else None)"
| "issue P C (Store_lut d v) s = (if busy s = None then Some (s\<lparr>unfenced := True\<rparr>) else None)"
| "issue P C (Mvin src d r c) s = None"
| "issue P C (Mvout d src) s = (if busy s = None \<and> writing s = [] then Some s else None)"
| "issue P C c s = Some s"

definition run_calls :: "params \<Rightarrow> gemm_config \<Rightarrow> call list \<Rightarrow> mesh \<Rightarrow> mesh option" where
  "run_calls P C = foldM (issue P C)"

lemma run_calls_Nil [simp]: "run_calls P C [] s = Some s"
  by (simp add: run_calls_def)

lemma run_calls_Cons [simp]: "run_calls P C (c # cs) s = do { s' \<leftarrow> issue P C c s; run_calls P C cs s' }"
  by (simp add: run_calls_def)

lemma run_calls_append: "run_calls P C (xs @ ys) s = do { s' \<leftarrow> run_calls P C xs s; run_calls P C ys s' }"
  by (simp add: run_calls_def foldM_append)

end
