(* ===== verification/Mxgemm_Pipeline.thy ===== *)
theory Mxgemm_Pipeline
  imports Mxgemm_Monitor
begin

text \<open>
  The software pipeline of \<open>mxgemm\<close> (\<open>src/lib/mxgemm/mxgemm_lib.hpp\<close>): the K loop ends, its
  calls are free of hazards for every \<open>dim_k\<close>, and the computations use the operand tiles and the
  scale factors of their own K tile.
\<close>

section \<open>The tiles of a K loop\<close>

definition k_tiles :: "gemm_config \<Rightarrow> u32 \<Rightarrow> nat" where
  "k_tiles C dim_k = (unat dim_k + unat (TILE_K C) - 1) div unat (TILE_K C)"

lemma k_tiles_iff:
  assumes "0 < unat (TILE_K C)"
  shows "k < k_tiles C dim_k \<longleftrightarrow> k * unat (TILE_K C) < unat dim_k"
proof -
  have "k < k_tiles C dim_k \<longleftrightarrow> Suc k * unat (TILE_K C) \<le> unat dim_k + unat (TILE_K C) - 1"
    using assms unfolding k_tiles_def by (metis Suc_le_eq less_eq_div_iff_mult_less_eq)
  also have "\<dots> \<longleftrightarrow> k * unat (TILE_K C) < unat dim_k" using assms by auto
  finally show ?thesis .
qed

lemma k_tiles_le: "0 < unat (TILE_K C) \<Longrightarrow> k_tiles C dim_k \<le> unat dim_k"
  using k_tiles_iff [of C "unat dim_k" dim_k] by (metis mult_le_mono2 nat_mult_1_right not_le Suc_leI One_nat_def)

lemma tile_in_range:
  assumes "0 < unat (TILE_K C)" "unat dim_k + unat (TILE_K C) < 2 ^ 32" "k \<le> k_tiles C dim_k"
  shows "of_nat k * TILE_K C < dim_k \<longleftrightarrow> k < k_tiles C dim_k"
proof -
  have b: "k * unat (TILE_K C) < 2 ^ 32"
  proof (cases k)
    case (Suc j)
    then have "j * unat (TILE_K C) < unat dim_k" using assms k_tiles_iff [of C j dim_k] by simp
    then show ?thesis using assms(2) Suc by simp
  qed simp
  have "unat (of_nat k * TILE_K C) = k * unat (TILE_K C)"
    using b unat_of_nat_exact [of "k * unat (TILE_K C)"] by simp
  then show ?thesis using k_tiles_iff [OF assms(1)] by (simp add: word_less_nat_alt)
qed

lemma k_loop_unroll:
  assumes "0 < unat (TILE_K C)" "unat dim_k + unat (TILE_K C) < 2 ^ 32"
    and "k \<le> k_tiles C dim_k" "k_tiles C dim_k \<le> fuel + k"
  shows "k_loop fuel P S C bt warps dim_m dim_n dim_k (of_nat k)
    = Some (concat (map (\<lambda>k. k_iteration P S C bt warps dim_m dim_n dim_k (of_nat k)) [k..<k_tiles C dim_k]))"
  using assms(3,4)
proof (induction fuel arbitrary: k)
  case 0
  then show ?case using tile_in_range [OF assms(1,2) 0(1)] by simp
next
  case (Suc fuel)
  show ?case
  proof (cases "k < k_tiles C dim_k")
    case True
    then have "k_loop fuel P S C bt warps dim_m dim_n dim_k (of_nat (Suc k))
      = Some (concat (map (\<lambda>k. k_iteration P S C bt warps dim_m dim_n dim_k (of_nat k)) [Suc k..<k_tiles C dim_k]))"
      using Suc.prems by (intro Suc.IH) auto
    then show ?thesis using True tile_in_range [OF assms(1,2) Suc.prems(1)]
      by (simp add: upt_conv_Cons add.commute)
  next
    case False
    then show ?thesis using tile_in_range [OF assms(1,2) Suc.prems(1)] by simp
  qed
qed

section \<open>Configurations\<close>

text \<open>
  The static assertions of the library, the conditions under which the placement of the result is
  correct (\<open>spad_dest_correct\<close>), and the size of a scale-factor buffer, which the library does not
  assert.
\<close>

definition pipeline_ok :: "params \<Rightarrow> gemm_config \<Rightarrow> bool" where
  "pipeline_ok P C \<longleftrightarrow> tile_asserts C \<and> fits_assert P C \<and> unat (SMEM_ROWS P) mod 4 = 0
     \<and> 0 < unat (A_SPAD_ROWS P C) \<and> 4 * unat (A_SPAD_ROWS P C) \<le> unat (SMEM_ROWS P)
     \<and> 0 < unat (B_SPAD_ROWS P C) \<and> 4 * unat (B_SPAD_ROWS P C) \<le> unat (SMEM_ROWS P)
     \<and> 0 < unat (C_SPAD_ROWS P C)
     \<and> SCALE_FACTORS_PER_TILE_A C \<le> GEMMINI_SF_MEM_BUFFER_OFFSET
     \<and> SCALE_FACTORS_PER_TILE_B C \<le> GEMMINI_SF_MEM_BUFFER_OFFSET"

definition quarter :: "params \<Rightarrow> nat" where
  "quarter P = unat (SMEM_ROWS P) div 4"

lemma of_nat_and_one: "(of_nat k AND 1 :: u32) = (if odd k then 1 else 0)"
  by (simp add: and_one_eq mod2_eq_if)

lemma of_nat_Suc_word: "(of_nat k :: u32) + 1 = of_nat (Suc k)"
  by (simp add: add.commute)

definition a_tile :: "params \<Rightarrow> gemm_config \<Rightarrow> nat \<Rightarrow> nat \<times> nat" where
  "a_tile P C k = a_rows P C (calculate_spad_addr P False (of_nat k))"

definition b_tile :: "params \<Rightarrow> gemm_config \<Rightarrow> nat \<Rightarrow> nat \<times> nat" where
  "b_tile P C k = b_rows P C (calculate_spad_addr P True (of_nat k))"

lemma pipeline_smem: "pipeline_ok P C \<Longrightarrow> unat (SMEM_ROWS P) = 4 * quarter P"
  by (auto simp: pipeline_ok_def quarter_def)

lemma a_tile_eq:
  assumes "pipeline_ok P C"
  shows "a_tile P C k = (if odd k then (quarter P, quarter P + unat (A_SPAD_ROWS P C)) else (0, unat (A_SPAD_ROWS P C)))"
  by (simp add: a_tile_def a_rows_def calculate_spad_addr_def Let_def of_nat_and_one unat_div quarter_def SMEM_ROWS_def)

lemma b_tile_eq:
  assumes "pipeline_ok P C"
  shows "b_tile P C k = (if odd k then (3 * quarter P - unat (B_SPAD_ROWS P C), 3 * quarter P)
    else (4 * quarter P - unat (B_SPAD_ROWS P C), 4 * quarter P))"
proof -
  let ?S = "SMEM_ROWS P"
  have Q: "unat (?S div 4) = quarter P" by (simp add: unat_div quarter_def)
  have "unat (?S - ?S div 4) = 3 * quarter P"
    using unat_sub [of "?S div 4" ?S] pipeline_smem [OF assms] by (simp add: word_le_nat_alt Q)
  then show ?thesis using pipeline_smem [OF assms]
    by (simp add: b_tile_def b_rows_def calculate_spad_addr_def Let_def of_nat_and_one flip: SMEM_ROWS_def)
qed

lemma tiles_disjoint:
  assumes "pipeline_ok P C"
  shows "\<not> overlap (a_tile P C j) (b_tile P C k)" "\<not> overlap (b_tile P C k) (a_tile P C j)"
    "odd j \<noteq> odd k \<Longrightarrow> \<not> overlap (a_tile P C j) (a_tile P C k)"
    "odd j \<noteq> odd k \<Longrightarrow> \<not> overlap (b_tile P C j) (b_tile P C k)"
proof -
  have q: "unat (A_SPAD_ROWS P C) \<le> quarter P" "unat (B_SPAD_ROWS P C) \<le> quarter P"
    using assms by (auto simp: pipeline_ok_def quarter_def)
  show ab: "\<not> overlap (a_tile P C j) (b_tile P C k)"
    using q unfolding a_tile_eq [OF assms] b_tile_eq [OF assms] overlap_def by auto
  then show "\<not> overlap (b_tile P C k) (a_tile P C j)" by (simp add: overlap_sym)
  show "odd j \<noteq> odd k \<Longrightarrow> \<not> overlap (a_tile P C j) (a_tile P C k)"
    using q unfolding a_tile_eq [OF assms] overlap_def by auto
  show "odd j \<noteq> odd k \<Longrightarrow> \<not> overlap (b_tile P C j) (b_tile P C k)"
    using q unfolding b_tile_eq [OF assms] overlap_def by auto
qed

lemma result_disjoint:
  assumes "pipeline_ok P C" "\<not> ACC_TO_GMEM C"
  shows "\<not> overlap (c_rows P C (SPAD_DEST P C)) (a_tile P C k)" "\<not> overlap (c_rows P C (SPAD_DEST P C)) (b_tile P C k)"
proof -
  have "C_FITS_IN_SPAD P C" using assms by (simp add: pipeline_ok_def fits_assert_def)
  then have "place_ok (quarter P) (unat (A_SPAD_ROWS P C)) (unat (B_SPAD_ROWS P C)) (unat (C_SPAD_ROWS P C)) (unat (SPAD_DEST P C))"
    using spad_dest_place [OF pipeline_smem [OF assms(1)], of "A_SPAD_ROWS P C" "B_SPAD_ROWS P C" "C_SPAD_ROWS P C"] assms(1)
    by (auto simp: pipeline_ok_def quarter_def C_FITS_IN_SPAD_def SPAD_DEST_def split: if_splits)
  then show "\<not> overlap (c_rows P C (SPAD_DEST P C)) (a_tile P C k)" "\<not> overlap (c_rows P C (SPAD_DEST P C)) (b_tile P C k)"
    by (auto simp: place_ok_def hits_def operand_buffers_def c_rows_def a_tile_eq [OF assms(1)] b_tile_eq [OF assms(1)])
qed

section \<open>The calls of one iteration\<close>

lemma move_in_skips: "bit (loop_matmul_skips 0 0 1 1 1) 3 = False" "bit (loop_matmul_skips 0 0 1 1 1) 4 = False"
  "bit (loop_matmul_skips 0 0 1 1 1) 6" "bit (loop_matmul_skips 0 0 1 1 1) 7"
  by code_simp+

lemma compute_skips: "bit (loop_matmul_skips 1 1 1 0 1) 3" "bit (loop_matmul_skips 1 1 1 0 1) 4"
  "bit (loop_matmul_skips 1 1 1 0 1) 6 = False" "bit (loop_matmul_skips 1 1 1 0 1) 7"
  "bit (loop_matmul_skips 1 1 1 0 0) 3" "bit (loop_matmul_skips 1 1 1 0 0) 4"
  "bit (loop_matmul_skips 1 1 1 0 0) 6 = False" "bit (loop_matmul_skips 1 1 1 0 0) 7 = False"
  by code_simp+

definition a_source :: "symbols \<Rightarrow> gemm_config \<Rightarrow> nat \<Rightarrow> u64" where
  "a_source S C k = rad_device_to_host_address (A_in S + TILE_K C * of_nat k)"

definition b_source :: "symbols \<Rightarrow> gemm_config \<Rightarrow> u32 \<Rightarrow> nat \<Rightarrow> u64" where
  "b_source S C dim_n k = rad_device_to_host_address (B_in S + dim_n * TILE_K C * of_nat k div VALUES_PER_BYTE C)"

lemma hits_simps [simp]: "\<not> hits r []" "hits r (t # ts) \<longleftrightarrow> overlap r t \<or> hits r ts"
  by (simp_all add: hits_def)

lemma run_move_in:
  assumes "pipeline_ok P C" "reading s = []" "writing s = []"
  shows "run_calls P C (copy_gmem_to_smem_async P S C dim_n dim_k (of_nat k)) s
    = Some (s\<lparr>pending := Some (a_source S C k, b_source S C dim_n k), writing := [b_tile P C k, a_tile P C k],
        held := (clobber (b_tile P C k) ((clobber (a_tile P C k) (held s))(a_tile P C k := Some (a_source S C k))))
          (b_tile P C k := Some (b_source S C dim_n k))\<rparr>)"
  using assms(2,3) tiles_disjoint [OF assms(1)]
  by (simp add: copy_gmem_to_smem_async_def Let_def GEMMINI_DMA_def ZERO_STRIDE_K_def issue_loop_def move_in_skips
      move_in_def a_source_def b_source_def flip: a_tile_def b_tile_def)

lemma clobber_other [simp]: "\<not> overlap t r \<Longrightarrow> clobber r h t = h t"
  by (simp add: clobber_def)

text \<open>What the log must say of the computation of tile \<open>k\<close> of \<open>n\<close>.\<close>

definition expected :: "params \<Rightarrow> symbols \<Rightarrow> gemm_config \<Rightarrow> u32 \<Rightarrow> nat \<Rightarrow> nat \<Rightarrow> (u32 \<Rightarrow> u32 option) \<Rightarrow> compute" where
  "expected P S C dim_n n k sc = \<lparr>c_a = a_source S C k, c_b = b_source S C dim_n k,
     c_toggles = (of_bool (odd k), of_bool (odd k)), c_scales = sc, c_accumulate = (k \<noteq> 0),
     c_store = (if Suc k = n \<and> \<not> ACC_TO_GMEM C then Some (SPAD_DEST P C) else None)\<rparr>"

lemma run_matmul:
  assumes ok: "pipeline_ok P C" and "reading s = []" "\<not> unfenced s"
    and "held s (a_tile P C k) = Some a" "held s (b_tile P C k) = Some b"
    and w: "writing s = (if Suc k < n then [b_tile P C (Suc k), a_tile P C (Suc k)] else [])"
    and k: "k < n" "k < 2 ^ 32" and st: "st \<longleftrightarrow> Suc k = n \<and> \<not> ACC_TO_GMEM C"
  shows "run_calls P C (matmul_tile_async P C (of_nat k) st) s
    = Some (s\<lparr>reading := [a_tile P C k, b_tile P C k], busy := Some (toggles s),
        writing := (if st then [c_rows P C (SPAD_DEST P C)] else writing s),
        held := (if st then clobber (c_rows P C (SPAD_DEST P C)) (held s) else held s),
        computes := computes s @ [\<lparr>c_a = a, c_b = b, c_toggles = toggles s, c_scales = scales s,
          c_accumulate = (k \<noteq> 0), c_store = (if st then Some (SPAD_DEST P C) else None)\<rparr>]\<rparr>)"
proof -
  have z: "(of_nat k = (0 :: u32)) = (k = 0)"
    using unat_eq_zero [of "of_nat k :: u32"] unfolding unat_of_nat_exact [OF k(2)] by (rule sym)
  have clear: "\<not> hits (a_tile P C k) (writing s)" "\<not> hits (b_tile P C k) (writing s)"
    using tiles_disjoint [OF ok] by (simp_all add: w)
  have c: "run_calls P C (matmul_tile_async P C (of_nat k) st) s
    = issue_loop P C (calculate_spad_addr P False (of_nat k)) (calculate_spad_addr P True (of_nat k))
        (SPAD_DEST P C) (k \<noteq> 0) (loop_matmul_skips 1 1 1 0 (if st then 0 else 1)) s"
    by (simp add: matmul_tile_async_def Let_def z)
  have skips: "bit (loop_matmul_skips 1 1 1 0 (if st then 0 else 1)) 3" "bit (loop_matmul_skips 1 1 1 0 (if st then 0 else 1)) 4"
    "\<not> bit (loop_matmul_skips 1 1 1 0 (if st then 0 else 1)) 6" "bit (loop_matmul_skips 1 1 1 0 (if st then 0 else 1)) 7 = (\<not> st)"
    using compute_skips by simp_all
  show ?thesis
  proof (cases st)
    case True
    then have "\<not> ACC_TO_GMEM C" "writing s = []" using st w by auto
    then show ?thesis
      using True assms(2-5) clear skips result_disjoint [OF ok] unfolding c
      by (simp add: issue_loop_def start_compute_def store_result_def flip: a_tile_def b_tile_def)
  next
    case False
    then show ?thesis
      using assms(2-5) clear skips unfolding c
      by (simp add: issue_loop_def start_compute_def flip: a_tile_def b_tile_def)
  qed
qed

section \<open>Scale factors of a tile\<close>

definition sf_dest :: "bool \<Rightarrow> nat \<Rightarrow> u32" where
  "sf_dest is_b k = calculate_scale_factor_smem_addr is_b (of_nat k)"

definition sf_source :: "symbols \<Rightarrow> gemm_config \<Rightarrow> u32 \<Rightarrow> bool \<Rightarrow> nat \<Rightarrow> u32" where
  "sf_source S C dim is_b k = (if is_b then B_scales_col S else A_scales_row S) + of_nat k * TILE_K C * dim div 32"

definition sf_words :: "gemm_config \<Rightarrow> bool \<Rightarrow> nat" where
  "sf_words C is_b = unat (if is_b then SCALE_FACTORS_PER_TILE_B C else SCALE_FACTORS_PER_TILE_A C) div 4"

lemma sf_dest_eq: "sf_dest is_b k = (if is_b then 0x88000 else 0x8A000) + (if odd k then 0x800 else 0)"
  by (simp add: sf_dest_def calculate_scale_factor_smem_addr_def Let_def of_nat_and_one GEMMINI_SF_MEM_A_def
      GEMMINI_SF_MEM_B_def GEMMINI_SF_MEM_def GEMMINI_SF_MEM_BUFFER_OFFSET_def GEMMINI_SF_MEM_SIZE_def)

lemma load_tile_scales_eq:
  "load_tile_scales S C dim_m dim_n (of_nat k)
    = sf_copies (sf_dest False k) (sf_source S C dim_m False k) (sf_words C False)
      @ sf_copies (sf_dest True k) (sf_source S C dim_n True k) (sf_words C True)"
  by (simp add: load_tile_scales_def load_scale_factors_eq calculate_scale_factor_gmem_addr_def Let_def ZERO_STRIDE_K_def
      sf_source_def sf_words_def flip: sf_dest_def)

lemma word_offset:
  assumes "i < 512"
  shows "unat (sf_dest is_b k + 4 * of_nat i) = (if is_b then 0x88000 else 0x8A000) + (if odd k then 0x800 else 0) + 4 * i"
proof -
  have "unat (4 * of_nat i :: u32) = 4 * i"
    using unat_of_nat_exact [of "4 * i"] assms by simp
  then show ?thesis using assms unfolding sf_dest_eq by (intro unat_add_exact) auto
qed

lemma word_offset_inj:
  assumes "i < 512" "j < 512"
  shows "sf_dest is_b k + 4 * of_nat i = sf_dest is_b' k + 4 * of_nat j \<longleftrightarrow> is_b = is_b' \<and> i = j"
proof
  assume "sf_dest is_b k + 4 * of_nat i = sf_dest is_b' k + 4 * of_nat j"
  then have "unat (sf_dest is_b k + 4 * of_nat i) = unat (sf_dest is_b' k + 4 * of_nat j)" by simp
  then show "is_b = is_b' \<and> i = j"
    unfolding word_offset [OF assms(1)] word_offset [OF assms(2)] using assms by (auto split: if_splits)
qed simp

lemma other_buffer:
  assumes "i < 512"
  shows "\<not> sf_conflict (sf_dest is_b (Suc k) + 4 * of_nat i) (Some (of_bool (odd k), of_bool (odd k)))"
  using word_offset [OF assms, of is_b "Suc k"] assms
  by (auto simp: sf_conflict_def in_buffer_def sf_offset_def word_le_nat_alt word_less_nat_alt GEMMINI_SF_MEM_A_def
      GEMMINI_SF_MEM_B_def GEMMINI_SF_MEM_def GEMMINI_SF_MEM_BUFFER_OFFSET_def GEMMINI_SF_MEM_SIZE_def)

definition sf_loaded :: "symbols \<Rightarrow> gemm_config \<Rightarrow> u32 \<Rightarrow> bool \<Rightarrow> nat \<Rightarrow> (u32 \<Rightarrow> u32 option) \<Rightarrow> bool" where
  "sf_loaded S C dim is_b k sc \<longleftrightarrow>
     (\<forall>i< sf_words C is_b. sc (sf_dest is_b k + 4 * of_nat i) = Some (sf_source S C dim is_b k + 4 * of_nat i))"

lemma run_sf_copies:
  assumes "w \<le> 512" and free: "\<And>i. i < w \<Longrightarrow> \<not> sf_conflict (sf_dest is_b k + 4 * of_nat i) (busy s)"
  shows "\<exists>u sc. run_calls P C (sf_copies (sf_dest is_b k) src w) s = Some (s\<lparr>unfenced := u, scales := sc\<rparr>)
    \<and> (\<forall>i<w. sc (sf_dest is_b k + 4 * of_nat i) = Some (src + 4 * of_nat i))
    \<and> (\<forall>d. (\<forall>i<w. d \<noteq> sf_dest is_b k + 4 * of_nat i) \<longrightarrow> sc d = scales s d)"
  using assms
proof (induction w)
  case 0
  show ?case by (rule exI [of _ "unfenced s"], rule exI [of _ "scales s"]) (simp add: sf_copies_def)
next
  case (Suc w)
  then obtain u sc where IH: "run_calls P C (sf_copies (sf_dest is_b k) src w) s = Some (s\<lparr>unfenced := u, scales := sc\<rparr>)"
    "\<forall>i<w. sc (sf_dest is_b k + 4 * of_nat i) = Some (src + 4 * of_nat i)"
    "\<forall>d. (\<forall>i<w. d \<noteq> sf_dest is_b k + 4 * of_nat i) \<longrightarrow> sc d = scales s d"
    by auto
  let ?d = "sf_dest is_b k + 4 * of_nat w"
  have "run_calls P C (sf_copies (sf_dest is_b k) src (Suc w)) s
    = Some (s\<lparr>unfenced := True, scales := sc(?d := Some (src + 4 * of_nat w))\<rparr>)"
    using IH(1) Suc.prems(2) [of w] by (simp add: sf_copies_def run_calls_append store_scale_def)
  moreover have "(sc(?d := Some (src + 4 * of_nat w))) (sf_dest is_b k + 4 * of_nat i) = Some (src + 4 * of_nat i)"
    if "i < Suc w" for i
    using that IH(2) word_offset_inj [of i w is_b k is_b] Suc.prems(1) by (cases "i = w") auto
  moreover have "(sc(?d := Some (src + 4 * of_nat w))) d = scales s d" if "\<forall>i<Suc w. d \<noteq> sf_dest is_b k + 4 * of_nat i" for d
    using that IH(3) by auto
  ultimately show ?case by blast
qed

lemma run_load_tile_scales:
  assumes ok: "pipeline_ok P C" and b: "busy s = None \<or> (\<exists>j. k = Suc j \<and> busy s = Some (of_bool (odd j), of_bool (odd j)))"
  shows "\<exists>u sc. run_calls P C (load_tile_scales S C dim_m dim_n (of_nat k)) s = Some (s\<lparr>unfenced := u, scales := sc\<rparr>)
    \<and> sf_loaded S C dim_m False k sc \<and> sf_loaded S C dim_n True k sc"
proof -
  have w: "sf_words C is_b \<le> 512" for is_b
    using ok by (auto simp: pipeline_ok_def sf_words_def word_le_nat_alt GEMMINI_SF_MEM_BUFFER_OFFSET_def GEMMINI_SF_MEM_SIZE_def)
  have free: "\<not> sf_conflict (sf_dest is_b k + 4 * of_nat i) (busy s)" if "i < sf_words C is_b" for is_b i
    using b that w [of is_b] other_buffer [of i is_b] by (auto simp: sf_conflict_def [of _ None])
  obtain u sc where A: "run_calls P C (sf_copies (sf_dest False k) (sf_source S C dim_m False k) (sf_words C False)) s
      = Some (s\<lparr>unfenced := u, scales := sc\<rparr>)" "sf_loaded S C dim_m False k sc"
    using run_sf_copies [OF w free] unfolding sf_loaded_def by blast
  obtain u' sc' where B: "run_calls P C (sf_copies (sf_dest True k) (sf_source S C dim_n True k) (sf_words C True)) (s\<lparr>unfenced := u, scales := sc\<rparr>)
      = Some (s\<lparr>unfenced := u, scales := sc\<rparr>\<lparr>unfenced := u', scales := sc'\<rparr>)" "sf_loaded S C dim_n True k sc'"
    "\<And>d. (\<forall>i< sf_words C True. d \<noteq> sf_dest True k + 4 * of_nat i) \<longrightarrow> sc' d = sc d"
    using run_sf_copies [where w = "sf_words C True" and is_b = True and k = k and s = "s\<lparr>unfenced := u, scales := sc\<rparr>"
        and src = "sf_source S C dim_n True k" and P = P and C = C] w free
    unfolding sf_loaded_def by fastforce
  have "sf_loaded S C dim_m False k sc'"
    unfolding sf_loaded_def
  proof (intro allI impI)
    fix i assume i: "i < sf_words C False"
    have "\<forall>j< sf_words C True. sf_dest False k + 4 * of_nat i \<noteq> sf_dest True k + 4 * of_nat j"
      using word_offset_inj i w [of False] w [of True] by auto
    then show "sc' (sf_dest False k + 4 * of_nat i) = Some (sf_source S C dim_m False k + 4 * of_nat i)"
      using A(2) B(3) i by (simp add: sf_loaded_def)
  qed
  then show ?thesis using A(1) B(1,2) by (auto simp: load_tile_scales_eq run_calls_append intro!: exI)
qed

section \<open>One iteration\<close>

text \<open>The state in which the iteration of tile \<open>k\<close> begins.\<close>

definition ready :: "params \<Rightarrow> symbols \<Rightarrow> gemm_config \<Rightarrow> u32 \<Rightarrow> u32 \<Rightarrow> nat \<Rightarrow> mesh \<Rightarrow> bool" where
  "ready P S C dim_m dim_n k s \<longleftrightarrow> quiet s
     \<and> held s (a_tile P C k) = Some (a_source S C k) \<and> held s (b_tile P C k) = Some (b_source S C dim_n k)
     \<and> sf_loaded S C dim_m False k (scales s) \<and> sf_loaded S C dim_n True k (scales s)"

lemma tiles_distinct:
  assumes "pipeline_ok P C"
  shows "a_tile P C j \<noteq> b_tile P C k" "a_tile P C k \<noteq> a_tile P C (Suc k)" "b_tile P C k \<noteq> b_tile P C (Suc k)"
  using assms
  by (auto simp: a_tile_eq [OF assms] b_tile_eq [OF assms] pipeline_ok_def quarter_def split: if_splits)

text \<open>Moving in the next tile keeps the current one.\<close>

definition held_after :: "params \<Rightarrow> symbols \<Rightarrow> gemm_config \<Rightarrow> u32 \<Rightarrow> nat \<Rightarrow> (nat \<times> nat \<Rightarrow> u64 option) \<Rightarrow> nat \<times> nat \<Rightarrow> u64 option" where
  "held_after P S C dim_n k h = (clobber (b_tile P C k) ((clobber (a_tile P C k) h)(a_tile P C k := Some (a_source S C k))))
     (b_tile P C k := Some (b_source S C dim_n k))"

lemma held_after_new:
  assumes "pipeline_ok P C"
  shows "held_after P S C dim_n k h (a_tile P C k) = Some (a_source S C k)"
    "held_after P S C dim_n k h (b_tile P C k) = Some (b_source S C dim_n k)"
  using tiles_disjoint [OF assms] tiles_distinct [OF assms] by (simp_all add: held_after_def)

lemma held_after_old:
  assumes "pipeline_ok P C"
  shows "held_after P S C dim_n (Suc k) h (a_tile P C k) = h (a_tile P C k)"
    "held_after P S C dim_n (Suc k) h (b_tile P C k) = h (b_tile P C k)"
  using tiles_disjoint [OF assms] tiles_distinct [OF assms] tiles_distinct(1) [OF assms, symmetric]
  by (simp_all add: held_after_def)

lemma run_iteration:
  assumes ok: "pipeline_ok P C" and small: "unat dim_k + unat (TILE_K C) < 2 ^ 32" and k: "k < k_tiles C dim_k"
    and r: "ready P S C dim_m dim_n k s"
  shows "\<exists>s'. run_calls P C (k_iteration P S C bt warps dim_m dim_n dim_k (of_nat k)) s = Some s' \<and> quiet s'
    \<and> (Suc k < k_tiles C dim_k \<longrightarrow> ready P S C dim_m dim_n (Suc k) s')
    \<and> computes s' = computes s @ [expected P S C dim_n (k_tiles C dim_k) k (scales s)]"
proof -
  define n where "n = k_tiles C dim_k"
  have pos: "0 < unat (TILE_K C)" using ok by (auto simp: pipeline_ok_def tile_asserts_def word_le_nat_alt)
  have k32: "k < 2 ^ 32" using k k_tiles_le [OF pos, of dim_k] small by simp
  have kn: "k < n" using k by (simp add: n_def)
  have next_t: "of_nat k + (1 :: u32) = of_nat (Suc k)" by simp
  have last: "dim_k \<le> of_nat (Suc k) * TILE_K C \<longleftrightarrow> Suc k = n"
    using tile_in_range [OF pos small, of "Suc k"] k unfolding n_def by (auto simp: not_less [symmetric] simp del: of_nat_Suc)
  define st where "st \<longleftrightarrow> Suc k = n \<and> \<not> ACC_TO_GMEM C"
  define t where "t = (of_bool (odd k) :: u32)"
  define s1 where "s1 = s\<lparr>toggles := (t, t)\<rparr>"
  have q: "reading s = []" "writing s = []" "busy s = None" "\<not> unfenced s" using r by (simp_all add: ready_def quiet_def)
  have r1: "run_calls P C [mxquant_config S C (of_nat k AND 1)] s = Some s1"
    using q by (simp add: mxquant_config_def s1_def t_def of_nat_and_one)
  define s2 where "s2 = (if Suc k < n then s1\<lparr>pending := Some (a_source S C (Suc k), b_source S C dim_n (Suc k)),
    writing := [b_tile P C (Suc k), a_tile P C (Suc k)], held := held_after P S C dim_n (Suc k) (held s)\<rparr> else s1)"
  have r2: "run_calls P C (if Suc k = n then [] else copy_gmem_to_smem_async P S C dim_n dim_k (of_nat (Suc k))) s1 = Some s2"
    using run_move_in [OF ok, of s1 S dim_n dim_k "Suc k"] q kn
    by (simp add: s2_def s1_def held_after_def del: of_nat_Suc)
  define s3 where "s3 = s2\<lparr>reading := [a_tile P C k, b_tile P C k], busy := Some (t, t),
      writing := (if st then [c_rows P C (SPAD_DEST P C)] else writing s2),
      held := (if st then clobber (c_rows P C (SPAD_DEST P C)) (held s2) else held s2),
      computes := computes s @ [expected P S C dim_n n k (scales s)]\<rparr>"
  have h2: "held s2 (a_tile P C k) = Some (a_source S C k)" "held s2 (b_tile P C k) = Some (b_source S C dim_n k)"
    using r held_after_old [OF ok] by (simp_all add: s2_def s1_def ready_def)
  have r3: "run_calls P C (matmul_tile_async P C (of_nat k) st) s2 = Some s3"
    using run_matmul [OF ok _ _ h2 _ kn k32 st_def] q
    by (simp add: s2_def s1_def s3_def expected_def st_def t_def)
  obtain u sc where r4: "run_calls P C (load_tile_scales S C dim_m dim_n (of_nat (Suc k))) s3 = Some (s3\<lparr>unfenced := u, scales := sc\<rparr>)"
    and sc: "sf_loaded S C dim_m False (Suc k) sc" "sf_loaded S C dim_n True (Suc k) sc"
    using run_load_tile_scales [OF ok, of s3 "Suc k" S dim_m dim_n] by (auto simp: s3_def t_def)
  define s4 where "s4 = s3\<lparr>unfenced := False, scales := sc, reading := [], writing := [], busy := None\<rparr>"
  have r5: "run_calls P C ([Smem_fence] @ [Gemmini_fence] @ (if bt then [Barrier 2 warps] else [])) (s3\<lparr>unfenced := u, scales := sc\<rparr>)
    = Some s4"
    by (simp add: s4_def)
  have it: "k_iteration P S C bt warps dim_m dim_n dim_k (of_nat k) =
      [mxquant_config S C (of_nat k AND 1)]
      @ (if Suc k = n then [] else copy_gmem_to_smem_async P S C dim_n dim_k (of_nat (Suc k)))
      @ matmul_tile_async P C (of_nat k) st @ load_tile_scales S C dim_m dim_n (of_nat (Suc k))
      @ [Smem_fence] @ [Gemmini_fence] @ (if bt then [Barrier 2 warps] else [])"
    unfolding k_iteration_def Let_def next_t last
    by (simp add: DISABLE_MOVE_IN_AFTER_FIRST_K_def DISABLE_SCALE_FACTOR_UPDATE_def st_def del: of_nat_Suc)
  have "run_calls P C (k_iteration P S C bt warps dim_m dim_n dim_k (of_nat k)) s = Some s4"
    unfolding it run_calls_append r1 r2 r3 r4 Option.bind.bind_lunit using r5 by (simp add: run_calls_append)
  moreover have "quiet s4" by (simp add: quiet_def s4_def)
  moreover have "ready P S C dim_m dim_n (Suc k) s4" if "Suc k < n"
  proof -
    have "\<not> st" using that by (simp add: st_def)
    then show ?thesis using that sc held_after_new [OF ok] by (simp add: ready_def quiet_def s4_def s3_def s2_def)
  qed
  moreover have "computes s4 = computes s @ [expected P S C dim_n n k (scales s)]" by (simp add: s4_def s3_def)
  ultimately show ?thesis unfolding n_def by blast
qed

section \<open>The whole K loop\<close>

definition log_ok :: "params \<Rightarrow> symbols \<Rightarrow> gemm_config \<Rightarrow> u32 \<Rightarrow> u32 \<Rightarrow> nat \<Rightarrow> compute list \<Rightarrow> bool" where
  "log_ok P S C dim_m dim_n n cs \<longleftrightarrow> (\<forall>k<length cs. \<exists>sc. cs ! k = expected P S C dim_n n k sc
     \<and> sf_loaded S C dim_m False k sc \<and> sf_loaded S C dim_n True k sc)"

lemma log_ok_snoc:
  "log_ok P S C dim_m dim_n n cs \<Longrightarrow> sf_loaded S C dim_m False (length cs) sc \<Longrightarrow> sf_loaded S C dim_n True (length cs) sc
    \<Longrightarrow> log_ok P S C dim_m dim_n n (cs @ [expected P S C dim_n n (length cs) sc])"
  by (auto simp: log_ok_def nth_append less_Suc_eq)

lemma run_loop:
  assumes ok: "pipeline_ok P C" and small: "unat dim_k + unat (TILE_K C) < 2 ^ 32"
    and "k \<le> k_tiles C dim_k" "k < k_tiles C dim_k \<Longrightarrow> ready P S C dim_m dim_n k s" "quiet s"
    and "length (computes s) = k" "log_ok P S C dim_m dim_n (k_tiles C dim_k) (computes s)"
  shows "\<exists>s'. run_calls P C (concat (map (\<lambda>k. k_iteration P S C bt warps dim_m dim_n dim_k (of_nat k)) [k..<k_tiles C dim_k])) s = Some s'
    \<and> quiet s' \<and> length (computes s') = k_tiles C dim_k \<and> log_ok P S C dim_m dim_n (k_tiles C dim_k) (computes s')"
  using assms(3-)
proof (induction "k_tiles C dim_k - k" arbitrary: k s)
  case 0
  then show ?case by simp
next
  case (Suc m)
  then have k: "k < k_tiles C dim_k" by simp
  let ?it = "\<lambda>k. k_iteration P S C bt warps dim_m dim_n dim_k (of_nat k)"
  have r: "ready P S C dim_m dim_n k s" using Suc.prems(2) [OF k] .
  obtain s' where s': "run_calls P C (?it k) s = Some s'" "quiet s'" "Suc k < k_tiles C dim_k \<longrightarrow> ready P S C dim_m dim_n (Suc k) s'"
    "computes s' = computes s @ [expected P S C dim_n (k_tiles C dim_k) k (scales s)]"
    using run_iteration [OF ok small k r] by blast
  have "log_ok P S C dim_m dim_n (k_tiles C dim_k) (computes s')"
    using log_ok_snoc [OF Suc.prems(5), of "scales s"] r s'(4) Suc.prems(4) by (simp add: ready_def)
  then have "\<exists>s''. run_calls P C (concat (map ?it [Suc k..<k_tiles C dim_k])) s' = Some s'' \<and> quiet s''
      \<and> length (computes s'') = k_tiles C dim_k \<and> log_ok P S C dim_m dim_n (k_tiles C dim_k) (computes s'')"
    using Suc.hyps(2) k s' Suc.prems(4) by (intro Suc.hyps(1)) auto
  then show ?case using s'(1) k by (simp add: upt_conv_Cons run_calls_append)
qed

lemma run_lut_stores:
  "busy s = None \<Longrightarrow> \<exists>u. run_calls P C (lut_stores base lut tile) s = Some (s\<lparr>unfenced := u\<rparr>)"
proof -
  assume b: "busy s = None"
  have "\<exists>u. run_calls P C (map (\<lambda>(d, v). Store_lut d v) xs) s = Some (s\<lparr>unfenced := u\<rparr>)" for xs :: "(u32 \<times> u32) list"
  proof (induction xs rule: rev_induct)
    case Nil
    show ?case by (rule exI [of _ "unfenced s"]) simp
  next
    case (snoc x xs)
    then show ?case using b by (cases x) (auto simp: run_calls_append)
  qed
  moreover have "\<exists>xs. lut_stores base lut tile = map (\<lambda>(d, v). Store_lut d v) xs"
    unfolding lut_stores_def
    by (rule exI [of _ "concat (map (\<lambda>i. map (\<lambda>w. (base + 4 * of_nat (3 * i + w), lut i w)) [0, 1, 2]) _)"])
      (simp add: map_concat comp_def)
  ultimately show ?thesis by metis
qed

lemma run_load_lut:
  assumes "busy s = None"
  shows "\<exists>u. run_calls P C (load_lut S C) s = Some (s\<lparr>unfenced := u\<rparr>)"
proof (cases "USE_LUT C")
  case True
  obtain u v w where "run_calls P C (lut_stores GEMMINI_LUT0_ADDR (B_lut S) (TILE_N C)) s = Some (s\<lparr>unfenced := u\<rparr>)"
    "run_calls P C (lut_stores GEMMINI_LUT1_ADDR (A_lut S) (TILE_M C)) (s\<lparr>unfenced := u\<rparr>) = Some (s\<lparr>unfenced := v\<rparr>)"
    "run_calls P C (lut_stores GEMMINI_LUT2_ADDR (C_lut S) (TILE_M C)) (s\<lparr>unfenced := v\<rparr>) = Some (s\<lparr>unfenced := w\<rparr>)"
    using assms run_lut_stores [of s] run_lut_stores [of "s\<lparr>unfenced := _\<rparr>"] by fastforce
  then show ?thesis using True by (auto simp: load_lut_def run_calls_append)
next
  case False
  then show ?thesis by (intro exI [of _ "unfenced s"]) (simp add: load_lut_def)
qed

lemma run_prologue:
  assumes ok: "pipeline_ok P C"
  shows "\<exists>s. run_calls P C (prologue P S C bt warps dim_m dim_n dim_k) mesh_init = Some s
    \<and> ready P S C dim_m dim_n 0 s \<and> computes s = []"
proof -
  have c: "run_calls P C (configure_mxgemmini S C dim_m dim_n dim_k) mesh_init = Some mesh_init"
    by (simp add: configure_mxgemmini_def mxquant_config_def Let_def mesh_init_def)
  define s1 where "s1 = mesh_init\<lparr>pending := Some (a_source S C 0, b_source S C dim_n 0), writing := [b_tile P C 0, a_tile P C 0],
    held := held_after P S C dim_n 0 (held mesh_init)\<rparr>"
  have r1: "run_calls P C (copy_gmem_to_smem_async P S C dim_n dim_k 0) mesh_init = Some s1"
    using run_move_in [OF ok, of mesh_init S dim_n dim_k 0] by (simp add: s1_def held_after_def mesh_init_def)
  obtain u sc where r2: "run_calls P C (load_tile_scales S C dim_m dim_n 0) s1 = Some (s1\<lparr>unfenced := u, scales := sc\<rparr>)"
    and sc: "sf_loaded S C dim_m False 0 sc" "sf_loaded S C dim_n True 0 sc"
    using run_load_tile_scales [OF ok, of s1 0 S dim_m dim_n] by (auto simp: s1_def mesh_init_def)
  obtain v where r3: "run_calls P C (load_lut S C) (s1\<lparr>unfenced := u, scales := sc\<rparr>) = Some (s1\<lparr>unfenced := u, scales := sc\<rparr>\<lparr>unfenced := v\<rparr>)"
    using run_load_lut [of "s1\<lparr>unfenced := u, scales := sc\<rparr>" P C S] by (auto simp: s1_def mesh_init_def)
  let ?s = "s1\<lparr>unfenced := False, scales := sc, reading := [], writing := [], busy := None\<rparr>"
  have "run_calls P C (prologue P S C bt warps dim_m dim_n dim_k) mesh_init = Some ?s"
    unfolding prologue_def run_calls_append c r1 r2 r3 Option.bind.bind_lunit by (simp add: s1_def)
  moreover have "ready P S C dim_m dim_n 0 ?s"
    using sc held_after_new [OF ok] by (simp add: ready_def quiet_def s1_def)
  moreover have "computes ?s = []" by (simp add: s1_def mesh_init_def)
  ultimately show ?thesis by blast
qed

text \<open>The shipped configuration with tiles of 64 by 64 by 64 satisfies the conditions.\<close>

lemma square64_ok: "pipeline_ok tapeout square64"
proof -
  have v: "SMEM_ROWS tapeout = 8192" "A_SPAD_ROWS tapeout square64 = 256" "B_SPAD_ROWS tapeout square64 = 256"
    "C_SPAD_ROWS tapeout square64 = 512" "SCALE_FACTORS_PER_TILE_A square64 = 128"
    "SCALE_FACTORS_PER_TILE_B square64 = 128" "GEMMINI_SF_MEM_BUFFER_OFFSET = 2048"
    "tile_asserts square64" "fits_assert tapeout square64"
    by code_simp+
  show ?thesis unfolding pipeline_ok_def v by (simp add: v)
qed

lemma pipeline_tile_pos: "pipeline_ok P C \<Longrightarrow> 0 < unat (TILE_K C)"
  by (auto simp: pipeline_ok_def tile_asserts_def word_le_nat_alt)

lemma k_loop_all:
  assumes "0 < unat (TILE_K C)" "unat dim_k + unat (TILE_K C) < 2 ^ 32"
  shows "k_loop (unat dim_k) P S C bt warps dim_m dim_n dim_k 0
    = Some (concat (map (\<lambda>k. k_iteration P S C bt warps dim_m dim_n dim_k (of_nat k)) [0..<k_tiles C dim_k]))"
  using k_loop_unroll [OF assms, of 0 "unat dim_k"] k_tiles_le [OF assms(1)] by simp

text \<open>C29: The K loop ends within \<open>dim_k\<close> iterations, and its calls are those of the iterations of
  the tiles 0 to \<open>\<lceil>dim_k / TILE_K\<rceil> - 1\<close> in order, as long as the loop bound does not wrap.\<close>

theorem k_loop_terminates:
  assumes "0 < unat (TILE_K C)" "unat dim_k + unat (TILE_K C) < 2 ^ 32"
  shows "k_loop (unat dim_k) P S C bt warps dim_m dim_n dim_k 0
    = Some (concat (map (\<lambda>k. k_iteration P S C bt warps dim_m dim_n dim_k (of_nat k)) [0..<k_tiles C dim_k]))"
  using assms by (rule k_loop_all)

theorem k_loop_terminates_witness:
  "\<forall>P S. k_loop 100 P S square64 False 1 64 64 100 0
    = Some (k_iteration P S square64 False 1 64 64 100 0 @ k_iteration P S square64 False 1 64 64 100 1)"
proof (intro allI)
  fix P S
  have "unat (TILE_K square64) = 64" "k_tiles square64 100 = 2" "[0..<2] = [0, 1]" by code_simp+
  then show "k_loop 100 P S square64 False 1 64 64 100 0
    = Some (k_iteration P S square64 False 1 64 64 100 0 @ k_iteration P S square64 False 1 64 64 100 1)" using k_loop_terminates [of square64 100 P S False 1 64 64] by simp
qed

lemma single_tile_run:
  assumes ok: "pipeline_ok P C" and small: "unat dim_k + unat (TILE_K C) < 2 ^ 32"
  shows "\<exists>tr s. mxgemm_single_output_tile P S C bt dim_m dim_n dim_k 0 threads = Some tr
    \<and> run_calls P C tr mesh_init = Some s \<and> quiet s
    \<and> length (computes s) = k_tiles C dim_k \<and> log_ok P S C dim_m dim_n (k_tiles C dim_k) (computes s)"
proof -
  let ?w = "of_nat (threads div nat MU_NUM_THREADS)"
  let ?body = "concat (map (\<lambda>k. k_iteration P S C bt ?w dim_m dim_n dim_k (of_nat k)) [0..<k_tiles C dim_k])"
  let ?pro = "prologue P S C bt ?w dim_m dim_n dim_k"
  obtain s where s: "run_calls P C ?pro mesh_init = Some s" "ready P S C dim_m dim_n 0 s" "computes s = []"
    using run_prologue [OF ok] by blast
  obtain s' where s': "run_calls P C ?body s = Some s'" "quiet s'" "length (computes s') = k_tiles C dim_k"
    "log_ok P S C dim_m dim_n (k_tiles C dim_k) (computes s')"
    using run_loop [OF ok small, of 0 S dim_m dim_n s bt ?w] s unfolding ready_def log_ok_def by auto
  let ?s = "s'\<lparr>reading := [], writing := [], busy := None\<rparr>"
  have "mxgemm_single_output_tile P S C bt dim_m dim_n dim_k 0 threads = Some (?pro @ ?body @ [Gemmini_fence])"
    using k_loop_all [OF pipeline_tile_pos [OF ok] small]
    by (simp add: mxgemm_single_output_tile_def Let_def)
  moreover have "run_calls P C (?pro @ ?body @ [Gemmini_fence]) mesh_init = Some ?s"
    unfolding run_calls_append s(1) s'(1) Option.bind.bind_lunit by simp
  ultimately show ?thesis using s' by (intro exI [of _ "?pro @ ?body @ [Gemmini_fence]"] exI [of _ ?s]) (auto simp: quiet_def)
qed

text \<open>C26: For every K dimension the calls of one output tile are free of hazards: no transfer
  overlaps rows in use, no scale factor in use is written and none is used before it is fenced.
  There is one computation per K tile; computation \<open>k\<close> takes the operands of tile \<open>k\<close> and the
  buffer toggle \<open>k mod 2\<close> with the scale factors of tile \<open>k\<close> in it, accumulates except for the first,
  and only the last stores the result, to its place in the scratchpad.\<close>

theorem mxgemm_pipeline_safe:
  assumes "pipeline_ok P C" "unat dim_k + unat (TILE_K C) < 2 ^ 32"
  shows "\<exists>tr s. mxgemm_single_output_tile P S C bt dim_m dim_n dim_k 0 threads = Some tr
    \<and> run_calls P C tr mesh_init = Some s \<and> quiet s
    \<and> length (computes s) = k_tiles C dim_k
    \<and> (\<forall>k<k_tiles C dim_k. \<exists>sc. computes s ! k =
          \<lparr>c_a = a_source S C k, c_b = b_source S C dim_n k,
           c_toggles = (of_bool (odd k), of_bool (odd k)), c_scales = sc, c_accumulate = (k \<noteq> 0),
           c_store = (if Suc k = k_tiles C dim_k \<and> \<not> ACC_TO_GMEM C then Some (SPAD_DEST P C) else None)\<rparr>
        \<and> sf_loaded S C dim_m False k sc \<and> sf_loaded S C dim_n True k sc)"
  using single_tile_run [OF assms, of S bt dim_m dim_n threads] unfolding log_ok_def expected_def by metis

theorem mxgemm_pipeline_safe_witness:
  "\<forall>S. \<exists>tr s. mxgemm_single_output_tile tapeout S square64 False 64 64 100 0 128 = Some tr
    \<and> run_calls tapeout square64 tr mesh_init = Some s \<and> length (computes s) = 2"
proof (intro allI)
  fix S
  have h: "unat (100 :: u32) + unat (TILE_K square64) < 2 ^ 32" by (simp add: square64_def)
  have n: "k_tiles square64 100 = 2" by code_simp
  show "\<exists>tr s. mxgemm_single_output_tile tapeout S square64 False 64 64 100 0 128 = Some tr
    \<and> run_calls tapeout square64 tr mesh_init = Some s \<and> length (computes s) = 2" using mxgemm_pipeline_safe [OF square64_ok h, of S False 64 64 128] unfolding n by blast
qed

section \<open>Moving the result out\<close>

lemma unfenced_same: "quiet s \<Longrightarrow> s\<lparr>unfenced := False\<rparr> = s"
  by (cases s) (simp add: quiet_def)

lemma run_copies_out:
  "quiet s \<Longrightarrow> run_calls P C (copy_smem_to_gmem_simt r c e src dest tid threads) s = Some s"
proof -
  assume q: "quiet s"
  have "run_calls P C (map (\<lambda>i. Copy_word Gmem (f i) Smem (g i)) xs) s = Some s" for f g and xs :: "nat list"
    using q by (induction xs) (auto simp: quiet_def)
  then show ?thesis by (simp add: copy_smem_to_gmem_simt_def)
qed

lemma run_copies_within:
  "run_calls P C (copy_gmem_to_gmem_simt r c e src dest tid threads) s = Some s"
proof -
  have "run_calls P C (map (\<lambda>i. Copy_word Gmem (f i) Gmem (g i)) xs) s = Some s" for f g and xs :: "nat list"
    by (induction xs) auto
  then show ?thesis by (simp add: copy_gmem_to_gmem_simt_def)
qed

lemma run_acc_out:
  assumes "quiet s"
  shows "run_calls P C (copy_accmem_to_gmem_dma_sync P C dest dim_n tid) s = Some s"
proof -
  have row: "run_calls P C (map (\<lambda>j. Mvout (f j) (g j)) js) s = Some s" for f g and js :: "nat list"
    using assms by (induction js) (auto simp: quiet_def)
  have "run_calls P C (concat (map (\<lambda>i. map (\<lambda>j. Mvout (f i j) (g i j)) js) rows)) s = Some s"
    for f g and rows js :: "nat list"
    by (induction rows) (auto simp: run_calls_append row)
  moreover have "s\<lparr>reading := [], writing := [], busy := None\<rparr> = s"
    using assms by (cases s) (simp add: quiet_def)
  ultimately show ?thesis
    unfolding copy_accmem_to_gmem_dma_sync_def Let_def by (simp add: run_calls_append)
qed



section \<open>Beyond the scale-factor arrays\<close>

text \<open>C30: The last iteration still loads the scale factors of the next K tile, which does not exist:
  when \<open>TILE_K\<close> divides \<open>dim_k\<close> the first of these reads is at the end of the array of
  \<open>dim_m * dim_k / 32\<close> bytes.\<close>

theorem scale_factors_overread:
  assumes "0 < unat (TILE_K C)" "unat dim_k + unat (TILE_K C) < 2 ^ 32"
    and "unat dim_k = n * unat (TILE_K C)" "0 < n" "4 \<le> unat (SCALE_FACTORS_PER_TILE_A C)"
  shows "\<exists>tr d. mxgemm_single_output_tile P S C bt dim_m dim_n dim_k 0 threads = Some tr
    \<and> Copy_word Smem d Gmem (A_scales_row S + dim_k * dim_m div 32) \<in> set tr"
proof -
  have n: "k_tiles C dim_k = n"
  proof -
    have "unat dim_k + unat (TILE_K C) - 1 = (unat (TILE_K C) - 1) + n * unat (TILE_K C)" using assms(1,3) by simp
    then have "k_tiles C dim_k = ((unat (TILE_K C) - 1) + n * unat (TILE_K C)) div unat (TILE_K C)"
      by (simp only: k_tiles_def)
    also have "\<dots> = n" using assms(1) by (subst div_mult_self1) auto
    finally show ?thesis .
  qed
  have e: "of_nat n * TILE_K C = dim_k"
    using arg_cong [OF assms(3), of "of_nat :: nat \<Rightarrow> u32"] by simp
  let ?w = "of_nat (threads div nat MU_NUM_THREADS)"
  have "Copy_word Smem (sf_dest False n) Gmem (sf_source S C dim_m False n) \<in> set (load_tile_scales S C dim_m dim_n (of_nat n))"
    using assms(5) unfolding load_tile_scales_eq
    by (auto simp: sf_copies_def sf_words_def intro!: image_eqI [where x = 0])
  then have "Copy_word Smem (sf_dest False n) Gmem (A_scales_row S + dim_k * dim_m div 32)
      \<in> set (k_iteration P S C bt ?w dim_m dim_n dim_k (of_nat (n - 1)))"
    using assms(4) by (simp add: k_iteration_def Let_def DISABLE_SCALE_FACTOR_UPDATE_def sf_source_def e)
  then have "Copy_word Smem (sf_dest False n) Gmem (A_scales_row S + dim_k * dim_m div 32)
      \<in> set (concat (map (\<lambda>k. k_iteration P S C bt ?w dim_m dim_n dim_k (of_nat k)) [0..<k_tiles C dim_k]))"
    using assms(4) unfolding n by (auto intro!: bexI [of _ "n - 1"])
  then show ?thesis
    using k_loop_all [OF assms(1,2)] by (auto simp: mxgemm_single_output_tile_def Let_def)
qed

theorem scale_factors_overread_witness:
  "\<forall>S. \<exists>tr d. mxgemm_single_output_tile tapeout S square64 False 64 64 128 0 128 = Some tr
    \<and> Copy_word Smem d Gmem (A_scales_row S + 256) \<in> set tr"
proof (intro allI)
  fix S
  have "unat (TILE_K square64) = 64" "4 \<le> unat (SCALE_FACTORS_PER_TILE_A square64)" by code_simp+
  then show "\<exists>tr d. mxgemm_single_output_tile tapeout S square64 False 64 64 128 0 128 = Some tr
    \<and> Copy_word Smem d Gmem (A_scales_row S + 256) \<in> set tr" using scale_factors_overread [of square64 128 2 tapeout S False 64 64 128] by simp
qed

end
