(* ===== verification/Tapeout_Template.thy ===== *)
theory Tapeout_Template
  imports Rad_Host Mxgemm
begin

text \<open>
  The template every tapeout kernel is made from, \<open>src/kernels/tapeout_template\<close>: the vector
  addition of \<open>kernel.cpp\<close> under the static scheduler, and the Rocket program of \<open>host.cpp\<close> that
  writes the inputs, runs the GPU and checks the result.  Memory is a map from the GPU's byte
  addresses to 32-bit words; the host reaches device address \<open>X\<close> at \<open>0x100000000 | X\<close>.
\<close>

section \<open>Layout\<close>

definition TT_N :: u32 where "TT_N = 4096"
definition TT_A_ADDR :: u32 where "TT_A_ADDR = 0x1F000000"
definition TT_B_ADDR :: u32 where "TT_B_ADDR = 0x1F010000"
definition TT_C_ADDR :: u32 where "TT_C_ADDR = 0x1F020000"
definition TT_ARGS_ADDR :: u32 where "TT_ARGS_ADDR = 0x1F0F0000"
definition TT_OCCUPANCY :: int where "TT_OCCUPANCY = 3"
definition TT_POISON :: u32 where "TT_POISON = 0xDEADBEEF"

record tt_args =
  tt_a :: u32
  tt_b :: u32
  tt_c :: u32
  tt_n :: u32

definition read_args :: "words \<Rightarrow> u32 \<Rightarrow> tt_args" where
  "read_args m p = \<lparr>tt_a = m p, tt_b = m (p + 4), tt_c = m (p + 8), tt_n = m (p + 12)\<rparr>"

section \<open>The kernel\<close>

text \<open>The grid-stride loop: the indices one thread visits, with \<open>fuel\<close> for its iterations.\<close>

fun grid_stride :: "nat \<Rightarrow> u32 \<Rightarrow> u32 \<Rightarrow> u32 \<Rightarrow> u32 list option" where
  "grid_stride 0 i n stride = (if i < n then None else Some [])"
| "grid_stride (Suc fuel) i n stride =
     (if i < n then map_option (\<lambda>is. i # is) (grid_stride fuel (i + stride) n stride) else Some [])"

text \<open>One element, \<open>c[i] = a[i] + b[i]\<close>, as the addresses of its three words.\<close>

type_synonym element = "u32 \<times> u32 \<times> u32"

fun add_element :: "element \<Rightarrow> words \<Rightarrow> words" where
  "add_element (pa, pb, pc) m = m(pc := m pa + m pb)"

definition vecadd_entry :: "words \<Rightarrow> u32 \<Rightarrow> u32 \<Rightarrow> u32 \<Rightarrow> element list option" where
  "vecadd_entry m raw_args tid_in_threadblock threads_per_threadblock =
     (let args = read_args m raw_args
      in map_option (map (\<lambda>i. (tt_a args + 4 * i, tt_b args + 4 * i, tt_c args + 4 * i)))
           (grid_stride (unat (tt_n args)) tid_in_threadblock (tt_n args) threads_per_threadblock))"

text \<open>The element operations of all threads that \<open>main\<close> of the two cores starts.\<close>

definition kernel_elements :: "simt \<Rightarrow> words \<Rightarrow> element list option" where
  "kernel_elements hw m = do {
     calls \<leftarrow> mu_launch hw 1 () TT_ARGS_ADDR TT_OCCUPANCY;
     traverse (\<lambda>c. case c of MuCall _ args tid threads _ \<Rightarrow> vecadd_entry m args (word_of_int tid) (word_of_int threads)) calls }"

text \<open>
  What the GPU does to memory when the element operations happen in the order \<open>ops\<close>: after them
  the epilogue drains the caches of both cores, with stores to its scratch windows.
\<close>

definition store_all :: "(u32 \<times> u32) list \<Rightarrow> words \<Rightarrow> words" where
  "store_all = fold (\<lambda>(p, v) m. m(p := v))"

definition gpu_effect :: "element list \<Rightarrow> words \<Rightarrow> words" where
  "gpu_effect ops m = store_all (epilogue_stores 0 @ epilogue_stores 1) (fold add_element ops m)"

section \<open>The host\<close>

definition a_value :: "u32 \<Rightarrow> u32" where "a_value i = i * 3"
definition b_value :: "u32 \<Rightarrow> u32" where "b_value i = 0x10000 + i"

definition rad_gpu_ptr :: "u32 \<Rightarrow> u64" where
  "rad_gpu_ptr device_addr = rad_device_to_host_address device_addr"

text \<open>Words of a pointer of the host, \<open>p[i]\<close>.\<close>

definition host_put :: "u64 \<Rightarrow> u32 \<Rightarrow> u32 \<Rightarrow> words \<Rightarrow> words" where
  "host_put p i v m = m(ucast (p + 4 * ucast i) := v)"

definition host_get :: "u64 \<Rightarrow> u32 \<Rightarrow> words \<Rightarrow> u32" where
  "host_get p i m = m (ucast (p + 4 * ucast i))"

definition write_element :: "u32 \<Rightarrow> words \<Rightarrow> words" where
  "write_element i m =
     (let m = host_put (rad_gpu_ptr TT_A_ADDR) i (a_value i) m;
          m = host_put (rad_gpu_ptr TT_B_ADDR) i (b_value i) m
      in host_put (rad_gpu_ptr TT_C_ADDR) i TT_POISON m)"

definition write_inputs :: "words \<Rightarrow> words" where
  "write_inputs m =
     (let args = rad_gpu_ptr TT_ARGS_ADDR;
          m = host_put args 0 TT_A_ADDR m;
          m = host_put args 1 TT_B_ADDR m;
          m = host_put args 2 TT_C_ADDR m;
          m = host_put args 3 TT_N m
      in fold write_element (map of_nat [0..<unat TT_N]) m)"

text \<open>The checking loop: \<open>wrong\<close>, \<open>poison\<close> and \<open>first_bad\<close>.\<close>

definition check_step :: "words \<Rightarrow> u32 \<Rightarrow> u32 \<times> u32 \<times> u32 \<Rightarrow> u32 \<times> u32 \<times> u32" where
  "check_step m i s =
     (let (wrong, poison, first_bad) = s; got = host_get (rad_gpu_ptr TT_C_ADDR) i m
      in if got = a_value i + b_value i then s
         else (wrong + 1, poison + (if got = TT_POISON then 1 else 0), if wrong = 0 then i else first_bad))"

definition check_result :: "words \<Rightarrow> u32 \<times> u32 \<times> u32" where
  "check_result m = fold (check_step m) (map of_nat [0..<unat TT_N]) (0, 0, 0)"

definition report_bad :: "words \<Rightarrow> u32 \<Rightarrow> u32 \<Rightarrow> u8 list \<Rightarrow> u8 list option" where
  "report_bad m wrong first_bad buf =
     (if wrong \<noteq> 0 then do {
        buf \<leftarrow> rad_putu (ucast first_bad) (rad_puts (map ascii '' first_bad=C['') buf);
        let buf = rad_putx (host_get (rad_gpu_ptr TT_C_ADDR) first_bad m) (rad_puts (map ascii '']='') buf);
        Some (rad_putx (a_value first_bad + b_value first_bad) (rad_puts (map ascii '' expected '') buf)) }
      else Some buf)"

text \<open>\<open>main\<close> of \<open>host.cpp\<close>, with the effect of the GPU on memory: the console output and the
  exit code.\<close>

definition template_main ::
    "(nat \<Rightarrow> nat \<Rightarrow> u32) \<Rightarrow> u64 \<Rightarrow> (words \<Rightarrow> words) \<Rightarrow> words \<Rightarrow> (u8 list \<times> int) option" where
  "template_main obs cycles gpu m = do {
     buf \<leftarrow> rad_putu (ucast TT_N) (rad_puts (map ascii ''Hello from Rocket: tapeout template, vecadd of '') []);
     let (hello, buf) = rad_flush (rad_puts (map ascii '' words'' @ [10]) buf);
     let m = gpu (write_inputs m);
     (ran, status, buf) \<leftarrow> rad_host_run obs cycles buf;
     let (wrong, poison, first_bad) = check_result m;
     buf \<leftarrow> rad_putu (ucast wrong) (rad_puts (map ascii ''check: wrong='') buf);
     buf \<leftarrow> rad_putu (ucast TT_N) (rad_puts (map ascii ''/'') buf);
     buf \<leftarrow> rad_putu (ucast poison) (rad_puts (map ascii '' still_poison='') buf);
     buf \<leftarrow> report_bad m wrong first_bad buf;
     let pass = (ran \<and> wrong = 0);
     let (verdict, buf) = rad_flush (rad_puts (if pass then 10 # map ascii ''PASS'' @ [10] else 10 # map ascii ''FAIL'' @ [10]) buf);
     Some (hello @ status @ verdict, if pass then 0 else 1)
   }"

section \<open>Words of a buffer\<close>

lemma ucast_host_word: "(ucast (rad_gpu_ptr X + 4 * ucast i) :: u32) = X + 4 * i"
proof -
  have "(ucast (ucast X OR 0x100000000 :: u64) :: u32) = X"
  proof -
    have z: "(4294967296 :: u32) = 0" by code_simp
    show ?thesis by (simp add: unsigned_or_eq, simp only: z or.right_neutral)
  qed
  then show ?thesis
    by (simp add: rad_gpu_ptr_def rad_device_to_host_address_def ucast_narrow_add ucast_narrow_mult)
qed

lemma host_word [simp]: "host_put (rad_gpu_ptr X) i v m = m(X + 4 * i := v)"
  "host_get (rad_gpu_ptr X) i m = m (X + 4 * i)"
  by (simp_all only: host_put_def host_get_def ucast_host_word)

lemma element_address:
  assumes "i < 4096" "unat X + 16384 \<le> 2 ^ 32"
  shows "unat (X + 4 * of_nat i :: u32) = unat X + 4 * i"
proof -
  have "unat (4 * of_nat i :: u32) = 4 * i"
    using unat_of_nat_exact [of "4 * i"] assms by simp
  then show ?thesis using assms by (intro unat_add_exact) auto
qed

lemma store_all_simps [simp]: "store_all [] m = m" "store_all (s # ss) m = store_all ss (m(fst s := snd s))"
  by (simp_all add: store_all_def case_prod_beta)

lemma store_all_append: "store_all (xs @ ys) m = store_all ys (store_all xs m)"
  by (simp add: store_all_def)

lemma store_all_other: "p \<notin> fst ` set ss \<Longrightarrow> store_all ss m p = m p"
  by (induction ss arbitrary: m) auto

lemma store_all_same: "p \<in> fst ` set ss \<Longrightarrow> (\<And>w. (p, w) \<in> set ss \<Longrightarrow> w = v) \<Longrightarrow> store_all ss m p = v"
proof (induction ss arbitrary: m)
  case (Cons s ss)
  show ?case
  proof (cases "p \<in> fst ` set ss")
    case True
    then show ?thesis using Cons by auto
  next
    case False
    then have "s = (p, v)" using Cons.prems by (cases s) auto
    then show ?thesis using store_all_other [OF False] by simp
  qed
qed simp

section \<open>The grid-stride loop\<close>

definition residues :: "nat \<Rightarrow> nat \<Rightarrow> nat \<Rightarrow> nat list" where
  "residues n s t = filter (\<lambda>j. j mod s = t) [0..<n]"

lemma stride_filter:
  assumes "i < n" "0 < s"
  shows "filter (\<lambda>j. i \<le> j \<and> j mod s = i mod s) [0..<n] = i # filter (\<lambda>j. i + s \<le> j \<and> j mod s = (i + s) mod s) [0..<n]"
proof -
  have split: "[0..<n] = [0..<i] @ i # [Suc i..<n]"
    using assms(1) upt_add_eq_append [of 0 i "n - i"] upt_conv_Cons [of i n] by simp
  have "i + s \<le> j" if "i < j" "j mod s = i mod s" for j
  proof -
    have "s dvd j - i" using that by (metis less_imp_le_nat mod_eq_dvd_iff_nat)
    then have "s \<le> j - i" using that(1) by (intro dvd_imp_le) auto
    then show ?thesis using that(1) by simp
  qed
  then have "filter (\<lambda>j. i \<le> j \<and> j mod s = i mod s) [Suc i..<n] = filter (\<lambda>j. i + s \<le> j \<and> j mod s = (i + s) mod s) [Suc i..<n]"
    by (intro filter_cong refl) auto
  moreover have "filter (\<lambda>j. i + s \<le> j \<and> j mod s = (i + s) mod s) [0..<i] = []"
    "filter (\<lambda>j. i \<le> j \<and> j mod s = i mod s) [0..<i] = []"
    by (auto simp: filter_empty_conv)
  ultimately show ?thesis using assms(2) unfolding split by simp
qed

lemma grid_stride_from:
  assumes "0 < s" "n + s < 2 ^ 32" "i \<le> n + s" "n \<le> fuel + i"
  shows "grid_stride fuel (of_nat i) (of_nat n) (of_nat s)
    = Some (map of_nat (filter (\<lambda>j. i \<le> j \<and> j mod s = i mod s) [0..<n]))"
  using assms(3,4)
proof (induction fuel arbitrary: i)
  case 0
  have "\<not> (of_nat i :: u32) < of_nat n"
    using 0 assms(2) by (simp add: word_less_nat_alt unat_of_nat_exact)
  moreover have "filter (\<lambda>j. i \<le> j \<and> j mod s = i mod s) [0..<n] = []" using 0 by (auto simp: filter_empty_conv)
  ultimately show ?case by simp
next
  case (Suc fuel)
  have lt: "(of_nat i :: u32) < of_nat n \<longleftrightarrow> i < n"
    using Suc.prems assms(2) by (simp add: word_less_nat_alt unat_of_nat_exact)
  show ?case
  proof (cases "i < n")
    case True
    have "grid_stride fuel (of_nat (i + s)) (of_nat n) (of_nat s)
        = Some (map of_nat (filter (\<lambda>j. i + s \<le> j \<and> j mod s = (i + s) mod s) [0..<n]))"
      using True Suc.prems assms(1) by (intro Suc.IH) auto
    then show ?thesis using True lt stride_filter [OF True assms(1)] by simp
  next
    case False
    then have "filter (\<lambda>j. i \<le> j \<and> j mod s = i mod s) [0..<n] = []" by (auto simp: filter_empty_conv)
    then show ?thesis using False lt by simp
  qed
qed

lemma grid_stride_thread:
  assumes "t < s" "n + s < 2 ^ 32"
  shows "grid_stride n (of_nat t) (of_nat n) (of_nat s) = Some (map of_nat (residues n s t))"
proof -
  have "filter (\<lambda>j. t \<le> j \<and> j mod s = t mod s) [0..<n] = residues n s t"
    unfolding residues_def by (rule filter_cong [OF refl]) (use assms in \<open>auto intro: mod_less_eq_dividend order_trans\<close>)
  then show ?thesis using grid_stride_from [of s n t n] assms by simp
qed

lemma residues_cover: "mset (concat (map (residues n s) [0..<s])) = mset [0..<n]" if "0 < s"
proof (rule set_eq_iff_mset_eq_distinct [THEN iffD1])
  have "distinct (concat (map (residues n s) ts))" if "distinct ts" for ts
    using that by (induction ts) (auto simp: residues_def)
  then show "distinct (concat (map (residues n s) [0..<s]))" by simp
  show "set (concat (map (residues n s) [0..<s])) = set [0..<n]"
    using that by (auto simp: residues_def)
qed simp

section \<open>The inputs\<close>

lemmas TT_addrs = TT_A_ADDR_def TT_B_ADDR_def TT_C_ADDR_def TT_ARGS_ADDR_def

definition word_at :: "u32 \<Rightarrow> nat \<Rightarrow> u32" where "word_at X i = X + 4 * of_nat i"

lemma word_at_unat:
  "i < 4096 \<Longrightarrow> X \<in> {TT_A_ADDR, TT_B_ADDR, TT_C_ADDR} \<Longrightarrow> unat (word_at X i) = unat X + 4 * i"
  unfolding word_at_def by (rule element_address) (auto simp: TT_addrs)

lemma word_at_eq:
  assumes "i < 4096" "j < 4096" "X \<in> {TT_A_ADDR, TT_B_ADDR, TT_C_ADDR}" "Y \<in> {TT_A_ADDR, TT_B_ADDR, TT_C_ADDR}"
  shows "word_at X i = word_at Y j \<longleftrightarrow> X = Y \<and> i = j"
proof
  assume "word_at X i = word_at Y j"
  then have "unat X + 4 * i = unat Y + 4 * j" using word_at_unat assms by metis
  then show "X = Y \<and> i = j" using assms by (auto simp: TT_addrs)
qed simp

lemma word_at_args:
  assumes "i < 4096" "X \<in> {TT_A_ADDR, TT_B_ADDR, TT_C_ADDR}" "p \<in> {TT_ARGS_ADDR, TT_ARGS_ADDR + 4, TT_ARGS_ADDR + 8, TT_ARGS_ADDR + 12}"
  shows "word_at X i \<noteq> p"
proof
  assume "word_at X i = p"
  then have "unat p = unat X + 4 * i" using word_at_unat [OF assms(1,2)] by simp
  then show False using assms by (auto simp: TT_addrs)
qed

definition input_stores :: "nat list \<Rightarrow> (u32 \<times> u32) list" where
  "input_stores is = concat (map (\<lambda>i. [(word_at TT_A_ADDR i, a_value (of_nat i)), (word_at TT_B_ADDR i, b_value (of_nat i)),
     (word_at TT_C_ADDR i, TT_POISON)]) is)"

lemma write_elements: "fold write_element (map of_nat is) m = store_all (input_stores is) m"
  by (induction "is" arbitrary: m) (simp_all add: input_stores_def write_element_def Let_def word_at_def)

lemma write_inputs_eq:
  "write_inputs m = store_all (input_stores [0..<4096])
     (m(TT_ARGS_ADDR := TT_A_ADDR, TT_ARGS_ADDR + 4 := TT_B_ADDR, TT_ARGS_ADDR + 8 := TT_C_ADDR, TT_ARGS_ADDR + 12 := TT_N))"
  by (simp add: write_inputs_def Let_def write_elements TT_N_def del: upt_rec_numeral)

lemma inputs_written:
  assumes "i < 4096"
  shows "write_inputs m (word_at TT_A_ADDR i) = a_value (of_nat i)" "write_inputs m (word_at TT_B_ADDR i) = b_value (of_nat i)"
proof -
  have ne: "TT_A_ADDR \<noteq> TT_B_ADDR" "TT_A_ADDR \<noteq> TT_C_ADDR" "TT_B_ADDR \<noteq> TT_C_ADDR" by (simp_all add: TT_addrs)
  show "write_inputs m (word_at TT_A_ADDR i) = a_value (of_nat i)" "write_inputs m (word_at TT_B_ADDR i) = b_value (of_nat i)"
    unfolding write_inputs_eq
    by (rule store_all_same; use assms ne in \<open>force simp: input_stores_def word_at_eq simp del: upt_rec_numeral\<close>)+
qed

lemma args_written: "read_args (write_inputs m) TT_ARGS_ADDR
  = \<lparr>tt_a = TT_A_ADDR, tt_b = TT_B_ADDR, tt_c = TT_C_ADDR, tt_n = TT_N\<rparr>"
proof -
  have "p \<notin> fst ` set (input_stores [0..<4096])"
    if "p \<in> {TT_ARGS_ADDR, TT_ARGS_ADDR + 4, TT_ARGS_ADDR + 8, TT_ARGS_ADDR + 12}" for p
    using word_at_args [OF _ _ that] by (force simp: input_stores_def simp del: upt_rec_numeral)
  then show ?thesis by (simp add: read_args_def write_inputs_eq store_all_other)
qed

section \<open>The kernel's operations\<close>

definition element_at :: "nat \<Rightarrow> element" where
  "element_at i = (word_at TT_A_ADDR i, word_at TT_B_ADDR i, word_at TT_C_ADDR i)"

lemma upto_int: "[0..int n - 1] = map int [0..<n]"
  by (induction n) (simp_all add: upto_rec2)

lemma entry_elements:
  assumes "t < 96"
  shows "vecadd_entry (write_inputs m) TT_ARGS_ADDR (of_nat t) 96 = Some (map element_at (residues 4096 96 t))"
  using grid_stride_thread [of t 96 4096] assms
  by (simp add: vecadd_entry_def args_written TT_N_def element_at_def word_at_def comp_def)

text \<open>What the threads of a launch on one cluster visit when each runs a grid-stride loop.\<close>

lemma launch_visits:
  assumes hw: "simt_isa hw" and occ: "1 \<le> occ" "occ \<le> 8"
    and entry: "\<And>t. t < 32 * occ \<Longrightarrow> E (MuCall cb a (int t) (32 * int occ) 0) = Some (map g (residues n (32 * occ) t))"
  shows "\<exists>calls prog. mu_launch hw 1 cb a (int occ) = Some calls \<and> traverse E calls = Some prog \<and> mset prog = mset (map g [0..<n])"
proof -
  define s where "s = 32 * occ"
  have s: "int s = 32 * int occ" "0 < s" using occ by (simp_all add: s_def)
  let ?call = "\<lambda>t. MuCall cb a t (32 * int occ) 0"
  let ?g = "\<lambda>c. map g (residues n s (nat (mu_tid c)))"
  obtain calls where calls: "mu_launch hw 1 cb a (int occ) = Some calls" "mset calls = mset (block ?call 0 (int s))"
    using simt_isa.mu_launch_calls [OF hw, of "int occ" 1 cb a] occ s by auto
  have b: "block ?call 0 (int s) = map (\<lambda>t. ?call (int t)) [0..<s]" using upto_int [of s] by (simp add: block_def)
  have "\<exists>prog. traverse E calls = Some prog \<and> mset prog = mset (concat (map ?g (map (\<lambda>t. ?call (int t)) [0..<s])))"
  proof (rule traverse_mset)
    show "mset calls = mset (map (\<lambda>t. ?call (int t)) [0..<s])" using calls(2) b by simp
  next
    fix y assume "y \<in> set (map (\<lambda>t. ?call (int t)) [0..<s])"
    then obtain t where "y = ?call (int t)" "t < s" by auto
    then show "\<exists>cs. E y = Some cs \<and> mset cs = mset (?g y)" using entry [of t] by (simp add: s_def)
  qed
  moreover have "concat (map ?g (map (\<lambda>t. ?call (int t)) [0..<s])) = map g (concat (map (residues n s) [0..<s]))"
    by (simp add: map_concat comp_def)
  ultimately show ?thesis using calls(1) residues_cover [OF s(2), of n] by (metis mset_map)
qed

lemma kernel_elements_cover:
  assumes "simt_isa hw"
  shows "\<exists>prog. kernel_elements hw (write_inputs m) = Some prog \<and> mset prog = mset (map element_at [0..<4096])"
proof -
  let ?entry = "\<lambda>c. case c of MuCall _ args tid threads _ \<Rightarrow> vecadd_entry (write_inputs m) args (word_of_int tid) (word_of_int threads)"
  have "?entry (MuCall () TT_ARGS_ADDR (int t) (32 * int 3) 0) = Some (map element_at (residues 4096 (32 * 3) t))" if "t < 32 * 3" for t
    using entry_elements [of t m] that by simp
  from launch_visits [OF assms _ _ this] show ?thesis
    by (auto simp: kernel_elements_def TT_OCCUPANCY_def)
qed

section \<open>The result\<close>

lemma fold_elements:
  assumes "\<And>pa pb pc. (pa, pb, pc) \<in> set ops \<Longrightarrow> pa \<notin> C \<and> pb \<notin> C \<and> pc \<in> C"
  shows "p \<notin> C \<Longrightarrow> fold add_element ops m p = m p"
    and "(pa, pb, pc) \<in> set ops \<Longrightarrow> (\<And>qa qb. (qa, qb, pc) \<in> set ops \<Longrightarrow> qa = pa \<and> qb = pb)
      \<Longrightarrow> fold add_element ops m pc = m pa + m pb"
proof -
  have frame: "q \<notin> C \<Longrightarrow> fold add_element os m q = m q" if "set os \<subseteq> set ops" for os q m
    using that
  proof (induction os arbitrary: m)
    case (Cons o' os)
    obtain a b c where o: "o' = (a, b, c)" by (cases o')
    then have "c \<in> C" using Cons.prems assms by auto
    then show ?case using Cons o by auto
  qed simp
  show "p \<notin> C \<Longrightarrow> fold add_element ops m p = m p" using frame by simp
  assume el: "(pa, pb, pc) \<in> set ops" and same: "\<And>qa qb. (qa, qb, pc) \<in> set ops \<Longrightarrow> qa = pa \<and> qb = pb"
  have "\<exists>x \<in> set ops. snd (snd x) = pc" using el by (intro bexI [OF _ el]) simp
  from split_list_last_prop [OF this] obtain xs x ys
    where x: "ops = xs @ x # ys" "snd (snd x) = pc" and ys: "\<forall>y \<in> set ys. snd (snd y) \<noteq> pc" by blast
  obtain qa qb where "x = (qa, qb, pc)" using x(2) by (cases x) auto
  then have split: "ops = xs @ (pa, pb, pc) # ys" using x(1) same [of qa qb] by simp
  have later: "fold add_element os m' pc = m' pc" if "\<forall>y \<in> set os. snd (snd y) \<noteq> pc" for os m'
    using that by (induction os arbitrary: m') (auto simp: fun_upd_apply)
  have "pa \<notin> C" "pb \<notin> C" using assms [OF el] by auto
  then have "fold add_element xs m pa = m pa" "fold add_element xs m pb = m pb"
    using frame [of xs] split by auto
  then show "fold add_element ops m pc = m pa + m pb"
    using split later [OF ys] by simp
qed

lemma elements_apart:
  assumes "i < 4096"
  shows "word_at TT_A_ADDR i \<notin> word_at TT_C_ADDR ` {..<4096}" "word_at TT_B_ADDR i \<notin> word_at TT_C_ADDR ` {..<4096}"
proof -
  have "TT_A_ADDR \<noteq> TT_C_ADDR" "TT_B_ADDR \<noteq> TT_C_ADDR" by (simp_all add: TT_addrs)
  then show "word_at TT_A_ADDR i \<notin> word_at TT_C_ADDR ` {..<4096}" "word_at TT_B_ADDR i \<notin> word_at TT_C_ADDR ` {..<4096}"
    using assms by (auto simp: word_at_eq)
qed

lemma vecadd_result:
  assumes ops: "set ops = set (map element_at [0..<4096])" and i: "i < 4096"
  shows "fold add_element ops m (word_at TT_C_ADDR i) = m (word_at TT_A_ADDR i) + m (word_at TT_B_ADDR i)"
proof (rule fold_elements(2) [where C = "word_at TT_C_ADDR ` {..<4096}"])
  show "pa \<notin> word_at TT_C_ADDR ` {..<4096} \<and> pb \<notin> word_at TT_C_ADDR ` {..<4096} \<and> pc \<in> word_at TT_C_ADDR ` {..<4096}"
    if "(pa, pb, pc) \<in> set ops" for pa pb pc
  proof -
    obtain j where "j < 4096" "(pa, pb, pc) = element_at j" using \<open>(pa, pb, pc) \<in> set ops\<close> by (auto simp: ops simp del: upt_rec_numeral)
    then show ?thesis using elements_apart [of j] by (simp add: element_at_def)
  qed
  show "(word_at TT_A_ADDR i, word_at TT_B_ADDR i, word_at TT_C_ADDR i) \<in> set ops"
    using i by (auto simp: ops element_at_def simp del: upt_rec_numeral)
  show "qa = word_at TT_A_ADDR i \<and> qb = word_at TT_B_ADDR i" if "(qa, qb, word_at TT_C_ADDR i) \<in> set ops" for qa qb
    using that i by (auto simp: ops element_at_def word_at_eq simp del: upt_rec_numeral)
qed

text \<open>The scratch windows of the drains are clear of the buffers.\<close>

lemma epilogue_clear:
  assumes "i < 4096" "c < 2"
  shows "word_at TT_C_ADDR i \<notin> fst ` set (epilogue_stores c)"
proof
  assume "word_at TT_C_ADDR i \<in> fst ` set (epilogue_stores c)"
  then obtain s where s: "s \<in> set (rad_l0d_drain (of_nat c)) \<union> set (rad_l1_drain (of_nat c))" "word_at TT_C_ADDR i = fst s"
    by (auto simp only: epilogue_stores_def set_append)
  have "\<forall>s \<in> set (rad_l0d_drain (of_nat c)) \<union> set (rad_l1_drain (of_nat c)). 0x1F200000 \<le> unat (fst s)"
    using drain_windows_disjoint [OF assms(2) assms(2), THEN conjunct1] by blast
  then have "0x1F200000 \<le> unat (word_at TT_C_ADDR i)" using s by simp
  then show False using word_at_unat [OF assms(1), of TT_C_ADDR] assms(1) by (simp add: TT_C_ADDR_def)
qed

lemma gpu_result:
  assumes "set ops = set (map element_at [0..<4096])" "i < 4096"
  shows "gpu_effect ops m (word_at TT_C_ADDR i) = m (word_at TT_A_ADDR i) + m (word_at TT_B_ADDR i)"
proof -
  have "word_at TT_C_ADDR i \<notin> fst ` set (epilogue_stores 0 @ epilogue_stores 1)"
    using epilogue_clear [OF assms(2), of 0] epilogue_clear [OF assms(2), of 1] by auto
  then show ?thesis using vecadd_result [OF assms] by (simp add: gpu_effect_def store_all_other)
qed

section \<open>The check\<close>

definition bad :: "words \<Rightarrow> nat \<Rightarrow> bool" where
  "bad m i \<longleftrightarrow> m (word_at TT_C_ADDR i) \<noteq> a_value (of_nat i) + b_value (of_nat i)"

lemma check_step_bad: "check_step m (of_nat i) (w, p, f) =
  (if bad m i then (w + 1, p + (if m (word_at TT_C_ADDR i) = TT_POISON then 1 else 0), if w = 0 then of_nat i else f)
   else (w, p, f))"
  by (simp add: check_step_def Let_def bad_def word_at_def)

lemma check_prefix:
  "n \<le> 4096 \<Longrightarrow> fold (check_step m) (map of_nat [0..<n]) (0, 0, 0) =
    (let bads = filter (bad m) [0..<n]
     in (of_nat (length bads), of_nat (length (filter (\<lambda>i. m (word_at TT_C_ADDR i) = TT_POISON) bads)),
         if bads = [] then 0 else of_nat (hd bads)))"
proof (induction n)
  case (Suc n)
  have "length (filter (bad m) [0..<n]) \<le> n" using length_filter_le [of "bad m" "[0..<n]"] by simp
  then have "(of_nat (length (filter (bad m) [0..<n])) = (0 :: u32)) = (filter (bad m) [0..<n] = [])"
    using Suc.prems unat_of_nat_exact [of "length (filter (bad m) [0..<n])"] unat_eq_zero [of "of_nat (length (filter (bad m) [0..<n])) :: u32"]
    by simp
  then show ?case using Suc by (simp add: check_step_bad Let_def hd_append)
qed simp

lemma check_result_zero: "fst (check_result m) = 0 \<longleftrightarrow> (\<forall>i<4096. \<not> bad m i)"
proof -
  have "length (filter (bad m) [0..<4096]) \<le> 4096" using length_filter_le [of "bad m" "[0..<4096]"] by simp
  then have "(of_nat (length (filter (bad m) [0..<4096])) = (0 :: u32)) = (filter (bad m) [0..<4096] = [])"
    using unat_of_nat_exact [of "length (filter (bad m) [0..<4096])"] unat_eq_zero [of "of_nat (length (filter (bad m) [0..<4096])) :: u32"]
    by (simp del: upt_rec_numeral)
  then show ?thesis
    using check_prefix [of 4096 m] by (auto simp: check_result_def TT_N_def Let_def filter_empty_conv simp del: upt_rec_numeral)
qed

section \<open>Properties\<close>

definition hello_text :: "u8 list" where
  "hello_text = map ascii ''Hello from Rocket: tapeout template, vecadd of 4096 words'' @ [10]"

definition pass_text :: "u8 list" where
  "pass_text = map ascii ''check: wrong=0/4096 still_poison=0'' @ [10] @ map ascii ''PASS'' @ [10]"

lemma decimal_4096: "host_decimal 4096 = [52, 48, 57, 54]" "host_decimal 0 = [48]"
  by code_simp+

lemma report_bad_some: "\<exists>b. report_bad m w f buf = Some b"
  by (simp add: report_bad_def rad_putu_eq)

lemma host_run_empty: "\<exists>complete status. rad_host_run obs cycles [] = Some (complete, status, [])"
  using host_run_line [of "[]" obs cycles] by auto

lemma template_main_code:
  assumes "rad_host_run obs cycles [] = Some (complete, status, [])"
  shows "\<exists>con. template_main obs cycles gpu m = Some (con, if complete \<and> (\<forall>i<4096. \<not> bad (gpu (write_inputs m)) i) then 0 else 1)"
proof -
  obtain w p f where c: "check_result (gpu (write_inputs m)) = (w, p, f)" by (cases "check_result (gpu (write_inputs m))")
  then have w: "w = 0 \<longleftrightarrow> (\<forall>i<4096. \<not> bad (gpu (write_inputs m)) i)" using check_result_zero [of "gpu (write_inputs m)"] by simp
  show ?thesis
    using report_bad_some assms
    by (auto simp: template_main_def rad_putu_eq rad_flush_def c w Let_def split: Option.bind_split) (metis option.distinct(1))+
qed

text \<open>C32: Whatever the GPU does to memory, the host program ends, and its exit code is 0 exactly
  when the run was complete and every word of the result is right.\<close>

theorem template_verdict_exact:
  "\<exists>complete status con. rad_host_run obs cycles [] = Some (complete, status, [])
    \<and> template_main obs cycles gpu m = Some (con,
        if complete \<and> (\<forall>i<4096. gpu (write_inputs m) (TT_C_ADDR + 4 * of_nat i) = a_value (of_nat i) + b_value (of_nat i)) then 0 else 1)"
proof -
  obtain complete status where r: "rad_host_run obs cycles [] = Some (complete, status, [])" using host_run_empty by blast
  from template_main_code [OF r, of gpu m] r show ?thesis unfolding bad_def word_at_def not_not by blast
qed


text \<open>A run in which both cores acknowledge the launch and finish at once.\<close>

lemma host_can_complete: "\<exists>obs status. rad_host_run obs cycles [] = Some (True, status, [])"
proof -
  define obs :: "nat \<Rightarrow> nat \<Rightarrow> u32" where
    "obs t i = (if t < NC then 0 else if i < RAD_PB_EPI_START then RAD_EPI_DONE_MAGIC else RAD_EPI_NEXT_GEN 0)" for t i
  have "sweep obs NC RAD_PB_EPI_START (expect obs) NC = NC"
    unfolding sweep_all by (simp add: obs_def expect_def RAD_PB_EPI_START_def)
  then have "poll obs NC RAD_PB_EPI_START (expect obs) START_POLLS 0 NC = (NC, NC + NC)"
    by (simp add: START_POLLS_def poll_rec)
  moreover have "sweep obs NC RAD_PB_EPI_CORE (\<lambda>_. RAD_EPI_DONE_MAGIC) (NC + NC) = NC"
    unfolding sweep_all by (auto simp: obs_def RAD_PB_EPI_CORE_def RAD_PB_EPI_START_def)
  then have "poll obs NC RAD_PB_EPI_CORE (\<lambda>_. RAD_EPI_DONE_MAGIC) DONE_POLLS 0 (NC + NC) = (NC, NC + NC + NC)"
    by (simp add: DONE_POLLS_def poll_rec)
  ultimately have w: "host_wait obs = (NC, NC, NC + NC + NC)" by (simp add: host_wait_def rad_host_wait_epilogue_def)
  have "\<exists>status. rad_host_run obs cycles [] = Some (True, status, [])"
    by (simp add: rad_host_run_def w host_line_eq rad_flush_def)
  then show ?thesis by blast
qed

theorem template_verdict_exact_witness:
  "\<exists>con. template_main (\<lambda>_ _. 0) 7 (\<lambda>m _. 0) (\<lambda>_. 0) = Some (con, 1)"
proof -
  have "\<not> (\<forall>i<4096. (0 :: u32) = a_value (of_nat i) + b_value (of_nat i))"
    by (intro notI, drule spec [of _ 0]) (simp add: a_value_def b_value_def)
  then show ?thesis using template_verdict_exact [of "\<lambda>_ _. 0" 7 "\<lambda>m _. 0" "\<lambda>_. 0"] by auto
qed


end
