(* ===== verification/Vx_Libc.thy ===== *)
theory Vx_Libc
  imports Prelude
begin

text \<open>
  The C runtime of the kernels, \<open>src/lib/src/vx_syscalls.c\<close>: \<open>memset\<close> and \<open>memcpy\<close>, the
  initialisation of thread-local storage, the constructor and destructor arrays, and the system
  calls that are stubs.  Memory is a map from addresses to bytes; the addresses that the linker
  provides are arguments.
\<close>

section \<open>Memory\<close>

type_synonym bytes = "u32 \<Rightarrow> u8"

text \<open>The bodies of the \<open>while (num--)\<close> loops.\<close>

primrec memset_loop :: "nat \<Rightarrow> u32 \<Rightarrow> u8 \<Rightarrow> bytes \<Rightarrow> bytes" where
  "memset_loop 0 p v m = m"
| "memset_loop (Suc num) p v m = memset_loop num (p + 1) v (m(p := v))"

definition memset :: "u32 \<Rightarrow> int \<Rightarrow> u32 \<Rightarrow> bytes \<Rightarrow> u32 \<times> bytes" where
  "memset ptr value num m = (ptr, memset_loop (unat num) ptr (word_of_int value) m)"

primrec memcpy_loop :: "nat \<Rightarrow> u32 \<Rightarrow> u32 \<Rightarrow> bytes \<Rightarrow> bytes" where
  "memcpy_loop 0 d s m = m"
| "memcpy_loop (Suc num) d s m = memcpy_loop num (d + 1) (s + 1) (m(d := m s))"

definition memcpy :: "u32 \<Rightarrow> u32 \<Rightarrow> u32 \<Rightarrow> bytes \<Rightarrow> u32 \<times> bytes" where
  "memcpy dest src num m = (dest, memcpy_loop (unat num) dest src m)"

section \<open>Thread-local storage\<close>

record tls_symbols =
  tdata_start :: u32
  tbss_offset :: u32
  tdata_size :: u32
  tbss_size :: u32

definition init_tls :: "tls_symbols \<Rightarrow> u32 \<Rightarrow> bytes \<Rightarrow> bytes" where
  "init_tls S thread_self m =
     (let m = snd (memcpy thread_self (tdata_start S) (tdata_size S) m)
      in snd (memset (thread_self + tbss_offset S) 0 (tbss_size S) m))"

section \<open>Constructors, destructors and exit\<close>

text \<open>What the runtime calls, and with which entry of which array.\<close>

datatype libc_call = Preinit nat | Init nat | Fini nat | Exit int

record libc_arrays =
  preinit_start :: u32
  preinit_end :: u32
  init_start :: u32
  init_end :: u32
  fini_start :: u32
  fini_end :: u32

text \<open>The difference of two pointers to functions, converted to \<open>size_t\<close>.\<close>

definition array_count :: "u32 \<Rightarrow> u32 \<Rightarrow> u32" where
  "array_count start stop = word_of_int (sint (stop - start) sdiv 4)"

definition libc_init_array :: "libc_arrays \<Rightarrow> libc_call list" where
  "libc_init_array L =
     map Preinit [0..<unat (array_count (preinit_start L) (preinit_end L))]
     @ map Init [0..<unat (array_count (init_start L) (init_end L))]"

text \<open>\<open>for (i = count; i > 0; i--) __fini_array_start[i-1] ()\<close>\<close>

primrec fini_loop :: "nat \<Rightarrow> libc_call list" where
  "fini_loop 0 = []"
| "fini_loop (Suc i) = Fini i # fini_loop i"

definition libc_fini_array :: "libc_arrays \<Rightarrow> libc_call list" where
  "libc_fini_array L = fini_loop (unat (array_count (fini_start L) (fini_end L)))"

definition libc_exit :: "libc_arrays \<Rightarrow> int \<Rightarrow> libc_call list" where
  "libc_exit L return_code = libc_fini_array L @ [Exit return_code]"

definition libc_init :: "libc_arrays \<Rightarrow> libc_call list" where
  "libc_init L = libc_init_array L"

section \<open>Stubs\<close>

definition close_stub :: "int \<Rightarrow> int" where "close_stub file = - 1"
definition fstat_stub :: "int \<Rightarrow> int" where "fstat_stub file = - 1"
definition isatty_stub :: "int \<Rightarrow> int" where "isatty_stub file = 0"
definition lseek_stub :: "int \<Rightarrow> int \<Rightarrow> int \<Rightarrow> int" where "lseek_stub file ptr dir = 0"
definition open_stub :: "string \<Rightarrow> int \<Rightarrow> int \<Rightarrow> int" where "open_stub name flags mode = - 1"
definition read_stub :: "int \<Rightarrow> u32 \<Rightarrow> int \<Rightarrow> int" where "read_stub file ptr len = - 1"
definition kill_stub :: "int \<Rightarrow> int \<Rightarrow> int" where "kill_stub pid sig = - 1"
definition getpid_stub :: "int \<Rightarrow> int" where "getpid_stub hart_id = hart_id"

section \<open>The loops, in closed form\<close>

text \<open>The bytes of a region, with addresses that may wrap around.\<close>

definition region :: "u32 \<Rightarrow> nat \<Rightarrow> u32 set" where
  "region p n = (\<lambda>i. p + of_nat i) ` {..<n}"

lemma region_Suc: "region p (Suc n) = insert p (region (p + 1) n)"
proof -
  have "(\<lambda>i. p + of_nat i) ` {..<Suc n} = insert p ((\<lambda>i. p + of_nat (Suc i)) ` {..<n})"
    by (simp add: lessThan_Suc_eq_insert_0 image_image)
  then show ?thesis by (simp add: region_def add.assoc)
qed

lemma region_unat: "a \<in> region p (unat n) \<longleftrightarrow> a - p < n"
proof
  assume "a \<in> region p (unat n)"
  then obtain i where i: "i < unat n" "a = p + of_nat i" by (auto simp: region_def)
  have "unat n < 2 ^ LENGTH(32)" by (rule unsigned_less)
  then have "unat (of_nat i :: u32) = i" using i(1) by (intro unat_of_nat_exact) simp
  then show "a - p < n" using i by (simp add: word_less_nat_alt)
next
  assume "a - p < n"
  then have "unat (a - p) < unat n" by (simp add: word_less_nat_alt)
  moreover have "a = p + of_nat (unat (a - p))" by simp
  ultimately show "a \<in> region p (unat n)" unfolding region_def by blast
qed

lemma memset_loop_eq: "memset_loop n p v m = (\<lambda>a. if a \<in> region p n then v else m a)"
proof (induction n arbitrary: p m)
  case 0
  then show ?case by (simp add: region_def)
next
  case (Suc n)
  then show ?case by (auto simp: region_Suc fun_eq_iff)
qed

lemma memset_eq: "memset ptr value num m = (ptr, \<lambda>a. if a - ptr < num then word_of_int value else m a)"
  by (simp add: memset_def memset_loop_eq region_unat)

text \<open>No byte of the source is overwritten before it is read.\<close>

lemma memcpy_loop_eq:
  assumes "\<And>i j. i < j \<Longrightarrow> j < n \<Longrightarrow> s + of_nat j \<noteq> d + of_nat i" "n \<le> 2 ^ 32"
  shows "memcpy_loop n d s m = (\<lambda>a. if a \<in> region d n then m (s + (a - d)) else m a)"
  using assms
proof (induction n arbitrary: d s m)
  case 0
  then show ?case by (simp add: region_def)
next
  case (Suc n)
  have "s + 1 + of_nat j \<noteq> d + 1 + of_nat i" if "i < j" "j < n" for i j
    using Suc.prems(1) [of "Suc i" "Suc j"] that by (simp add: algebra_simps)
  then have IH: "memcpy_loop n (d + 1) (s + 1) (m(d := m s))
      = (\<lambda>a. if a \<in> region (d + 1) n then (m(d := m s)) (s + 1 + (a - (d + 1))) else (m(d := m s)) a)"
    using Suc.prems(2) by (intro Suc.IH) auto
  have fresh: "s + 1 + (a - (d + 1)) \<noteq> d" if a: "a \<in> region (d + 1) n" for a
  proof -
    obtain i where "i < n" "a = d + 1 + of_nat i" using a by (auto simp: region_def)
    then show ?thesis using Suc.prems(1) [of 0 "Suc i"] by (auto simp: algebra_simps)
  qed
  have wrap: "d \<notin> region (d + 1) n"
  proof
    assume "d \<in> region (d + 1) n"
    then obtain i where i: "i < n" "d = d + 1 + of_nat i" by (auto simp: region_def)
    then have "of_nat (Suc i) = (0 :: u32)" by (simp add: algebra_simps)
    then have "unat (of_nat (Suc i) :: u32) = 0" by simp
    then show False using unat_of_nat_exact [of "Suc i"] i(1) Suc.prems(2) by simp
  qed
  show ?case
    unfolding memcpy_loop.simps IH using fresh wrap
    by (auto simp: region_Suc fun_eq_iff algebra_simps)
qed

text \<open>In particular when the regions are disjoint, or the destination lies below the source.\<close>

lemma memcpy_eq:
  assumes "\<And>i j. i < j \<Longrightarrow> j < unat num \<Longrightarrow> src + of_nat j \<noteq> dest + of_nat i"
  shows "memcpy dest src num m = (dest, \<lambda>a. if a - dest < num then m (src + (a - dest)) else m a)"
proof -
  have "unat num < 2 ^ LENGTH(32)" by (rule unsigned_less)
  then show ?thesis
    using memcpy_loop_eq [OF assms, where m = m] by (simp add: memcpy_def region_unat)
qed

section \<open>Properties\<close>

text \<open>C33: \<open>memcpy\<close> copies every byte of the source to the destination and changes nothing else,
  as long as no source byte is overwritten before it is read; \<open>memset\<close> sets exactly its region.
  Regions may wrap around the end of the address space.\<close>

theorem memcpy_copies:
  assumes "\<forall>i j. i < j \<and> j < unat num \<longrightarrow> src + of_nat j \<noteq> dest + of_nat i"
  shows "memcpy dest src num m = (dest, \<lambda>a. if a - dest < num then m (src + (a - dest)) else m a)
    \<and> memset ptr value num m = (ptr, \<lambda>a. if a - ptr < num then word_of_int value else m a)"
proof
  show "memcpy dest src num m = (dest, \<lambda>a. if a - dest < num then m (src + (a - dest)) else m a)"
    by (rule memcpy_eq) (use assms in blast)
  show "memset ptr value num m = (ptr, \<lambda>a. if a - ptr < num then word_of_int value else m a)"
    by (rule memset_eq)
qed

theorem memcpy_copies_witness:
  "\<forall>m. memcpy 0x100 0x200 3 m = (0x100, \<lambda>a. if a - 0x100 < 3 then m (0x200 + (a - 0x100)) else m a)"
proof (intro allI)
  fix m
  have "(0x200 :: u32) + of_nat j \<noteq> 0x100 + of_nat i" if "i < j" "j < 3" for i j :: nat
  proof -
    have "j = 1 \<or> j = 2" "i = 0 \<or> i = 1" using that by auto
    then show ?thesis by auto
  qed
  then show "memcpy 0x100 0x200 3 m = (0x100, \<lambda>a. if a - 0x100 < 3 then m (0x200 + (a - 0x100)) else m a)" using memcpy_copies [where num = 3 and src = "0x200" and dest = "0x100" and m = m] by simp
qed

text \<open>A fresh thread-local block holds the initialised data, with the part for uninitialised
  data cleared, and the rest of memory is unchanged, when the image of the data lies outside the
  block.\<close>

theorem init_tls_block:
  assumes "\<forall>j<unat (tdata_size S). thread_self + of_nat (unat (tdata_size S)) \<le> tdata_start S + of_nat j
      \<or> tdata_start S + of_nat j < thread_self"
    and "unat thread_self + unat (tdata_size S) < 2 ^ 32"
  shows "init_tls S thread_self m = (\<lambda>a. if a - (thread_self + tbss_offset S) < tbss_size S then 0
    else if a - thread_self < tdata_size S then m (tdata_start S + (a - thread_self)) else m a)"
proof -
  have "tdata_start S + of_nat j \<noteq> thread_self + of_nat i" if "i < j" "j < unat (tdata_size S)" for i j
  proof -
    have i: "unat (of_nat i :: u32) = i" using that assms(2) by (intro unat_of_nat_exact) simp
    have "unat (thread_self + of_nat i) = unat thread_self + i"
      using that assms(2) by (intro unat_add_exact [OF refl i]) simp
    moreover have "unat (thread_self + tdata_size S) = unat thread_self + unat (tdata_size S)"
      using assms(2) by (intro unat_add_exact) auto
    moreover have "thread_self + tdata_size S \<le> tdata_start S + of_nat j \<or> tdata_start S + of_nat j < thread_self"
      using assms(1) that(2) by simp
    ultimately show ?thesis using that by (auto simp: word_le_nat_alt word_less_nat_alt)
  qed
  then show ?thesis by (simp add: init_tls_def memcpy_eq memset_eq cong: if_cong)
qed

theorem init_tls_block_witness:
  "\<forall>m. init_tls \<lparr>tdata_start = 0x1000, tbss_offset = 8, tdata_size = 8, tbss_size = 4\<rparr> 0x2000 m 0x2008 = 0
    \<and> init_tls \<lparr>tdata_start = 0x1000, tbss_offset = 8, tdata_size = 8, tbss_size = 4\<rparr> 0x2000 m 0x2003 = m 0x1003"
proof (intro allI)
  fix m
  have "(0x1000 :: u32) + of_nat j < 0x2000" if "j < 8" for j :: nat
    using that unat_of_nat_exact [of j] by (simp add: word_less_nat_alt unat_word_ariths)
  then show "init_tls \<lparr>tdata_start = 0x1000, tbss_offset = 8, tdata_size = 8, tbss_size = 4\<rparr> 0x2000 m 0x2008 = 0
    \<and> init_tls \<lparr>tdata_start = 0x1000, tbss_offset = 8, tdata_size = 8, tbss_size = 4\<rparr> 0x2000 m 0x2003 = m 0x1003"
    using init_tls_block [of "\<lparr>tdata_start = 0x1000, tbss_offset = 8, tdata_size = 8, tbss_size = 4\<rparr>" "0x2000" m]
    by simp
qed

text \<open>The destructors run in the reverse order of their array, then the program exits.\<close>

theorem exit_runs_destructors:
  "libc_exit L code = rev (map Fini [0..<unat (array_count (fini_start L) (fini_end L))]) @ [Exit code]"
proof -
  have "fini_loop n = rev (map Fini [0..<n])" for n by (induction n) auto
  then show ?thesis by (simp add: libc_exit_def libc_fini_array_def)
qed

end
