(* ===== verification/Kernel_Verify.thy ===== *)
theory Kernel_Verify
  imports C_Float
begin

text \<open>
  The common tail of the operator kernels, \<open>src/lib/include/kernel_verify.h\<close>: hart 0 compares the
  output with the golden values under a relative and an absolute tolerance and writes a code to
  \<open>tohost\<close>.  A \<open>float\<close> is a number of theory \<open>C_Float\<close> in the format binary32.
\<close>

definition mu_fabsf :: "fnum \<Rightarrow> fnum" where
  "mu_fabsf x = (if flt x (FFin False 0) then fneg x else x)"

definition mu_close :: "fnum \<Rightarrow> fnum \<Rightarrow> fnum \<Rightarrow> fnum \<Rightarrow> bool" where
  "mu_close c g rtol atol =
     fle (mu_fabsf (fsub binary32 c g)) (fadd binary32 (fmul binary32 rtol (mu_fabsf g)) atol)"

text \<open>The operand of the \<open>tohost\<close> instruction.\<close>

definition mu_tohost :: "u32 \<Rightarrow> u32" where
  "mu_tohost code = code"

text \<open>\<^const>\<open>None\<close>: the hart parks and nothing is written.\<close>

definition mu_verify_f32 :: "u32 \<Rightarrow> (u32 \<Rightarrow> fnum) \<Rightarrow> (u32 \<Rightarrow> fnum) \<Rightarrow> u32 \<Rightarrow> fnum \<Rightarrow> fnum \<Rightarrow> u32 option" where
  "mu_verify_f32 hart_id out gold n rtol atol =
     (if hart_id \<noteq> 0 then None
      else let errors = fold (\<lambda>i errors. if \<not> mu_close (out i) (gold i) rtol atol then errors + 1 else errors)
                          (map of_nat [0..<unat n]) 0
           in Some (mu_tohost (if errors \<noteq> 0 then push_bit 1 errors OR 1 else 0)))"

section \<open>Counting\<close>

definition mismatches :: "(u32 \<Rightarrow> fnum) \<Rightarrow> (u32 \<Rightarrow> fnum) \<Rightarrow> u32 \<Rightarrow> fnum \<Rightarrow> fnum \<Rightarrow> nat list" where
  "mismatches out gold n rtol atol =
     filter (\<lambda>i. \<not> mu_close (out (of_nat i)) (gold (of_nat i)) rtol atol) [0..<unat n]"

lemma errors_count:
  "fold (\<lambda>i errors. if \<not> P i then errors + 1 else errors) (map of_nat [0..<n]) (0 :: u32)
    = of_nat (length (filter (\<lambda>i. \<not> P (of_nat i)) [0..<n]))"
  by (induction n) simp_all

lemma mismatches_less: "length (mismatches out gold n rtol atol) < 2 ^ 32"
proof -
  have "unat n < 2 ^ LENGTH(32)" by (rule unsigned_less)
  moreover have "length (mismatches out gold n rtol atol) \<le> unat n"
    unfolding mismatches_def by (rule order_trans [OF length_filter_le]) simp
  ultimately show ?thesis by simp
qed

lemma push_or_one: "push_bit 1 e OR 1 = 2 * e + (1 :: u32)"
  by (simp add: or_one_eq)

lemma verify_code:
  "mu_verify_f32 0 out gold n rtol atol = Some
    (if mismatches out gold n rtol atol = [] then 0 else 2 * of_nat (length (mismatches out gold n rtol atol)) + 1)"
proof -
  let ?e = "of_nat (length (mismatches out gold n rtol atol)) :: u32"
  have "?e = 0 \<longleftrightarrow> mismatches out gold n rtol atol = []"
    using unat_of_nat_exact [OF mismatches_less, of out gold n rtol atol] unat_eq_zero [of ?e] by simp
  then show ?thesis
    by (simp add: mu_verify_f32_def errors_count mu_tohost_def or_one_eq flip: mismatches_def)
qed

lemma odd_code: "2 * e + 1 \<noteq> (0 :: u32)"
proof
  assume "2 * e + 1 = 0"
  then have "bit (push_bit 1 e OR 1) 0 = bit (0 :: u32) 0" by (simp only: push_or_one)
  then show False by (simp add: bit_simps)
qed

section \<open>Properties\<close>

text \<open>A not-a-number is never accepted, on either side; neither is an infinity that agrees with
  the golden infinity, whose difference is not-a-number.\<close>

theorem mu_close_rejects:
  "\<not> mu_close FNan g rtol atol \<and> \<not> mu_close c FNan rtol atol \<and> \<not> mu_close (FInf s) (FInf s) rtol atol"
proof -
  have "fsub binary32 FNan g = FNan" "fsub binary32 c FNan = FNan" "fsub binary32 (FInf s) (FInf s) = FNan"
    by (cases g; cases c; simp add: fsub_def)+
  then show ?thesis by (simp add: mu_close_def mu_fabsf_def fle_def)
qed

text \<open>C34: Hart 0 reports success exactly when every output is close to its golden value, and
  otherwise the odd code of the number of the others, for every length; no other hart reports.\<close>

theorem mu_verify_reports:
  "mu_verify_f32 hart_id out gold n rtol atol =
    (if hart_id \<noteq> 0 then None
     else if \<forall>i<unat n. mu_close (out (of_nat i)) (gold (of_nat i)) rtol atol then Some 0
     else Some (2 * of_nat (length (mismatches out gold n rtol atol)) + 1))
   \<and> (mu_verify_f32 0 out gold n rtol atol = Some 0
        \<longleftrightarrow> (\<forall>i<unat n. mu_close (out (of_nat i)) (gold (of_nat i)) rtol atol))"
proof -
  have "mismatches out gold n rtol atol = [] \<longleftrightarrow> (\<forall>i<unat n. mu_close (out (of_nat i)) (gold (of_nat i)) rtol atol)"
    by (auto simp: mismatches_def filter_empty_conv)
  then show ?thesis
    using verify_code [of out gold n rtol atol] odd_code by (auto simp: mu_verify_f32_def)
qed

theorem mu_verify_reports_witness:
  "mu_verify_f32 0 (\<lambda>_. FNan) (\<lambda>_. FFin False 1) 2 (FFin False 0) (FFin False 1) = Some 5"
proof -
  have "\<not> mu_close FNan (FFin False 1) (FFin False 0) (FFin False 1)"
    using mu_close_rejects [of "FFin False 1" "FFin False 0" "FFin False 1" FNan False] by blast
  moreover from this have "mismatches (\<lambda>_. FNan) (\<lambda>_. FFin False 1) 2 (FFin False 0) (FFin False 1) = [0, 1]"
    by (simp add: mismatches_def upt_rec)
  moreover have "\<not> (\<forall>i<unat (2 :: u32). False)" by (simp add: exI [of _ "0 :: nat"])
  ultimately show ?thesis
    using mu_verify_reports [of 0 "\<lambda>_. FNan" "\<lambda>_. FFin False 1" 2 "FFin False 0" "FFin False 1"]
    by simp
qed

end
