(* ===== verification/Vx_Print.thy ===== *)
theory Vx_Print
  imports Printf C_Float_Facts
begin

text \<open>
  The console output of Vortex kernels, \<open>src/lib/src/vx_print.c\<close>, and the dump of the performance
  counters, \<open>src/lib/src/vx_perf.c\<close>.  The functions run a callback under \<open>vx_serial\<close>, which lets
  the threads of a warp take turns; this is what one thread prints.  \<open>itoa\<close> and \<open>pow\<close> belong to
  the C library and are parameters: \<open>itoa value base\<close> is the string it writes, without its
  terminator, and \<open>pow_ten precision\<close> is \<open>pow(10, precision)\<close>.  Behaviour the C standard leaves
  undefined is \<^const>\<open>None\<close>.
\<close>

type_synonym itoa_fun = "int \<Rightarrow> int \<Rightarrow> u8 list"

text \<open>
  \<open>__putint_cb\<close>: the value goes through a \<open>float\<close>; the loop prints at most 33 characters, and a
  longer string would overrun \<open>tmp\<close>.
\<close>

definition putint_cb :: "itoa_fun \<Rightarrow> int \<Rightarrow> int \<Rightarrow> u8 list option" where
  "putint_cb itoa arg_value base = do {
     let value = of_int_f binary32 arg_value;
     n \<leftarrow> f_to_int value;
     let tmp = itoa n base;
     if length tmp < 33 then Some (takeWhile (\<lambda>c. c \<noteq> 0) tmp) else None }"

definition vx_putint :: "itoa_fun \<Rightarrow> int \<Rightarrow> int \<Rightarrow> u8 list option" where
  "vx_putint itoa value base = putint_cb itoa value base"

text \<open>A \<open>float\<close> in double arithmetic, and back.\<close>

definition to_float :: "fnum \<Rightarrow> fnum" where
  "to_float x = (case x of FFin s r \<Rightarrow> fround binary32 s r | _ \<Rightarrow> x)"

definition putfloat_cb :: "itoa_fun \<Rightarrow> (int \<Rightarrow> fnum) \<Rightarrow> fnum \<Rightarrow> int \<Rightarrow> u8 list option" where
  "putfloat_cb itoa pow_ten value precision = do {
     ipart \<leftarrow> f_to_int value;
     whole \<leftarrow> vx_putint itoa ipart 10;
     if precision \<noteq> 0 then do {
       let frac = fsub binary32 value (of_int_f binary32 ipart);
       let fscaled = to_float (fmul binary64 frac (pow_ten precision));
       n \<leftarrow> f_to_int fscaled;
       part \<leftarrow> vx_putint itoa n 10;
       Some (whole @ [46] @ part) }
     else Some whole }"

definition vx_putfloat :: "itoa_fun \<Rightarrow> (int \<Rightarrow> fnum) \<Rightarrow> fnum \<Rightarrow> int \<Rightarrow> u8 list option" where
  "vx_putfloat itoa pow_ten value precision = putfloat_cb itoa pow_ten value precision"

definition vprintf_cb ::
    "nat \<Rightarrow> (u8 \<Rightarrow> 's \<Rightarrow> 's option) \<Rightarrow> u8 list \<Rightarrow> va_arg list \<Rightarrow> 's \<Rightarrow> (int \<times> 's) option" where
  "vprintf_cb depth putchar format va s = tiny_vprintf depth putchar format va s"

definition vx_vprintf ::
    "nat \<Rightarrow> (u8 \<Rightarrow> 's \<Rightarrow> 's option) \<Rightarrow> u8 list \<Rightarrow> va_arg list \<Rightarrow> 's \<Rightarrow> (int \<times> 's) option" where
  "vx_vprintf depth putchar format va s = vprintf_cb depth putchar format va s"

definition vx_printf ::
    "nat \<Rightarrow> (u8 \<Rightarrow> 's \<Rightarrow> 's option) \<Rightarrow> u8 list \<Rightarrow> va_arg list \<Rightarrow> 's \<Rightarrow> (int \<times> 's) option" where
  "vx_printf depth putchar format va s = vx_vprintf depth putchar format va s"

section \<open>Performance counters\<close>

definition VX_CSR_MPM_BASE :: u32 where "VX_CSR_MPM_BASE = 0xB00"
definition VX_CSR_MPM_BASE_H :: u32 where "VX_CSR_MPM_BASE_H = 0xB80"

text \<open>The stores, with the CSR each value is read from.\<close>

definition dump_csr_4 :: "u32 \<Rightarrow> u32 \<Rightarrow> u32 \<Rightarrow> (u32 \<times> u32) list" where
  "dump_csr_4 csr_mem d s = map (\<lambda>i. (csr_mem + 4 * (d + i), s + i)) [0, 1, 2, 3]"

definition dump_csr_32 :: "u32 \<Rightarrow> u32 \<Rightarrow> u32 \<Rightarrow> (u32 \<times> u32) list" where
  "dump_csr_32 csr_mem d s = concat (map (\<lambda>i. dump_csr_4 csr_mem (d + i) (s + i)) [0, 4, 8, 12, 16, 20, 24, 28])"

definition vx_perf_dump :: "u32 \<Rightarrow> u32 \<Rightarrow> (u32 \<times> u32) list" where
  "vx_perf_dump IO_CSR_ADDR core_id =
     (let csr_mem = IO_CSR_ADDR + 64 * 4 * core_id
      in dump_csr_32 csr_mem 0 VX_CSR_MPM_BASE @ dump_csr_32 csr_mem 32 VX_CSR_MPM_BASE_H)"

section \<open>Properties\<close>

lemma word_list_16: "map of_nat [0..<32] = ([0, 1, 2, 3, 4, 5, 6, 7, 8, 9, 10, 11, 12, 13, 14, 15,
    16, 17, 18, 19, 20, 21, 22, 23, 24, 25, 26, 27, 28, 29, 30, 31] :: u32 list)"
  by code_simp

text \<open>The dump of a core fills its 64 words in order, the low halves of the 32 counters first
  and then the high halves.\<close>

theorem vx_perf_dump_layout:
  "vx_perf_dump io core_id = map (\<lambda>i. (io + 256 * core_id + 4 * i, VX_CSR_MPM_BASE + i)) (map of_nat [0..<32])
    @ map (\<lambda>i. (io + 256 * core_id + 4 * (32 + i), VX_CSR_MPM_BASE_H + i)) (map of_nat [0..<32])"
  unfolding word_list_16
  by (simp add: vx_perf_dump_def dump_csr_32_def dump_csr_4_def add.assoc)

text \<open>\<open>vx_putint\<close> prints another number than it is given: an \<open>int\<close> goes through a \<open>float\<close>, so
  the first integer beyond 24 bits is printed as its neighbour, and the largest \<open>int\<close> is rounded
  out of the range, which is undefined.\<close>

theorem vx_putint_loses_precision:
  "vx_putint itoa 16777217 10 = vx_putint itoa 16777216 10 \<and> vx_putint itoa 2147483647 base = None"
proof -
  have "of_int_f binary32 16777217 = of_int_f binary32 16777216" "f_to_int (of_int_f binary32 2147483647) = None"
    by code_simp+
  then show ?thesis by (simp add: vx_putint_def putint_cb_def)
qed

text \<open>\<open>vx_putfloat\<close> drops the leading zeros of the fraction: it prints 1.0625 with four digits as
  1.625, whatever the C library's \<open>itoa\<close> does, as long as \<open>pow(10, 4)\<close> is exact.\<close>

theorem vx_putfloat_drops_zeros:
  assumes "itoa 1 10 = [49]" "itoa 625 10 = [54, 50, 53]" "pow_ten 4 = FFin False 10000"
  shows "vx_putfloat itoa pow_ten (FFin False (17 / 16)) 4 = Some [49, 46, 54, 50, 53]"
proof -
  have "f_to_int (FFin False (17 / 16)) = Some 1" "f_to_int (of_int_f binary32 1) = Some 1"
    "f_to_int (of_int_f binary32 625) = Some 625"
    "f_to_int (to_float (fmul binary64 (fsub binary32 (FFin False (17 / 16)) (of_int_f binary32 1)) (FFin False 10000))) = Some 625"
    by code_simp+
  then show ?thesis using assms by (simp add: vx_putfloat_def putfloat_cb_def vx_putint_def putint_cb_def Let_def)
qed

theorem vx_putfloat_drops_zeros_witness:
  "vx_putfloat (\<lambda>n base. if n = 1 then [49] else [54, 50, 53]) (\<lambda>_. FFin False 10000) (FFin False (17 / 16)) 4
    = Some [49, 46, 54, 50, 53]"
  by (rule vx_putfloat_drops_zeros) simp_all

end
