(* ===== verification/Gemmini_Cpu.thy ===== *)
theory Gemmini_Cpu
  imports Prelude
begin

text \<open>
  The matrix product on the CPU, \<open>matmul_cpu\<close> of \<open>src/lib/gemmini/include/gemmini.h\<close>: a routine
  unrolled by four in both directions for the plain case and a general one, and the integer square
  root of the normalisations.  The element and accumulator types and their scalings come from
  \<open>gemmini_params.h\<close>, one of two headers or a generated one: the operations on them are parameters.
  \<open>size_t\<close> has 32 bits; arrays are indexed by it, and the result does not overlap the operands.
\<close>

datatype act = NO_ACTIVATION | RELU | LAYERNORM | IGELU | SOFTMAX

text \<open>
  \<open>g_mac r a b\<close> is \<open>r += GEMMINI_SCALE(a) * GEMMINI_SCALE(b)\<close>, \<open>g_bias d\<close> is
  \<open>GEMMINI_ACC_SCALE(d)\<close> and \<open>g_sat r act\<close> is \<open>scale_and_sat(r, act)\<close>, each with the scale
  factors of the call.
\<close>

record ('e, 'a) gops =
  g_zero :: 'a
  g_mac :: "'a \<Rightarrow> 'e \<Rightarrow> 'e \<Rightarrow> 'a"
  g_bias :: "'a \<Rightarrow> 'a"
  g_sat :: "'a \<Rightarrow> act \<Rightarrow> 'e"

text \<open>The arguments of \<open>matmul_cpu\<close>; \<open>\<^const>\<open>None\<close>\<close> is the null pointer.\<close>

record ('e, 'a) matmul_args =
  transA :: bool
  transB :: bool
  DIM_I :: u32
  DIM_J :: u32
  DIM_K :: u32
  m_A :: "u32 \<Rightarrow> 'e"
  m_B :: "u32 \<Rightarrow> 'e"
  m_D :: "(u32 \<Rightarrow> 'a) option"
  stride_A :: u32
  stride_B :: u32
  stride_D :: u32
  stride_C :: u32
  m_act :: act
  repeating_bias :: bool

definition is_norm :: "act \<Rightarrow> bool" where
  "is_norm a \<longleftrightarrow> a = LAYERNORM \<or> a = SOFTMAX"

text \<open>The initial value of the accumulator of row \<open>i\<close> and column \<open>j\<close>.\<close>

definition bias_value :: "('e, 'a) gops \<Rightarrow> ('e, 'a) matmul_args \<Rightarrow> u32 \<Rightarrow> u32 \<Rightarrow> 'a" where
  "bias_value G M i j =
     (let bias_row = (if repeating_bias M then 0 else i)
      in case m_D M of None \<Rightarrow> g_zero G | Some D \<Rightarrow> g_bias G (D (bias_row * stride_D M + j)))"

text \<open>A loop \<open>for (x = 0; x < n; x++)\<close> over \<open>size_t\<close>.\<close>

definition counter :: "u32 \<Rightarrow> u32 list" where
  "counter n = map of_nat [0..<unat n]"

section \<open>The unrolled routine\<close>

type_synonym 'a block = "nat \<Rightarrow> nat \<Rightarrow> 'a"

text \<open>The places of the four by four block, in the order of the statements.\<close>

definition block_places :: "(nat \<times> nat) list" where
  "block_places = List.product [0..<4] [0..<4]"

definition block_init :: "('e, 'a) gops \<Rightarrow> ('e, 'a) matmul_args \<Rightarrow> u32 \<Rightarrow> u32 \<Rightarrow> 'a block" where
  "block_init G M i j = (\<lambda>ii jj. bias_value G M (i + of_nat ii) (j + of_nat jj))"

text \<open>One of the sixteen \<open>result[ii][jj] += \<dots>\<close>, and all of them.\<close>

definition block_mac1 :: "('e, 'a) gops \<Rightarrow> ('e, 'a) matmul_args \<Rightarrow> u32 \<Rightarrow> u32 \<Rightarrow> u32 \<Rightarrow> nat \<times> nat \<Rightarrow> 'a block \<Rightarrow> 'a block" where
  "block_mac1 G M i j k = (\<lambda>(ii, jj) result.
     result(ii := (result ii)(jj := g_mac G (result ii jj) (m_A M ((i + of_nat ii) * stride_A M + k))
       (m_B M (k * stride_B M + j + of_nat jj)))))"

definition block_mac :: "('e, 'a) gops \<Rightarrow> ('e, 'a) matmul_args \<Rightarrow> u32 \<Rightarrow> u32 \<Rightarrow> u32 \<Rightarrow> 'a block \<Rightarrow> 'a block" where
  "block_mac G M i j k result = fold (block_mac1 G M i j k) block_places result"

definition block_store :: "('e, 'a) gops \<Rightarrow> ('e, 'a) matmul_args \<Rightarrow> u32 \<Rightarrow> u32 \<Rightarrow> 'a block \<Rightarrow> (u32 \<Rightarrow> 'e) \<Rightarrow> u32 \<Rightarrow> 'e" where
  "block_store G M i j result C =
     fold (\<lambda>(ii, jj) C. C((i + of_nat ii) * stride_C M + j + of_nat jj := g_sat G (result ii jj) (m_act M))) block_places C"

definition block_body :: "('e, 'a) gops \<Rightarrow> ('e, 'a) matmul_args \<Rightarrow> u32 \<times> u32 \<Rightarrow> (u32 \<Rightarrow> 'e) \<Rightarrow> u32 \<Rightarrow> 'e" where
  "block_body G M = (\<lambda>(i, j) C. block_store G M i j (fold (block_mac G M i j) (counter (DIM_K M)) (block_init G M i j)) C)"

text \<open>\<open>for (x = 0; x < n; x += 4)\<close>, with \<open>n\<close> a multiple of four.\<close>

definition counter4 :: "u32 \<Rightarrow> u32 list" where
  "counter4 n = map (\<lambda>t. 4 * of_nat t) [0..<(unat n + 3) div 4]"

definition matmul_unrolled :: "('e, 'a) gops \<Rightarrow> ('e, 'a) matmul_args \<Rightarrow> (u32 \<Rightarrow> 'e) \<Rightarrow> u32 \<Rightarrow> 'e" where
  "matmul_unrolled G M C = fold (block_body G M) (List.product (counter4 (DIM_I M)) (counter4 (DIM_J M))) C"

section \<open>The general routine\<close>

definition general_sum :: "('e, 'a) gops \<Rightarrow> ('e, 'a) matmul_args \<Rightarrow> u32 \<Rightarrow> u32 \<Rightarrow> 'a" where
  "general_sum G M i j =
     (let A0 = (if \<not> transA M then stride_A M else 1); A1 = (if \<not> transA M then 1 else stride_A M);
          B0 = (if \<not> transB M then 1 else stride_B M); B1 = (if \<not> transB M then stride_B M else 1)
      in fold (\<lambda>k sum. g_mac G sum (m_A M (i * A0 + k * A1)) (m_B M (j * B0 + k * B1))) (counter (DIM_K M)) (bias_value G M i j))"

text \<open>The state: the result and \<open>c_buffer\<close>.\<close>

definition general_body :: "('e, 'a) gops \<Rightarrow> ('e, 'a) matmul_args \<Rightarrow> u32 \<times> u32 \<Rightarrow> (u32 \<Rightarrow> 'e) \<times> (u32 \<Rightarrow> 'a) \<Rightarrow> (u32 \<Rightarrow> 'e) \<times> (u32 \<Rightarrow> 'a)" where
  "general_body G M = (\<lambda>(i, j) (C, c_buffer).
     (let sum = general_sum G M i j
      in if is_norm (m_act M) then (C, c_buffer(j := sum))
         else (C(i * stride_C M + j := g_sat G sum (m_act M)), c_buffer)))"

definition matmul_general ::
    "('e, 'a) gops \<Rightarrow> ('e, 'a) matmul_args \<Rightarrow> (u32 \<Rightarrow> 'e) \<times> (u32 \<Rightarrow> 'a) \<Rightarrow> (u32 \<Rightarrow> 'e) \<times> (u32 \<Rightarrow> 'a)" where
  "matmul_general G M s = fold (general_body G M) (List.product (counter (DIM_I M)) (counter (DIM_J M))) s"

text \<open>\<open>matmul_cpu\<close>, without the normalisations, which are compiled only under
  \<open>HAS_NORMALIZATIONS\<close>; \<^const>\<open>None\<close> is \<open>exit(1)\<close>.\<close>

definition matmul_cpu ::
    "('e, 'a) gops \<Rightarrow> ('e, 'a) matmul_args \<Rightarrow> (u32 \<Rightarrow> 'e) \<times> (u32 \<Rightarrow> 'a) \<Rightarrow> ((u32 \<Rightarrow> 'e) \<times> (u32 \<Rightarrow> 'a)) option" where
  "matmul_cpu G M s =
     (if m_act M \<noteq> LAYERNORM \<and> m_act M \<noteq> SOFTMAX \<and> \<not> transA M \<and> \<not> transB M \<and> DIM_I M mod 4 = 0 \<and> DIM_J M mod 4 = 0
      then Some (matmul_unrolled G M (fst s), snd s)
      else if is_norm (m_act M) \<and> DIM_J M > 1024 then None
      else Some (matmul_general G M s))"

section \<open>The integer square root\<close>

text \<open>With the 16-bit \<open>acc_t\<close> of \<open>gemmini_params.dim16fp16.h\<close>; the arithmetic is that of \<open>int\<close>.\<close>

function int_sqrt_bits :: "nat \<Rightarrow> nat" where
  "int_sqrt_bits x = (if x > 0 then Suc (int_sqrt_bits (x div 2)) else 0)"
  by auto
termination by (relation "measure id") auto

declare int_sqrt_bits.simps [simp del]

function int_sqrt_loop :: "nat \<Rightarrow> nat \<Rightarrow> nat" where
  "int_sqrt_loop n x_prev =
     (let x_next = (x_prev + n div x_prev) div 2 mod 65536
      in if x_next \<ge> x_prev then x_prev else int_sqrt_loop n x_next)"
  by auto
termination by (relation "measure snd") (auto simp: Let_def)

declare int_sqrt_loop.simps [simp del]

definition int_sqrt :: "u16 \<Rightarrow> u16" where
  "int_sqrt n = (if n = 0 then 0
     else of_nat (int_sqrt_loop (unat n) (2 ^ ((int_sqrt_bits (unat n) + 1) div 2) mod 65536)))"

section \<open>The block is sixteen dot products\<close>

lemma fold_block_mac1:
  assumes "distinct ps"
  shows "fold (block_mac1 G M i j k) ps r = (\<lambda>ii jj. if (ii, jj) \<in> set ps
    then g_mac G (r ii jj) (m_A M ((i + of_nat ii) * stride_A M + k)) (m_B M (k * stride_B M + j + of_nat jj)) else r ii jj)"
  using assms
proof (induction ps arbitrary: r)
  case (Cons p ps)
  obtain a b where p: "p = (a, b)" by (cases p)
  show ?case using Cons by (auto simp: p block_mac1_def fun_eq_iff)
qed simp

lemma places: "distinct block_places" "set block_places = {..<4} \<times> {..<4}"
  by (auto simp: block_places_def distinct_product simp del: upt_rec_numeral)

lemma block_mac_at:
  assumes "ii < 4" "jj < 4"
  shows "fold (block_mac G M i j) ks r ii jj
    = fold (\<lambda>k s. g_mac G s (m_A M ((i + of_nat ii) * stride_A M + k)) (m_B M (k * stride_B M + j + of_nat jj))) ks (r ii jj)"
  by (induction ks arbitrary: r) (use assms in \<open>simp_all add: block_mac_def fold_block_mac1 places\<close>)

lemma block_dot:
  assumes "ii < 4" "jj < 4" "\<not> transA M" "\<not> transB M"
  shows "fold (block_mac G M i j) (counter (DIM_K M)) (block_init G M i j) ii jj = general_sum G M (i + of_nat ii) (j + of_nat jj)"
  using assms by (simp add: block_mac_at general_sum_def block_init_def ac_simps)

section \<open>The general routine stores the same values\<close>

text \<open>The dot product of a row and a column, and the result of a product in any activation.\<close>

definition c_place :: "('e, 'a) matmul_args \<Rightarrow> u32 \<times> u32 \<Rightarrow> u32" where
  "c_place M = (\<lambda>(i, j). i * stride_C M + j)"

definition c_value :: "('e, 'a) gops \<Rightarrow> ('e, 'a) matmul_args \<Rightarrow> u32 \<times> u32 \<Rightarrow> 'e" where
  "c_value G M = (\<lambda>(i, j). g_sat G (general_sum G M i j) (m_act M))"

definition elements :: "('e, 'a) matmul_args \<Rightarrow> (u32 \<times> u32) set" where
  "elements M = {(i, j). i < DIM_I M \<and> j < DIM_J M}"

lemma counter_set: "set (counter n) = {i. i < n}"
proof -
  have "i \<in> of_nat ` {0..<unat n} \<longleftrightarrow> i < n" for i
  proof
    assume "i \<in> of_nat ` {0..<unat n}"
    then obtain t where "i = of_nat t" "t < unat n" by auto
    moreover have "unat n < 2 ^ LENGTH(32)" by (rule unsigned_less)
    ultimately show "i < n" using unat_of_nat_exact [of t] by (simp add: word_less_nat_alt)
  next
    assume "i < n"
    then show "i \<in> of_nat ` {0..<unat n}" by (intro image_eqI [of _ _ "unat i"]) (simp_all add: word_less_nat_alt)
  qed
  then show ?thesis by (auto simp: counter_def)
qed

lemma general_plain:
  assumes "\<not> is_norm (m_act M)"
  shows "matmul_general G M (C, cb) = (fold (\<lambda>p C. C(c_place M p := c_value G M p)) (List.product (counter (DIM_I M)) (counter (DIM_J M))) C, cb)"
proof -
  have "fold (general_body G M) ps (C, cb) = (fold (\<lambda>p C. C(c_place M p := c_value G M p)) ps C, cb)" for ps C
    by (induction ps arbitrary: C) (use assms in \<open>auto simp: general_body_def c_place_def c_value_def Let_def\<close>)
  then show ?thesis by (simp add: matmul_general_def)
qed

lemma general_norm:
  assumes "is_norm (m_act M)"
  shows "fst (matmul_general G M s) = fst s"
proof -
  have "fst (fold (general_body G M) ps s) = fst s" for ps
    by (induction ps arbitrary: s) (use assms in \<open>auto simp: general_body_def Let_def split: prod.splits\<close>)
  then show ?thesis by (simp add: matmul_general_def)
qed

text \<open>The unrolled routine stores the same values, block by block.\<close>

definition unrolled_places :: "('e, 'a) matmul_args \<Rightarrow> (u32 \<times> u32) list" where
  "unrolled_places M = concat (map (\<lambda>(i, j). map (\<lambda>(ii, jj). (i + of_nat ii, j + of_nat jj)) block_places)
     (List.product (counter4 (DIM_I M)) (counter4 (DIM_J M))))"

lemma unrolled_plain:
  assumes "\<not> transA M" "\<not> transB M"
  shows "matmul_unrolled G M C = fold (\<lambda>p C. C(c_place M p := c_value G M p)) (unrolled_places M) C"
proof -
  let ?st = "\<lambda>p C. C(c_place M p := c_value G M p)"
  have "block_body G M (i, j) C = fold ?st (map (\<lambda>(ii, jj). (i + of_nat ii, j + of_nat jj)) block_places) C" for i j C
  proof -
    have "fold (\<lambda>(ii, jj) C. C((i + of_nat ii) * stride_C M + j + of_nat jj :=
        g_sat G (fold (block_mac G M i j) (counter (DIM_K M)) (block_init G M i j) ii jj) (m_act M))) ps C
      = fold ?st (map (\<lambda>(ii, jj). (i + of_nat ii, j + of_nat jj)) ps) C" if "set ps \<subseteq> set block_places" for ps C
      using that
    proof (induction ps arbitrary: C)
      case (Cons p ps)
      obtain a b where p: "p = (a, b)" "a < 4" "b < 4" using Cons.prems by (cases p) (auto simp: places)
      show ?case using Cons by (simp add: p c_place_def c_value_def block_dot [OF p(2,3) assms] add.assoc cong: if_cong)
    qed simp
    then show ?thesis by (simp add: block_body_def block_store_def)
  qed
  then have "fold (block_body G M) qs C = fold ?st (concat (map (\<lambda>(i, j). map (\<lambda>(ii, jj). (i + of_nat ii, j + of_nat jj)) block_places) qs)) C" for qs C
    by (induction qs arbitrary: C) auto
  then show ?thesis by (simp add: matmul_unrolled_def unrolled_places_def)
qed

lemma counter4_cover:
  assumes "n mod 4 = 0"
  shows "{i + of_nat ii | i ii. i \<in> set (counter4 n) \<and> ii < 4} = {i. i < n}"
proof -
  have b: "unat n < 2 ^ LENGTH(32)" by (rule unsigned_less)
  have n4: "unat n mod 4 = 0" using arg_cong [OF assms, of unat] by (simp add: unat_mod)
  have cell: "(4 * of_nat t + of_nat ii :: u32) < n" "unat (4 * of_nat t + of_nat ii :: u32) = 4 * t + ii"
    if "t < (unat n + 3) div 4" "ii < 4" for t ii
  proof -
    have l: "4 * t + ii < unat n" using that n4 by presburger
    then show e: "unat (4 * of_nat t + of_nat ii :: u32) = 4 * t + ii"
      using b unat_of_nat_exact [of "4 * t + ii"] by simp
    then show "(4 * of_nat t + of_nat ii :: u32) < n" using l by (simp only: word_less_nat_alt)
  qed
  have "i \<in> {i + of_nat ii | i ii. i \<in> set (counter4 n) \<and> ii < 4}" if "i < n" for i
  proof -
    have l: "unat i < unat n" using that by (simp add: word_less_nat_alt)
    have "i = of_nat (unat i)" by simp
    then have "i = of_nat (4 * (unat i div 4) + unat i mod 4)" by (simp only: mult_div_mod_eq)
    then have "i = 4 * of_nat (unat i div 4) + of_nat (unat i mod 4)" by (simp only: of_nat_add of_nat_mult of_nat_numeral)
    moreover have "unat i div 4 < (unat n + 3) div 4" using l by linarith
    ultimately show ?thesis by (auto simp: counter4_def intro!: exI [of _ "4 * of_nat (unat i div 4)"] exI [of _ "unat i mod 4"])
  qed
  then show ?thesis using cell(1) by (auto simp: counter4_def)
qed

lemma unrolled_set:
  assumes "DIM_I M mod 4 = 0" "DIM_J M mod 4 = 0"
  shows "set (unrolled_places M) = elements M"
proof -
  have "set (unrolled_places M) = {i + of_nat ii | i ii. i \<in> set (counter4 (DIM_I M)) \<and> ii < 4}
      \<times> {j + of_nat jj | j jj. j \<in> set (counter4 (DIM_J M)) \<and> jj < 4}"
    by (fastforce simp: unrolled_places_def places)
  then show ?thesis by (auto simp: counter4_cover assms elements_def)
qed

text \<open>C35: For every shape, transposition and activation without normalisation, and whichever of
  the two routines is taken, \<open>matmul_cpu\<close> leaves in each element of the result the saturated sum,
  accumulated from the bias in the order of \<open>k\<close>, and changes nothing else, provided the elements
  of the result have different places.\<close>

theorem matmul_cpu_elements:
  assumes "\<not> is_norm (m_act M)"
    and "inj_on (\<lambda>(i, j). i * stride_C M + j) {(i, j). i < DIM_I M \<and> j < DIM_J M}"
  shows "\<exists>R. matmul_cpu G M (C, cb) = Some (R, cb)
    \<and> (\<forall>i j. i < DIM_I M \<and> j < DIM_J M \<longrightarrow> R (i * stride_C M + j) = g_sat G (general_sum G M i j) (m_act M))
    \<and> (\<forall>x. (\<forall>i j. i < DIM_I M \<and> j < DIM_J M \<longrightarrow> x \<noteq> i * stride_C M + j) \<longrightarrow> R x = C x)"
proof -
  have inj: "inj_on (c_place M) (elements M)" using assms(2) by (simp add: c_place_def elements_def)
  define ps where "ps = (if \<not> transA M \<and> \<not> transB M \<and> DIM_I M mod 4 = 0 \<and> DIM_J M mod 4 = 0
    then unrolled_places M else List.product (counter (DIM_I M)) (counter (DIM_J M)))"
  have set: "set ps = elements M"
    using unrolled_set [of M] by (auto simp: ps_def counter_set elements_def)
  let ?R = "fold (\<lambda>p C. C(c_place M p := c_value G M p)) ps C"
  have "matmul_cpu G M (C, cb) = Some (?R, cb)"
    using assms(1) unrolled_plain [of M G C] general_plain [OF assms(1), of G C cb]
    by (auto simp: matmul_cpu_def is_norm_def ps_def)
  moreover have R: "?R x = (if x \<in> c_place M ` elements M then c_value G M (the_inv_into (elements M) (c_place M) x) else C x)" for x
    using fold_stores [of "c_place M" ps "c_value G M" C] inj set by (simp add: fun_eq_iff)
  moreover have "?R (i * stride_C M + j) = g_sat G (general_sum G M i j) (m_act M)" if "i < DIM_I M" "j < DIM_J M" for i j
  proof -
    have "(i, j) \<in> elements M" using that by (simp add: elements_def)
    then have "?R (c_place M (i, j)) = c_value G M (i, j)"
      using R [of "c_place M (i, j)"] the_inv_into_f_f [OF inj] by auto
    then show ?thesis by (simp add: c_place_def c_value_def)
  qed
  moreover have "?R x = C x" if "\<forall>i j. i < DIM_I M \<and> j < DIM_J M \<longrightarrow> x \<noteq> i * stride_C M + j" for x
  proof -
    have "x \<notin> c_place M ` elements M" using that by (auto simp: c_place_def elements_def)
    then show ?thesis by (simp add: R)
  qed
  ultimately show ?thesis by blast
qed

text \<open>An example: integers, a product of 4 by 4 matrices by the unrolled routine.\<close>

definition int_ops :: "(int, int) gops" where
  "int_ops = \<lparr>g_zero = 0, g_mac = (\<lambda>r a b. r + a * b), g_bias = (\<lambda>d. d), g_sat = (\<lambda>r _. min 127 r)\<rparr>"

definition square4 :: "(int, int) matmul_args" where
  "square4 = \<lparr>transA = False, transB = False, DIM_I = 4, DIM_J = 4, DIM_K = 2, m_A = (\<lambda>_. 3), m_B = (\<lambda>_. 5), m_D = None,
     stride_A = 2, stride_B = 4, stride_D = 0, stride_C = 4, m_act = RELU, repeating_bias = False\<rparr>"

lemma less_4_word: "(x :: u32) < 4 \<longleftrightarrow> x = 0 \<or> x = 1 \<or> x = 2 \<or> x = 3"
proof
  assume "x < 4"
  then have "unat x < 4" by (simp add: word_less_nat_alt)
  then have "unat x = 0 \<or> unat x = 1 \<or> unat x = 2 \<or> unat x = 3" by arith
  then show "x = 0 \<or> x = 1 \<or> x = 2 \<or> x = 3" by (auto simp: word_unat_eq_iff)
qed auto

theorem matmul_cpu_elements_witness:
  "\<exists>R. matmul_cpu int_ops square4 (\<lambda>_. 0, \<lambda>_. 0) = Some (R, \<lambda>_. 0) \<and> R 14 = 30"
proof -
  have inj: "inj_on (\<lambda>(i, j). i * stride_C square4 + j) {(i, j). i < DIM_I square4 \<and> j < DIM_J square4}"
    by (auto simp: inj_on_def square4_def less_4_word)
  have act: "\<not> is_norm (m_act square4)" by (simp add: square4_def is_norm_def)
  obtain R where R: "matmul_cpu int_ops square4 (\<lambda>_. 0, \<lambda>_. 0) = Some (R, \<lambda>_. 0)"
    and el: "\<And>i j. i < DIM_I square4 \<and> j < DIM_J square4
      \<Longrightarrow> R (i * stride_C square4 + j) = g_sat int_ops (general_sum int_ops square4 i j) (m_act square4)"
    using matmul_cpu_elements [OF act inj, of int_ops "\<lambda>_. 0" "\<lambda>_. 0"] by blast
  have "general_sum int_ops square4 3 2 = 30" by code_simp
  then have "R 14 = 30" using el [of 3 2] by (simp add: square4_def int_ops_def)
  then show ?thesis using R by blast
qed

text \<open>A product with a normalisation never writes its result: the routines that would are compiled
  out.\<close>

theorem matmul_cpu_norm_lost:
  assumes "is_norm (m_act M)" "matmul_cpu G M (C, cb) = Some (R, cb')"
  shows "R = C"
  using assms general_norm [OF assms(1), of G "(C, cb)"] by (auto simp: matmul_cpu_def is_norm_def split: if_splits)

section \<open>The square root is exact\<close>

lemma int_sqrt_bits_bounds: "n < 2 ^ int_sqrt_bits n"
proof (induction n rule: int_sqrt_bits.induct)
  case (1 x)
  then show ?case by (subst int_sqrt_bits.simps) (auto; linarith)
qed

lemma int_sqrt_bits_16:
  assumes "n < 2 ^ b"
  shows "int_sqrt_bits n \<le> b"
  using assms
proof (induction b arbitrary: n)
  case 0
  then show ?case by (subst int_sqrt_bits.simps) simp
next
  case (Suc b)
  then show ?case by (subst int_sqrt_bits.simps) auto
qed

text \<open>One step of Newton's iteration does not fall below the root.\<close>

lemma newton_step:
  fixes x n :: nat
  assumes "0 < x"
  shows "n < (Suc ((x + n div x) div 2)) ^ 2"
proof -
  define y q where "y = (x + n div x) div 2" and "q = Suc (n div x)"
  have "n < x * q" using dividend_less_times_div [OF assms, of n] by (simp add: q_def)
  moreover have "x + q \<le> 2 * Suc y" by (simp add: y_def q_def)
  then have "(x + q) ^ 2 \<le> (2 * Suc y) ^ 2" by (rule power_mono) simp
  moreover have "int (4 * (x * q)) \<le> int ((x + q) ^ 2)"
    using zero_le_power2 [of "int x - int q"] by (simp add: power2_eq_square algebra_simps)
  then have "4 * (x * q) \<le> (x + q) ^ 2" by (simp only: of_nat_le_iff)
  moreover have "(2 * Suc y) ^ 2 = 4 * Suc y ^ 2" by (simp add: power2_eq_square)
  ultimately have "4 * n < 4 * Suc y ^ 2" by linarith
  then show ?thesis by (simp add: y_def)
qed

lemma int_sqrt_loop_exact:
  assumes "0 < n" "n < 65536" "x < 65536" "n < Suc x ^ 2"
  shows "int_sqrt_loop n x ^ 2 \<le> n \<and> n < Suc (int_sqrt_loop n x) ^ 2 \<and> int_sqrt_loop n x < 65536"
  using assms
proof (induction n x rule: int_sqrt_loop.induct)
  case (1 n x)
  have x: "0 < x" using 1(2,5) by (cases x) auto
  define y where "y = (x + n div x) div 2"
  have "n div x \<le> n" by simp
  then have y65: "y < 65536" unfolding y_def using 1(3,4) by linarith
  then have y: "y < 65536" "(x + n div x) div 2 mod 65536 = y" by (simp_all only: y_def [symmetric] mod_less)
  show ?case
  proof (cases "x \<le> y")
    case True
    then have "x \<le> n div x" by (simp add: y_def)
    then have "x ^ 2 \<le> n" using x by (simp add: less_eq_div_iff_mult_less_eq power2_eq_square)
    then show ?thesis using 1 True by (subst (1 2 3) int_sqrt_loop.simps) (simp add: y)
  next
    case False
    have "n < Suc y ^ 2" unfolding y_def by (rule newton_step [OF x])
    then have "int_sqrt_loop n y ^ 2 \<le> n \<and> n < Suc (int_sqrt_loop n y) ^ 2 \<and> int_sqrt_loop n y < 65536"
      using 1(1) [OF refl] 1(2,3) y False by simp
    then show ?thesis using False by (subst (1 2 3) int_sqrt_loop.simps) (simp add: y)
  qed
qed

text \<open>\<open>int_sqrt\<close> ends and returns the integer square root of every argument.\<close>

theorem int_sqrt_exact:
  "unat (int_sqrt n) ^ 2 \<le> unat n \<and> unat n < Suc (unat (int_sqrt n)) ^ 2"
proof (cases "n = 0")
  case False
  then have n: "0 < unat n" by (simp add: unat_gt_0)
  have n16: "unat n < 2 ^ 16" using unsigned_less [of n] by simp
  define b x where "b = int_sqrt_bits (unat n)" and "x = (2 ^ ((b + 1) div 2) :: nat)"
  have "b \<le> 16" using int_sqrt_bits_16 [OF n16] by (simp add: b_def)
  then have "x \<le> 2 ^ 8" unfolding x_def by (intro power_increasing) auto
  then have x: "x < 65536" by simp
  have "unat n < 2 ^ b" using int_sqrt_bits_bounds by (simp add: b_def)
  also have "(2::nat) ^ b \<le> 2 ^ (2 * ((b + 1) div 2))" by (rule power_increasing) auto
  also have "\<dots> = x ^ 2" by (simp only: x_def power_mult [symmetric] mult.commute)
  also have "\<dots> \<le> Suc x ^ 2" by (rule power_mono) auto
  finally have r: "int_sqrt_loop (unat n) x ^ 2 \<le> unat n \<and> unat n < Suc (int_sqrt_loop (unat n) x) ^ 2 \<and> int_sqrt_loop (unat n) x < 65536"
    using int_sqrt_loop_exact [of "unat n" x] n n16 x by simp
  have "int_sqrt n = of_nat (int_sqrt_loop (unat n) x)" using False x by (simp add: int_sqrt_def b_def x_def)
  then have "unat (int_sqrt n) = int_sqrt_loop (unat n) x" using r by (simp add: unat_of_nat take_bit_nat_eq_self)
  then show ?thesis using r by simp
qed (simp add: int_sqrt_def)

end
