(* ===== verification/Gemmini_Tiles.thy ===== *)
theory Gemmini_Tiles
  imports Gemmini_Cpu "HOL-Library.While_Combinator"
begin

text \<open>
  The tiling of a matrix product for the systolic array, from
  \<open>src/lib/gemmini/include/gemmini.h\<close>: how \<open>tiled_matmul_auto\<close> chooses the tiles, and
  what \<open>tiled_matmul\<close> demands of them.  Tiles are counted in blocks of \<open>DIM\<close> by \<open>DIM\<close>
  elements.  \<open>size_t\<close> has 32 bits, so a sum or product is taken modulo \<open>size_t_range\<close>.
\<close>

section \<open>Parameters of the array\<close>

record gemmini_params =
  DIM :: nat
  BANK_NUM :: nat
  BANK_ROWS :: nat
  ACC_ROWS :: nat
  sizeof_elem :: nat
  sizeof_acc :: nat

definition dim16fp16 :: gemmini_params where
  "dim16fp16 = \<lparr>DIM = 16, BANK_NUM = 4, BANK_ROWS = 1024, ACC_ROWS = 1024, sizeof_elem = 2, sizeof_acc = 2\<rparr>"

definition dim8fp32 :: gemmini_params where
  "dim8fp32 = \<lparr>DIM = 8, BANK_NUM = 8, BANK_ROWS = 1024, ACC_ROWS = 512, sizeof_elem = 4, sizeof_acc = 4\<rparr>"

text \<open>The constructors of \<open>tiled_matmul_type_t\<close>.\<close>

datatype matmul_type = OS | WS | CPU

abbreviation size_t_range :: nat where
  "size_t_range \<equiv> 4294967296"

definition dim_padded :: "gemmini_params \<Rightarrow> nat \<Rightarrow> nat" where
  "dim_padded p n = (n div DIM p + (if n mod DIM p \<noteq> 0 then 1 else 0)) * DIM p mod size_t_range"

definition max_spad_rows :: "gemmini_params \<Rightarrow> matmul_type \<Rightarrow> nat" where
  "max_spad_rows p ty = (if ty = WS then BANK_NUM p * BANK_ROWS p div 2 else BANK_NUM p * BANK_ROWS p)"

definition max_acc_rows :: "gemmini_params \<Rightarrow> matmul_type \<Rightarrow> nat" where
  "max_acc_rows p ty = (if ty = WS then ACC_ROWS p div 2 else ACC_ROWS p)"

definition tiled_matmul_total_spad_rows :: "gemmini_params \<Rightarrow> nat \<Rightarrow> nat \<Rightarrow> nat \<Rightarrow> nat" where
  "tiled_matmul_total_spad_rows p I J K = (I * K + K * J) * DIM p mod size_t_range"

definition tiled_matmul_total_acc_rows :: "gemmini_params \<Rightarrow> nat \<Rightarrow> nat \<Rightarrow> nat" where
  "tiled_matmul_total_acc_rows p I J = I * J * DIM p mod size_t_range"

section \<open>Choosing the tiles\<close>

text \<open>\<open>(size_t)sqrt(n)\<close>.\<close>

definition floor_sqrt :: "nat \<Rightarrow> nat" where
  "floor_sqrt n = length (takeWhile (\<lambda>m. m * m \<le> n) [1..<Suc n])"

text \<open>The macros \<open>max_tile_i_j\<close> and \<open>max_tile_k\<close>, and with \<open>db_\<close>.\<close>

definition max_tile_i_j :: "gemmini_params \<Rightarrow> matmul_type \<Rightarrow> nat" where
  "max_tile_i_j p ty = floor_sqrt (if ty = WS then ACC_ROWS p div 2 div DIM p else ACC_ROWS p div DIM p)"

definition max_tile_k :: "gemmini_params \<Rightarrow> matmul_type \<Rightarrow> nat" where
  "max_tile_k p ty =
     (if ty = WS then BANK_NUM p * BANK_ROWS p div 2 div 2 div DIM p else BANK_NUM p * BANK_ROWS p div 2 div DIM p)
       div max_tile_i_j p ty"

definition initial_tiles :: "gemmini_params \<Rightarrow> matmul_type \<Rightarrow> act \<Rightarrow> nat \<times> nat \<times> nat \<Rightarrow> nat \<times> nat \<times> nat" where
  "initial_tiles p ty act = (\<lambda>(dim_I, dim_J, dim_K).
     let nI = dim_padded p dim_I div DIM p; nJ = dim_padded p dim_J div DIM p; nK = dim_padded p dim_K div DIM p
     in if act = LAYERNORM \<or> act = SOFTMAX then (1, nJ, 1)
        else (if nI < max_tile_i_j p ty then nI else max_tile_i_j p ty,
              if nJ < max_tile_i_j p ty then nJ else max_tile_i_j p ty,
              if nK < max_tile_k p ty then nK else max_tile_k p ty))"

text \<open>The three steps of one round of the loop, on the tiles and \<open>increased\<close>.\<close>

type_synonym tiles = "nat \<times> nat \<times> nat"

definition grow_J :: "gemmini_params \<Rightarrow> matmul_type \<Rightarrow> nat \<Rightarrow> tiles \<times> bool \<Rightarrow> tiles \<times> bool" where
  "grow_J p ty dim_J = (\<lambda>((I, J, K), increased).
     if tiled_matmul_total_spad_rows p I (J + 1) K \<le> max_spad_rows p ty
       \<and> tiled_matmul_total_acc_rows p I (J + 1) \<le> max_acc_rows p ty
       \<and> (J + 1) * DIM p mod size_t_range \<le> dim_padded p dim_J
     then ((I, (J + 1) mod size_t_range, K), True) else ((I, J, K), increased))"

definition grow_I :: "gemmini_params \<Rightarrow> matmul_type \<Rightarrow> nat \<Rightarrow> tiles \<times> bool \<Rightarrow> tiles \<times> bool" where
  "grow_I p ty dim_I = (\<lambda>((I, J, K), increased).
     if tiled_matmul_total_spad_rows p (I + 1) J K \<le> max_spad_rows p ty
       \<and> tiled_matmul_total_acc_rows p (I + 1) J \<le> max_acc_rows p ty
       \<and> (I + 1) * DIM p mod size_t_range \<le> dim_padded p dim_I
     then (((I + 1) mod size_t_range, J, K), True) else ((I, J, K), increased))"

definition grow_K :: "gemmini_params \<Rightarrow> matmul_type \<Rightarrow> nat \<Rightarrow> tiles \<times> bool \<Rightarrow> tiles \<times> bool" where
  "grow_K p ty dim_K = (\<lambda>((I, J, K), increased).
     if tiled_matmul_total_spad_rows p I J (K + 1) \<le> max_spad_rows p ty
       \<and> (K + 1) * DIM p mod size_t_range \<le> dim_padded p dim_K
     then ((I, J, (K + 1) mod size_t_range), True) else ((I, J, K), increased))"

definition fill_round :: "gemmini_params \<Rightarrow> matmul_type \<Rightarrow> nat \<times> nat \<times> nat \<Rightarrow> tiles \<times> bool \<Rightarrow> tiles \<times> bool" where
  "fill_round p ty = (\<lambda>(dim_I, dim_J, dim_K) (t, _).
     grow_K p ty dim_K (grow_I p ty dim_I (grow_J p ty dim_J (t, False))))"

text \<open>The loop goes on while \<open>increased\<close>; \<^const>\<open>None\<close> would be a loop without end.\<close>

definition tiled_matmul_auto :: "gemmini_params \<Rightarrow> matmul_type \<Rightarrow> act \<Rightarrow> nat \<times> nat \<times> nat \<Rightarrow> tiles option" where
  "tiled_matmul_auto p ty act dims =
     map_option fst (while_option snd (fill_round p ty dims) (initial_tiles p ty act dims, True))"

section \<open>What \<open>tiled_matmul\<close> demands\<close>

text \<open>The messages after which it exits, and those after which it goes on.\<close>

datatype tile_error = Tile_I_nonpositive | Tile_J_nonpositive | Tile_K_nonpositive
  | Tile_I_too_large | Tile_J_too_large | Tile_K_too_large
  | Scratchpad_full | Accumulator_full | Loop_bounds | Transpose_not_implemented

datatype tile_warning = Full_C_not_implemented | Norm_not_implemented | Norm_J_split

record tiled_options =
  transpose_A :: bool
  transpose_B :: bool
  full_C :: bool
  low_D :: bool

definition tile_warnings :: "gemmini_params \<Rightarrow> matmul_type \<Rightarrow> act \<Rightarrow> tiled_options \<Rightarrow> nat \<Rightarrow> nat \<Rightarrow> tile_warning list" where
  "tile_warnings p ty act x dim_J tile_J =
     (if ty = CPU \<and> (full_C x \<or> low_D x) \<or> ty = OS \<and> low_D x then [Full_C_not_implemented] else [])
     @ (if act = LAYERNORM \<or> act = SOFTMAX
        then (if ty = OS then [Norm_not_implemented] else [])
          @ (if tile_J * DIM p mod size_t_range < dim_J then [Norm_J_split] else [])
        else [])"

definition tiled_matmul_check ::
    "gemmini_params \<Rightarrow> matmul_type \<Rightarrow> act \<Rightarrow> tiled_options \<Rightarrow> nat \<times> nat \<times> nat \<Rightarrow> tiles \<Rightarrow> tile_error + tile_warning list" where
  "tiled_matmul_check p ty act x = (\<lambda>(dim_I, dim_J, dim_K) (tile_I, tile_J, tile_K).
     if tile_I = 0 then Inl Tile_I_nonpositive
     else if tile_J = 0 then Inl Tile_J_nonpositive
     else if tile_K = 0 then Inl Tile_K_nonpositive
     else if tile_I * DIM p mod size_t_range > dim_padded p dim_I then Inl Tile_I_too_large
     else if tile_J * DIM p mod size_t_range > dim_padded p dim_J then Inl Tile_J_too_large
     else if tile_K * DIM p mod size_t_range > dim_padded p dim_K then Inl Tile_K_too_large
     else if tiled_matmul_total_spad_rows p tile_I tile_J tile_K > max_spad_rows p ty then Inl Scratchpad_full
     else if tiled_matmul_total_acc_rows p tile_I tile_J > max_acc_rows p ty then Inl Accumulator_full
     else if tile_I > 65535 \<or> tile_J > 65535 \<or> tile_K > 65535 then Inl Loop_bounds
     else if ty = OS \<and> (transpose_A x \<or> transpose_B x) \<or> ty = WS \<and> transpose_A x \<and> transpose_B x
     then Inl Transpose_not_implemented
     else Inr (tile_warnings p ty act x dim_J tile_J))"

section \<open>Arrays whose capacities are consistent\<close>

text \<open>
  What the choice of tiles relies on: the array is small against \<open>size_t\<close>, the initial square
  of result blocks fits the accumulator, and there is room for a block on either side of it.
\<close>

locale systolic_array =
  fixes p :: gemmini_params and ty :: matmul_type
  assumes DIM_pos: "0 < DIM p" "DIM p \<le> 65536"
    and spad_small: "max_spad_rows p ty \<le> 65535" "max_acc_rows p ty \<le> 65535"
    and tile_pos: "0 < max_tile_i_j p ty" "0 < max_tile_k p ty"
    and acc_square: "max_tile_i_j p ty * max_tile_i_j p ty * DIM p \<le> max_acc_rows p ty"
    and spad_pair: "2 * max_tile_i_j p ty * max_tile_k p ty * DIM p \<le> max_spad_rows p ty"
begin

abbreviation blocks :: "nat \<Rightarrow> nat" where
  "blocks n \<equiv> dim_padded p n div DIM p"

lemma padded_exact:
  assumes "n \<le> 2147483648"
  shows "dim_padded p n = blocks n * DIM p" "dim_padded p n \<le> n + DIM p" "n \<le> dim_padded p n" "dim_padded p n < n + DIM p"
proof -
  let ?b = "n div DIM p + (if n mod DIM p \<noteq> 0 then 1 else 0)"
  have dm: "n div DIM p * DIM p + n mod DIM p = n" by simp
  have m: "n mod DIM p < DIM p" using DIM_pos by simp
  have b3: "?b * DIM p \<le> n + DIM p \<and> n \<le> ?b * DIM p \<and> ?b * DIM p < n + DIM p"
  proof (cases "n mod DIM p = 0")
    case True
    then show ?thesis using dm DIM_pos(1) by simp
  next
    case False
    then have "0 < n mod DIM p" "?b * DIM p = n div DIM p * DIM p + DIM p" by (simp_all add: add_mult_distrib)
    then show ?thesis using dm m by linarith
  qed
  then have b: "?b * DIM p \<le> n + DIM p" "n \<le> ?b * DIM p" "?b * DIM p < n + DIM p" by blast+
  have "n + DIM p < size_t_range" using assms DIM_pos by simp
  then have "?b * DIM p mod size_t_range = ?b * DIM p" using b by (intro mod_less) linarith
  then have e: "dim_padded p n = ?b * DIM p" by (simp only: dim_padded_def)
  then show "dim_padded p n = blocks n * DIM p" using DIM_pos by simp
  show "dim_padded p n \<le> n + DIM p" "n \<le> dim_padded p n" "dim_padded p n < n + DIM p" using b by (simp_all only: e)
qed

lemma blocks_pos:
  assumes "0 < n" "n \<le> 2147483648"
  shows "0 < blocks n"
  using padded_exact(1,3) [OF assms(2)] assms(1) by (cases "blocks n") auto

text \<open>The test that a tile can grow does not wrap around.\<close>

lemma grow_test:
  assumes "n \<le> 2147483648" "t \<le> blocks n"
  shows "(t + 1) * DIM p mod size_t_range \<le> dim_padded p n \<longleftrightarrow> t + 1 \<le> blocks n" "(t + 1) mod size_t_range = t + 1"
    "t * DIM p mod size_t_range = t * DIM p"
proof -
  have "t * DIM p \<le> blocks n * DIM p" using assms(2) by simp
  then have "(t + 1) * DIM p \<le> dim_padded p n + DIM p" using padded_exact(1) [OF assms(1)] by simp
  moreover have "dim_padded p n + DIM p < size_t_range" using padded_exact(2) [OF assms(1)] assms(1) DIM_pos by simp
  ultimately have l: "(t + 1) * DIM p < size_t_range" by linarith
  then have "(t + 1) * DIM p mod size_t_range = (t + 1) * DIM p" by (rule mod_less)
  then show "(t + 1) * DIM p mod size_t_range \<le> dim_padded p n \<longleftrightarrow> t + 1 \<le> blocks n"
    using padded_exact(1) [OF assms(1)] DIM_pos(1) by (metis mult_le_cancel2)
  have "(t + 1) * 1 \<le> (t + 1) * DIM p" using DIM_pos(1) by (intro mult_le_mono2) simp
  then show "(t + 1) mod size_t_range = t + 1" using l by (intro mod_less) (simp only: mult_1_right)
  show "t * DIM p mod size_t_range = t * DIM p" using l by (intro mod_less) simp
qed

end

section \<open>The loop that fills the scratchpad\<close>

context systolic_array
begin

definition within :: "nat \<times> nat \<times> nat \<Rightarrow> tiles \<Rightarrow> bool" where
  "within = (\<lambda>(dI, dJ, dK) (I, J, K). dI \<le> 2147483648 \<and> dJ \<le> 2147483648 \<and> dK \<le> 2147483648
     \<and> I \<le> blocks dI \<and> J \<le> blocks dJ \<and> K \<le> blocks dK)"

definition fits :: "tiles \<Rightarrow> bool" where
  "fits = (\<lambda>(I, J, K). 0 < I \<and> 0 < J \<and> 0 < K \<and> (I * K + K * J) * DIM p \<le> max_spad_rows p ty \<and> I * J * DIM p \<le> max_acc_rows p ty)"

definition size3 :: "tiles \<Rightarrow> nat" where
  "size3 = (\<lambda>(I, J, K). I + J + K)"

text \<open>Growing keeps the tiles within the matrix, and \<open>increased\<close> is set only when one grew.\<close>

definition grows :: "nat \<times> nat \<times> nat \<Rightarrow> (tiles \<times> bool \<Rightarrow> tiles \<times> bool) \<Rightarrow> bool" where
  "grows dims g \<longleftrightarrow> (\<forall>t b. within dims t \<longrightarrow> within dims (fst (g (t, b))) \<and> size3 t \<le> size3 (fst (g (t, b)))
     \<and> (snd (g (t, b)) \<longrightarrow> b \<or> size3 t < size3 (fst (g (t, b)))))"

lemma grows_steps:
  "grows (dI, dJ, dK) (grow_I p ty dI)" "grows (dI, dJ, dK) (grow_J p ty dJ)" "grows (dI, dJ, dK) (grow_K p ty dK)"
  using grow_test by (auto simp: grows_def grow_I_def grow_J_def grow_K_def within_def size3_def)

lemma growsD:
  assumes "grows dims g" "within dims (fst s)"
  shows "within dims (fst (g s))" "size3 (fst s) \<le> size3 (fst (g s))" "snd (g s) \<Longrightarrow> snd s \<or> size3 (fst s) < size3 (fst (g s))"
  using assms by (cases s; simp only: grows_def fst_conv snd_conv; blast)+

lemma fill_round_grows:
  assumes "within dims t"
  shows "within dims (fst (fill_round p ty dims (t, b)))" "size3 t \<le> size3 (fst (fill_round p ty dims (t, b)))"
    "snd (fill_round p ty dims (t, b)) \<Longrightarrow> size3 t < size3 (fst (fill_round p ty dims (t, b)))"
proof -
  obtain dI dJ dK where d: "dims = (dI, dJ, dK)" by (cases dims)
  define s1 s2 s3 where "s1 = grow_J p ty dJ (t, False)" and "s2 = grow_I p ty dI s1" and "s3 = grow_K p ty dK s2"
  have s3: "fill_round p ty dims (t, b) = s3" by (simp add: fill_round_def d s1_def s2_def s3_def)
  note 1 = growsD [OF grows_steps(2) [of dI dJ dK], of "(t, False)", folded d s1_def, simplified fst_conv snd_conv, OF assms]
  note 2 = growsD [OF grows_steps(1) [of dI dJ dK], of s1, folded d s2_def, OF 1(1)]
  note 3 = growsD [OF grows_steps(3) [of dI dJ dK], of s2, folded d s3_def, OF 2(1)]
  show "within dims (fst (fill_round p ty dims (t, b)))" "size3 t \<le> size3 (fst (fill_round p ty dims (t, b)))"
    using 1(2) 2(2) 3(1,2) unfolding s3 by linarith+
  show "size3 t < size3 (fst (fill_round p ty dims (t, b)))" if "snd (fill_round p ty dims (t, b))"
    using that 1(2,3) 2(2,3) 3(2,3) unfolding s3 by (metis order.strict_trans1 order.strict_trans2)
qed

lemma fill_terminates:
  assumes "within dims t"
  shows "\<exists>r. while_option snd (fill_round p ty dims) (t, True) = Some r"
proof -
  obtain dI dJ dK where d: "dims = (dI, dJ, dK)" by (cases dims)
  let ?m = "\<lambda>s. 2 * (blocks dI + blocks dJ + blocks dK - size3 (fst s)) + (if snd s then 1 else 0)"
  have "(fill_round p ty dims s, s) \<in> measure ?m" if s: "within dims (fst s)" "snd s" for s
  proof -
    obtain u where u: "s = (u, True)" using s(2) by (cases s) auto
    note g = fill_round_grows [of dims u True]
    have "size3 (fst (fill_round p ty dims s)) \<le> blocks dI + blocks dJ + blocks dK"
      using g(1) s(1) by (auto simp: u d within_def size3_def)
    then show ?thesis using g(2,3) s(1) by (cases "snd (fill_round p ty dims s)") (auto simp: u)
  qed
  moreover have "within dims (fst (fill_round p ty dims s))" if "within dims (fst s)" for s
    using fill_round_grows(1) [OF that, of "snd s"] by simp
  ultimately show ?thesis
    using assms by (intro wf_rel_while_option_Some [of "measure ?m" "\<lambda>s. within dims (fst s)"]) simp_all
qed

end

section \<open>The tiles that result\<close>

context systolic_array
begin

lemma fits_parts:
  assumes "fits (I, J, K)"
  shows "0 < I" "0 < J" "0 < K" "I * K * DIM p + K * J * DIM p \<le> 65535" "I * J * DIM p \<le> 65535"
    "I * DIM p \<le> 65535" "J * DIM p \<le> 65535" "K * DIM p \<le> 65535"
proof -
  show p: "0 < I" "0 < J" "0 < K" using assms by (simp_all add: fits_def)
  show s: "I * K * DIM p + K * J * DIM p \<le> 65535" using assms spad_small(1) by (simp add: fits_def add_mult_distrib)
  show a: "I * J * DIM p \<le> 65535" using assms spad_small(2) by (simp add: fits_def)
  have "x * DIM p \<le> x * DIM p * y" if "0 < y" for x y using that by (cases y) auto
  from this [of J I] this [of I J] this [of I K] p have "I * DIM p \<le> I * DIM p * J" "J * DIM p \<le> J * DIM p * I" "K * DIM p \<le> K * DIM p * I"
    by blast+
  then show "I * DIM p \<le> 65535" "J * DIM p \<le> 65535" "K * DIM p \<le> 65535" using s a by (simp_all only: ac_simps)
qed

text \<open>For tiles that fit, the sizes that the code tests are those of the numbers.\<close>

lemma rows_exact:
  assumes "fits (I, J, K)"
  shows "tiled_matmul_total_spad_rows p I (J + 1) K = (I * K + K * (J + 1)) * DIM p" "tiled_matmul_total_acc_rows p I (J + 1) = I * (J + 1) * DIM p"
    "tiled_matmul_total_spad_rows p (I + 1) J K = ((I + 1) * K + K * J) * DIM p" "tiled_matmul_total_acc_rows p (I + 1) J = (I + 1) * J * DIM p"
    "tiled_matmul_total_spad_rows p I J (K + 1) = (I * (K + 1) + (K + 1) * J) * DIM p"
    "tiled_matmul_total_spad_rows p I J K = (I * K + K * J) * DIM p" "tiled_matmul_total_acc_rows p I J = I * J * DIM p"
proof -
  note f = fits_parts [OF assms]
  show "tiled_matmul_total_spad_rows p I (J + 1) K = (I * K + K * (J + 1)) * DIM p" "tiled_matmul_total_acc_rows p I (J + 1) = I * (J + 1) * DIM p"
    "tiled_matmul_total_spad_rows p (I + 1) J K = ((I + 1) * K + K * J) * DIM p" "tiled_matmul_total_acc_rows p (I + 1) J = (I + 1) * J * DIM p"
    "tiled_matmul_total_spad_rows p I J (K + 1) = (I * (K + 1) + (K + 1) * J) * DIM p"
    "tiled_matmul_total_spad_rows p I J K = (I * K + K * J) * DIM p" "tiled_matmul_total_acc_rows p I J = I * J * DIM p"
    unfolding tiled_matmul_total_spad_rows_def tiled_matmul_total_acc_rows_def
    using f by (intro mod_less; simp add: add_mult_distrib add_mult_distrib2)+
qed

definition room :: "nat \<times> nat \<times> nat \<Rightarrow> tiles \<Rightarrow> bool" where
  "room = (\<lambda>(dI, dJ, dK) (I, J, K). I + 1 \<le> blocks dI \<and> fits (I + 1, J, K) \<or> J + 1 \<le> blocks dJ \<and> fits (I, J + 1, K)
     \<or> K + 1 \<le> blocks dK \<and> fits (I, J, K + 1))"

lemma grow_fits:
  assumes "within (dI, dJ, dK) (I, J, K)" "fits (I, J, K)"
  shows "grow_J p ty dJ ((I, J, K), b) = (if J + 1 \<le> blocks dJ \<and> fits (I, J + 1, K) then ((I, J + 1, K), True) else ((I, J, K), b))"
    "grow_I p ty dI ((I, J, K), b) = (if I + 1 \<le> blocks dI \<and> fits (I + 1, J, K) then ((I + 1, J, K), True) else ((I, J, K), b))"
    "grow_K p ty dK ((I, J, K), b) = (if K + 1 \<le> blocks dK \<and> fits (I, J, K + 1) then ((I, J, K + 1), True) else ((I, J, K), b))"
proof -
  have d: "dI \<le> 2147483648" "dJ \<le> 2147483648" "dK \<le> 2147483648" "I \<le> blocks dI" "J \<le> blocks dJ" "K \<le> blocks dK"
    using assms(1) by (simp_all add: within_def)
  have f: "0 < I" "0 < J" "0 < K" "I * J * DIM p \<le> max_acc_rows p ty" using assms(2) by (simp_all add: fits_def)
  show "grow_J p ty dJ ((I, J, K), b) = (if J + 1 \<le> blocks dJ \<and> fits (I, J + 1, K) then ((I, J + 1, K), True) else ((I, J, K), b))"
    unfolding grow_J_def split rows_exact [OF assms(2)] grow_test [OF d(2,5)] fits_def using f by simp
  show "grow_I p ty dI ((I, J, K), b) = (if I + 1 \<le> blocks dI \<and> fits (I + 1, J, K) then ((I + 1, J, K), True) else ((I, J, K), b))"
    unfolding grow_I_def split rows_exact [OF assms(2)] grow_test [OF d(1,4)] fits_def using f by simp
  show "grow_K p ty dK ((I, J, K), b) = (if K + 1 \<le> blocks dK \<and> fits (I, J, K + 1) then ((I, J, K + 1), True) else ((I, J, K), b))"
    unfolding grow_K_def split rows_exact [OF assms(2)] grow_test [OF d(3,6)] fits_def using f by simp
qed

lemma fill_round_fits:
  assumes "within dims (I, J, K)" "fits (I, J, K)"
  shows "fits (fst (fill_round p ty dims ((I, J, K), b)))"
    "\<not> snd (fill_round p ty dims ((I, J, K), b)) \<Longrightarrow> \<not> room dims (fst (fill_round p ty dims ((I, J, K), b)))"
proof -
  obtain dI dJ dK where d: "dims = (dI, dJ, dK)" by (cases dims)
  define J' where "J' = (if J + 1 \<le> blocks dJ \<and> fits (I, J + 1, K) then J + 1 else J)"
  have 1: "grow_J p ty dJ ((I, J, K), False) = ((I, J', K), J' \<noteq> J)" "fits (I, J', K)" "within dims (I, J', K)"
    using grow_fits(1) [of dI dJ dK I J K] assms by (auto simp: J'_def d within_def)
  define I' where "I' = (if I + 1 \<le> blocks dI \<and> fits (I + 1, J', K) then I + 1 else I)"
  have 2: "grow_I p ty dI ((I, J', K), J' \<noteq> J) = ((I', J', K), I' \<noteq> I \<or> J' \<noteq> J)" "fits (I', J', K)" "within dims (I', J', K)"
    using grow_fits(2) [of dI dJ dK I J' K] 1 by (auto simp: I'_def d within_def)
  define K' where "K' = (if K + 1 \<le> blocks dK \<and> fits (I', J', K + 1) then K + 1 else K)"
  have "grow_K p ty dK ((I', J', K), x) = ((I', J', K'), K' \<noteq> K \<or> x)" for x
    using grow_fits(3) [of dI dJ dK I' J' K x] 2 by (simp add: K'_def d)
  then have 3: "grow_K p ty dK ((I', J', K), I' \<noteq> I \<or> J' \<noteq> J) = ((I', J', K'), K' \<noteq> K \<or> I' \<noteq> I \<or> J' \<noteq> J)" .
  have 4: "fits (I', J', K')" using 2(2) by (simp add: K'_def)
  have r: "fill_round p ty dims ((I, J, K), b) = ((I', J', K'), K' \<noteq> K \<or> I' \<noteq> I \<or> J' \<noteq> J)"
    by (simp only: fill_round_def d split 1(1) 2(1) 3)
  then show "fits (fst (fill_round p ty dims ((I, J, K), b)))" using 4 by simp
  show "\<not> room dims (fst (fill_round p ty dims ((I, J, K), b)))" if "\<not> snd (fill_round p ty dims ((I, J, K), b))"
  proof -
    have e: "K' = K" "I' = I" "J' = J" using that by (simp_all add: r)
    then have "\<not> (J + 1 \<le> blocks dJ \<and> fits (I, J + 1, K))" "\<not> (I + 1 \<le> blocks dI \<and> fits (I + 1, J, K))"
      "\<not> (K + 1 \<le> blocks dK \<and> fits (I, J, K + 1))" by (auto simp: J'_def I'_def K'_def split: if_splits)
    then show ?thesis using e by (simp add: r [unfolded d] room_def d)
  qed
qed

text \<open>From tiles that fit, the loop ends with tiles that fit and none of which can grow.\<close>

lemma fill_maximal:
  assumes "within dims t" "fits t"
  shows "\<exists>u. while_option snd (fill_round p ty dims) (t, True) = Some (u, False) \<and> within dims u \<and> fits u \<and> \<not> room dims u"
proof -
  obtain r where r: "while_option snd (fill_round p ty dims) (t, True) = Some r" using fill_terminates [OF assms(1)] by blast
  let ?P = "\<lambda>s. within dims (fst s) \<and> fits (fst s) \<and> (snd s \<or> \<not> room dims (fst s))"
  have "?P (fill_round p ty dims s)" if "?P s" for s
    using that fill_round_grows(1) [of dims "fst s" "snd s"] fill_round_fits [of dims _ _ _ "snd s"]
    by (cases s; cases "fst s") auto
  then have "?P r" by (intro while_option_rule [OF _ r, of ?P]) (use assms in auto)
  moreover have "\<not> snd r" using while_option_stop [OF r] .
  ultimately show ?thesis using r by (cases r) auto
qed

end

section \<open>Every matrix is accepted\<close>

context systolic_array
begin

lemma initial_fits:
  assumes "\<not> is_norm act" "0 < dI" "0 < dJ" "0 < dK" "dI \<le> 2147483648" "dJ \<le> 2147483648" "dK \<le> 2147483648"
  shows "within (dI, dJ, dK) (initial_tiles p ty act (dI, dJ, dK))" "fits (initial_tiles p ty act (dI, dJ, dK))"
proof -
  define M N where "M = max_tile_i_j p ty" and "N = max_tile_k p ty"
  define I J K where "I = min (blocks dI) M" and "J = min (blocks dJ) M" and "K = min (blocks dK) N"
  have i: "initial_tiles p ty act (dI, dJ, dK) = (I, J, K)"
    using assms(1) by (auto simp: Let_def initial_tiles_def is_norm_def I_def J_def K_def M_def N_def min_def)
  have b: "0 < blocks dI" "0 < blocks dJ" "0 < blocks dK" using blocks_pos assms(2-7) by blast+
  have pos: "0 < I" "0 < J" "0 < K" using b tile_pos by (simp_all add: I_def J_def K_def M_def N_def)
  have le: "I \<le> M" "J \<le> M" "K \<le> N" by (simp_all add: I_def J_def K_def)
  have "I * K + K * J \<le> M * N + N * M" using le by (intro add_mono mult_le_mono)
  then have "(I * K + K * J) * DIM p \<le> 2 * M * N * DIM p" by (intro mult_le_mono1) (simp add: ac_simps)
  moreover have "I * J * DIM p \<le> M * M * DIM p" using le by (intro mult_le_mono) auto
  ultimately have "(I * K + K * J) * DIM p \<le> max_spad_rows p ty" "I * J * DIM p \<le> max_acc_rows p ty"
    using acc_square spad_pair unfolding M_def N_def by (blast intro: order.trans)+
  then show "fits (initial_tiles p ty act (dI, dJ, dK))" using pos by (simp add: i fits_def)
  show "within (dI, dJ, dK) (initial_tiles p ty act (dI, dJ, dK))"
    using assms by (simp add: i within_def I_def J_def K_def)
qed

lemma fits_check:
  assumes "within (dI, dJ, dK) (I, J, K)" "fits (I, J, K)"
    and "\<not> (ty = OS \<and> (transpose_A x \<or> transpose_B x) \<or> ty = WS \<and> transpose_A x \<and> transpose_B x)"
  shows "tiled_matmul_check p ty act x (dI, dJ, dK) (I, J, K) = Inr (tile_warnings p ty act x dJ J)"
proof -
  have d: "dI \<le> 2147483648" "dJ \<le> 2147483648" "dK \<le> 2147483648" "I \<le> blocks dI" "J \<le> blocks dJ" "K \<le> blocks dK"
    using assms(1) by (simp_all add: within_def)
  have s: "x * DIM p \<le> dim_padded p n" if "x \<le> blocks n" "n \<le> 2147483648" for x n
    using that padded_exact(1) [OF that(2)] by (metis mult_le_mono1)
  note f = fits_parts [OF assms(2)]
  have small: "x \<le> 65535" if "x * DIM p \<le> 65535" for x using that DIM_pos(1) by (cases "DIM p") auto
  have cap: "(I * K + K * J) * DIM p \<le> max_spad_rows p ty" "I * J * DIM p \<le> max_acc_rows p ty"
    using assms(2) by (simp_all add: fits_def)
  have no: "\<not> 65535 < I" "\<not> 65535 < J" "\<not> 65535 < K" using small [OF f(6)] small [OF f(7)] small [OF f(8)] by simp_all
  have big: "\<not> dim_padded p dI < I * DIM p" "\<not> dim_padded p dJ < J * DIM p" "\<not> dim_padded p dK < K * DIM p"
    using s [OF d(4,1)] s [OF d(5,2)] s [OF d(6,3)] by simp_all
  show ?thesis
    unfolding tiled_matmul_check_def split rows_exact(6,7) [OF assms(2)] grow_test(3) [OF d(1,4)] grow_test(3) [OF d(2,5)] grow_test(3) [OF d(3,6)]
    using f(1-3) cap no big assms(3) by simp
qed

lemma auto_maximal:
  assumes "\<not> is_norm act" "0 < dI" "0 < dJ" "0 < dK" "dI \<le> 2147483648" "dJ \<le> 2147483648" "dK \<le> 2147483648"
    and "\<not> (ty = OS \<and> (transpose_A x \<or> transpose_B x) \<or> ty = WS \<and> transpose_A x \<and> transpose_B x)"
  shows "\<exists>I J K. tiled_matmul_auto p ty act (dI, dJ, dK) = Some (I, J, K)
    \<and> tiled_matmul_check p ty act x (dI, dJ, dK) (I, J, K) = Inr (tile_warnings p ty act x dJ J)
    \<and> (I * K + K * J) * DIM p \<le> max_spad_rows p ty \<and> I * J * DIM p \<le> max_acc_rows p ty
    \<and> ((I + 1) * DIM p > dim_padded p dI \<or> ((I + 1) * K + K * J) * DIM p > max_spad_rows p ty \<or> (I + 1) * J * DIM p > max_acc_rows p ty)
    \<and> ((J + 1) * DIM p > dim_padded p dJ \<or> (I * K + K * (J + 1)) * DIM p > max_spad_rows p ty \<or> I * (J + 1) * DIM p > max_acc_rows p ty)
    \<and> ((K + 1) * DIM p > dim_padded p dK \<or> (I * (K + 1) + (K + 1) * J) * DIM p > max_spad_rows p ty)"
proof -
  obtain I J K where "while_option snd (fill_round p ty (dI, dJ, dK)) (initial_tiles p ty act (dI, dJ, dK), True) = Some ((I, J, K), False)"
    and w: "within (dI, dJ, dK) (I, J, K)" "fits (I, J, K)" "\<not> room (dI, dJ, dK) (I, J, K)"
    using fill_maximal [OF initial_fits [OF assms(1-7)]] by auto
  then have a: "tiled_matmul_auto p ty act (dI, dJ, dK) = Some (I, J, K)" by (simp add: tiled_matmul_auto_def)
  have past: "(t + 1) * DIM p > dim_padded p n \<or> \<not> c" if "\<not> (t + 1 \<le> blocks n \<and> c)" "n \<le> 2147483648" for t n and c :: bool
    using that(1) padded_exact(1) [OF that(2)] DIM_pos(1) by (metis mult_less_cancel2 not_le)
  have f: "0 < I" "0 < J" "0 < K" "(I * K + K * J) * DIM p \<le> max_spad_rows p ty" "I * J * DIM p \<le> max_acc_rows p ty"
    using w(2) by (simp_all add: fits_def)
  have r: "\<not> (I + 1 \<le> blocks dI \<and> fits (I + 1, J, K))" "\<not> (J + 1 \<le> blocks dJ \<and> fits (I, J + 1, K))" "\<not> (K + 1 \<le> blocks dK \<and> fits (I, J, K + 1))"
    using w(3) by (simp_all add: room_def)
  have "(I + 1) * DIM p > dim_padded p dI \<or> ((I + 1) * K + K * J) * DIM p > max_spad_rows p ty \<or> (I + 1) * J * DIM p > max_acc_rows p ty"
    using past [OF r(1) assms(5)] f by (auto simp: fits_def not_le)
  moreover have "(J + 1) * DIM p > dim_padded p dJ \<or> (I * K + K * (J + 1)) * DIM p > max_spad_rows p ty \<or> I * (J + 1) * DIM p > max_acc_rows p ty"
    using past [OF r(2) assms(6)] f by (auto simp: fits_def not_le)
  moreover have "(K + 1) * DIM p > dim_padded p dK \<or> (I * (K + 1) + (K + 1) * J) * DIM p > max_spad_rows p ty"
    using past [OF r(3) assms(7)] f by (auto simp: fits_def not_le)
  ultimately show ?thesis using a f(4,5) fits_check [OF w(1,2) assms(8)] by blast
qed

end

text \<open>Both parameter headers of the repository satisfy the interface, for each dataflow.\<close>

lemma floor_sqrt_values: "floor_sqrt 64 = 8" "floor_sqrt 32 = 5"
  by code_simp+

interpretation dim16_os: systolic_array dim16fp16 OS
  by unfold_locales (simp_all add: dim16fp16_def max_spad_rows_def max_acc_rows_def max_tile_i_j_def max_tile_k_def floor_sqrt_values)

interpretation dim16_ws: systolic_array dim16fp16 WS
  by unfold_locales (simp_all add: dim16fp16_def max_spad_rows_def max_acc_rows_def max_tile_i_j_def max_tile_k_def floor_sqrt_values)

interpretation dim8_os: systolic_array dim8fp32 OS
  by unfold_locales (simp_all add: dim8fp32_def max_spad_rows_def max_acc_rows_def max_tile_i_j_def max_tile_k_def floor_sqrt_values)

interpretation dim8_ws: systolic_array dim8fp32 WS
  by unfold_locales (simp_all add: dim8fp32_def max_spad_rows_def max_acc_rows_def max_tile_i_j_def max_tile_k_def floor_sqrt_values)

interpretation dim16_cpu: systolic_array dim16fp16 CPU
  by unfold_locales (simp_all add: dim16fp16_def max_spad_rows_def max_acc_rows_def max_tile_i_j_def max_tile_k_def floor_sqrt_values)

interpretation dim8_cpu: systolic_array dim8fp32 CPU
  by unfold_locales (simp_all add: dim8fp32_def max_spad_rows_def max_acc_rows_def max_tile_i_j_def max_tile_k_def floor_sqrt_values)

lemma array_cases: "p \<in> {dim16fp16, dim8fp32} \<Longrightarrow> systolic_array p ty"
  using dim16_os.systolic_array_axioms dim16_ws.systolic_array_axioms dim16_cpu.systolic_array_axioms
    dim8_os.systolic_array_axioms dim8_ws.systolic_array_axioms dim8_cpu.systolic_array_axioms
  by (cases ty) auto

text \<open>C38: For both arrays of the repository, every dataflow and every matrix of at most \<open>2^31\<close>
  elements in each direction, the loop of \<open>tiled_matmul_auto\<close> ends, without wrap-around in its
  tests, and \<open>tiled_matmul\<close> accepts the tiles: none of its exits is taken when the transposition
  is one that the dataflow supports and the activation is not a normalisation.  The tiles also
  cannot be enlarged in any one direction without overrunning the matrix or a memory.\<close>

theorem tiled_matmul_auto_accepted:
  assumes "p \<in> {dim16fp16, dim8fp32}" "\<not> is_norm act"
    and "0 < dI" "0 < dJ" "0 < dK" "dI \<le> 2147483648" "dJ \<le> 2147483648" "dK \<le> 2147483648"
    and "\<not> (ty = OS \<and> (transpose_A x \<or> transpose_B x) \<or> ty = WS \<and> transpose_A x \<and> transpose_B x)"
  shows "\<exists>I J K. tiled_matmul_auto p ty act (dI, dJ, dK) = Some (I, J, K)
    \<and> tiled_matmul_check p ty act x (dI, dJ, dK) (I, J, K) = Inr (tile_warnings p ty act x dJ J)
    \<and> (I * K + K * J) * DIM p \<le> max_spad_rows p ty \<and> I * J * DIM p \<le> max_acc_rows p ty
    \<and> ((I + 1) * DIM p > dim_padded p dI \<or> ((I + 1) * K + K * J) * DIM p > max_spad_rows p ty \<or> (I + 1) * J * DIM p > max_acc_rows p ty)
    \<and> ((J + 1) * DIM p > dim_padded p dJ \<or> (I * K + K * (J + 1)) * DIM p > max_spad_rows p ty \<or> I * (J + 1) * DIM p > max_acc_rows p ty)
    \<and> ((K + 1) * DIM p > dim_padded p dK \<or> (I * (K + 1) + (K + 1) * J) * DIM p > max_spad_rows p ty)"
  by (rule systolic_array.auto_maximal [OF array_cases [OF assms(1)] assms(2-)])

definition plain_options :: tiled_options where
  "plain_options = \<lparr>transpose_A = False, transpose_B = True, full_C = False, low_D = False\<rparr>"

theorem tiled_matmul_auto_accepted_witness:
  "\<exists>I J K. tiled_matmul_auto dim16fp16 WS RELU (1000, 50, 7) = Some (I, J, K)
     \<and> tiled_matmul_check dim16fp16 WS RELU plain_options (1000, 50, 7) (I, J, K) = Inr [] \<and> I * J \<le> 32"
  using tiled_matmul_auto_accepted [of dim16fp16 RELU 1000 50 7 WS plain_options]
  by (simp add: plain_options_def is_norm_def tile_warnings_def max_acc_rows_def dim16fp16_def) blast

section \<open>Termination for every activation\<close>

context systolic_array
begin

lemma auto_terminates:
  assumes "0 < dI" "0 < dK" "dI \<le> 2147483648" "dJ \<le> 2147483648" "dK \<le> 2147483648"
  shows "\<exists>I J K. tiled_matmul_auto p ty act (dI, dJ, dK) = Some (I, J, K) \<and> I \<le> blocks dI \<and> J \<le> blocks dJ \<and> K \<le> blocks dK"
proof -
  have "0 < blocks dI" "0 < blocks dK" using blocks_pos assms by blast+
  then have w: "within (dI, dJ, dK) (initial_tiles p ty act (dI, dJ, dK))"
    using assms by (auto simp: within_def initial_tiles_def Let_def)
  obtain r where r: "while_option snd (fill_round p ty (dI, dJ, dK)) (initial_tiles p ty act (dI, dJ, dK), True) = Some r"
    using fill_terminates [OF w] by blast
  have "within (dI, dJ, dK) (fst r)"
  proof (rule while_option_rule [OF _ r, of "\<lambda>s. within (dI, dJ, dK) (fst s)"])
    show "within (dI, dJ, dK) (fst (fill_round p ty (dI, dJ, dK) s))" if "within (dI, dJ, dK) (fst s)" for s
      using fill_round_grows(1) [OF that, of "snd s"] by (simp only: prod.collapse)
  qed (simp only: fst_conv w)
  then show ?thesis using r by (cases r; cases "fst r") (auto simp: tiled_matmul_auto_def within_def)
qed

end

text \<open>The loop that fills the scratchpad ends for every activation, a normalisation included,
  and whether or not the first choice of tiles fits, and the tiles stay within the padded matrix.\<close>

theorem tiled_matmul_auto_terminates:
  assumes "p \<in> {dim16fp16, dim8fp32}" "0 < dI" "0 < dK" "dI \<le> 2147483648" "dJ \<le> 2147483648" "dK \<le> 2147483648"
  shows "\<exists>I J K. tiled_matmul_auto p ty act (dI, dJ, dK) = Some (I, J, K)
    \<and> I \<le> dim_padded p dI div DIM p \<and> J \<le> dim_padded p dJ div DIM p \<and> K \<le> dim_padded p dK div DIM p"
  by (rule systolic_array.auto_terminates [OF array_cases [OF assms(1)] assms(2-)])

theorem tiled_matmul_auto_terminates_witness:
  "\<exists>I K. tiled_matmul_auto dim8fp32 WS LAYERNORM (9, 0, 7) = Some (I, 0, K) \<and> I \<le> 2"
proof -
  have d: "dim_padded dim8fp32 9 div DIM dim8fp32 = 2" "dim_padded dim8fp32 0 div DIM dim8fp32 = 0"
    by (simp_all add: dim_padded_def dim8fp32_def)
  obtain I J K where "tiled_matmul_auto dim8fp32 WS LAYERNORM (9, 0, 7) = Some (I, J, K)" "I \<le> 2" "J \<le> 0"
    using tiled_matmul_auto_terminates [of dim8fp32 9 7 0 WS LAYERNORM, unfolded d, OF insertI2 [OF singletonI]] by force
  then show ?thesis by simp
qed

end
