(* ===== verification/Gemmini_Outer.thy ===== *)
theory Gemmini_Outer
  imports Gemmini_Tiles
begin

text \<open>
  The tile loop of a matrix product on the systolic array: \<open>tiled_matmul_outer\<close> of
  \<open>src/lib/gemmini/include/gemmini.h\<close>, as the list of the calls of its inner routine.  The inner
  routine is the hardware's (\<open>gemmini_loop_ws\<close>): what a call multiplies is read off its
  arguments.  \<^const>\<open>None\<close> is the null pointer.
\<close>

record outer_args =
  dims :: "nat \<times> nat \<times> nat"
  tile_I :: nat
  tile_J :: nat
  tile_K :: nat
  o_A :: u32
  o_B :: u32
  o_D :: "u32 option"
  o_C :: u32
  o_stride_A :: nat
  o_stride_B :: nat
  o_stride_D :: nat
  o_stride_C :: nat
  o_opts :: tiled_options
  o_repeating_bias :: bool
  dataflow :: matmul_type

record inner_call =
  c_a :: "u32 option"
  c_b :: "u32 option"
  c_pre :: "u32 option"
  c_out :: "u32 option"
  c_I :: nat
  c_J :: nat
  c_K :: nat
  c_pad_I :: nat
  c_pad_J :: nat
  c_pad_K :: nat
  c_a_spad :: nat
  c_b_spad :: nat

section \<open>One dimension\<close>

text \<open>The number of tiles (\<open>I0\<close>), the size of the last one (\<open>last_I\<close>), and the size and the padding
  of tile \<open>x\<close>, for a dimension of \<open>n\<close> elements and tiles of \<open>t\<close> blocks.\<close>

definition tile_width :: "gemmini_params \<Rightarrow> nat \<Rightarrow> nat" where
  "tile_width p t = t * DIM p mod size_t_range"

definition tile_count :: "gemmini_params \<Rightarrow> nat \<Rightarrow> nat \<Rightarrow> nat" where
  "tile_count p n t = dim_padded p n div tile_width p t + (if dim_padded p n mod tile_width p t \<noteq> 0 then 1 else 0)"

definition tile_last :: "gemmini_params \<Rightarrow> nat \<Rightarrow> nat \<Rightarrow> nat" where
  "tile_last p n t = (if dim_padded p n mod tile_width p t = 0 then t else (dim_padded p n div DIM p) mod t)"

definition tile_size :: "gemmini_params \<Rightarrow> nat \<Rightarrow> nat \<Rightarrow> nat \<Rightarrow> nat" where
  "tile_size p n t x = (if x < tile_count p n t - 1 then t else tile_last p n t)"

definition tile_pad :: "gemmini_params \<Rightarrow> nat \<Rightarrow> nat \<Rightarrow> nat \<Rightarrow> nat" where
  "tile_pad p n t x = (if x = tile_count p n t - 1 then dim_padded p n - n else 0)"

section \<open>The calls\<close>

definition plain_a :: "gemmini_params \<Rightarrow> outer_args \<Rightarrow> nat \<Rightarrow> nat \<Rightarrow> u32" where
  "plain_a p M i0 k0 =
     (if transpose_A (o_opts M)
      then o_A M + of_nat ((k0 * tile_K M * DIM p * o_stride_A M + i0 * tile_I M * DIM p) * sizeof_elem p)
      else o_A M + of_nat ((i0 * tile_I M * DIM p * o_stride_A M + k0 * tile_K M * DIM p) * sizeof_elem p))"

definition plain_b :: "gemmini_params \<Rightarrow> outer_args \<Rightarrow> nat \<Rightarrow> nat \<Rightarrow> u32" where
  "plain_b p M j0 k0 =
     (if transpose_B (o_opts M)
      then o_B M + of_nat ((j0 * tile_J M * DIM p * o_stride_B M + k0 * tile_K M * DIM p) * sizeof_elem p)
      else o_B M + of_nat ((k0 * tile_K M * DIM p * o_stride_B M + j0 * tile_J M * DIM p) * sizeof_elem p))"

definition sizeof_D :: "gemmini_params \<Rightarrow> outer_args \<Rightarrow> nat" where
  "sizeof_D p M = (if low_D (o_opts M) then sizeof_elem p else sizeof_acc p)"

definition sizeof_C :: "gemmini_params \<Rightarrow> outer_args \<Rightarrow> nat" where
  "sizeof_C p M = (if full_C (o_opts M) then sizeof_acc p else sizeof_elem p)"

definition outer_counts :: "gemmini_params \<Rightarrow> outer_args \<Rightarrow> nat \<times> nat \<times> nat" where
  "outer_counts p M = (let (dI, dJ, dK) = dims M in (tile_count p dI (tile_I M), tile_count p dJ (tile_J M), tile_count p dK (tile_K M)))"

definition a_reuse :: "gemmini_params \<Rightarrow> outer_args \<Rightarrow> bool" where
  "a_reuse p M = (let (I0, J0, K0) = outer_counts p M in I0 * K0 mod size_t_range \<le> 2 \<and> dataflow M = WS)"

definition b_reuse :: "gemmini_params \<Rightarrow> outer_args \<Rightarrow> bool" where
  "b_reuse p M = (let (I0, J0, K0) = outer_counts p M in J0 * K0 mod size_t_range \<le> 2 \<and> dataflow M = WS)"

text \<open>With no bias the address of \<open>D\<close> is replaced by 1, which is not null.\<close>

definition outer_call :: "gemmini_params \<Rightarrow> outer_args \<Rightarrow> nat \<times> nat \<times> nat \<Rightarrow> inner_call" where
  "outer_call p M = (\<lambda>(i0, j0, k0).
     let (dI, dJ, dK) = dims M; (I0, J0, K0) = outer_counts p M;
         D = (case o_D M of None \<Rightarrow> 1 | Some D \<Rightarrow> D);
         bias_row = (if o_repeating_bias M then 0 else i0 * tile_I M * DIM p)
     in \<lparr>c_a = (if a_reuse p M \<and> j0 \<ge> 1 then None else Some (plain_a p M i0 k0)),
         c_b = (if b_reuse p M \<and> i0 \<ge> 1 then None else Some (plain_b p M j0 k0)),
         c_pre = (if k0 \<noteq> 0 then None
            else Some (D + of_nat ((bias_row * o_stride_D M + j0 * tile_J M * DIM p) * sizeof_D p M))),
         c_out = (if k0 = K0 - 1
            then Some (o_C M + of_nat ((i0 * tile_I M * DIM p * o_stride_C M + j0 * tile_J M * DIM p) * sizeof_C p M))
            else None),
         c_I = tile_size p dI (tile_I M) i0, c_J = tile_size p dJ (tile_J M) j0, c_K = tile_size p dK (tile_K M) k0,
         c_pad_I = tile_pad p dI (tile_I M) i0, c_pad_J = tile_pad p dJ (tile_J M) j0, c_pad_K = tile_pad p dK (tile_K M) k0,
         c_a_spad = (if a_reuse p M then if i0 + k0 = 0 then 1 else 2 else 0),
         c_b_spad = (if b_reuse p M then if j0 + k0 = 0 then 1 else 2 else 0)\<rparr>)"

text \<open>The iterations of the three nested loops, in their order.\<close>

definition outer_iterations :: "gemmini_params \<Rightarrow> outer_args \<Rightarrow> (nat \<times> nat \<times> nat) list" where
  "outer_iterations p M = (let (I0, J0, K0) = outer_counts p M in List.product [0..<I0] (List.product [0..<J0] [0..<K0]))"

definition tiled_matmul_outer :: "gemmini_params \<Rightarrow> outer_args \<Rightarrow> inner_call list" where
  "tiled_matmul_outer p M = map (outer_call p M) (outer_iterations p M)"

section \<open>What a call multiplies\<close>

text \<open>The rows, columns and depth that a call at given indices works on, without the padding.\<close>

definition c_rows :: "gemmini_params \<Rightarrow> inner_call \<Rightarrow> nat" where
  "c_rows p c = c_I c * DIM p - c_pad_I c"

definition c_cols :: "gemmini_params \<Rightarrow> inner_call \<Rightarrow> nat" where
  "c_cols p c = c_J c * DIM p - c_pad_J c"

definition c_depth :: "gemmini_params \<Rightarrow> inner_call \<Rightarrow> nat" where
  "c_depth p c = c_K c * DIM p - c_pad_K c"

text \<open>The addresses of an element of a tile.\<close>

definition a_element :: "gemmini_params \<Rightarrow> outer_args \<Rightarrow> u32 \<Rightarrow> nat \<Rightarrow> nat \<Rightarrow> u32" where
  "a_element p M a r k = a + of_nat ((if transpose_A (o_opts M) then k * o_stride_A M + r else r * o_stride_A M + k) * sizeof_elem p)"

definition b_element :: "gemmini_params \<Rightarrow> outer_args \<Rightarrow> u32 \<Rightarrow> nat \<Rightarrow> nat \<Rightarrow> u32" where
  "b_element p M b k c = b + of_nat ((if transpose_B (o_opts M) then c * o_stride_B M + k else k * o_stride_B M + c) * sizeof_elem p)"

definition d_element :: "gemmini_params \<Rightarrow> outer_args \<Rightarrow> u32 \<Rightarrow> nat \<Rightarrow> nat \<Rightarrow> u32" where
  "d_element p M d r j = d + of_nat (((if o_repeating_bias M then 0 else r) * o_stride_D M + j) * sizeof_D p M)"

definition out_element :: "gemmini_params \<Rightarrow> outer_args \<Rightarrow> u32 \<Rightarrow> nat \<Rightarrow> nat \<Rightarrow> u32" where
  "out_element p M c r j = c + of_nat ((r * o_stride_C M + j) * sizeof_C p M)"

text \<open>Whether the tile of the result of a call holds element \<open>(r, j)\<close>.\<close>

definition holds_element :: "gemmini_params \<Rightarrow> outer_args \<Rightarrow> nat \<Rightarrow> nat \<Rightarrow> nat \<times> nat \<times> nat \<Rightarrow> inner_call \<Rightarrow> bool" where
  "holds_element p M r j = (\<lambda>(i0, j0, _) c.
     i0 * tile_I M * DIM p \<le> r \<and> r < i0 * tile_I M * DIM p + c_rows p c
     \<and> j0 * tile_J M * DIM p \<le> j \<and> j < j0 * tile_J M * DIM p + c_cols p c)"

text \<open>A call without a pointer takes the tile that was last loaded into its slot.\<close>

fun fetch :: "(nat \<Rightarrow> u32 option) \<Rightarrow> (u32 option \<times> nat) list \<Rightarrow> u32 option list" where
  "fetch s [] = []"
| "fetch s ((Some a, i) # xs) = Some a # fetch (s(i := Some a)) xs"
| "fetch s ((None, i) # xs) = s i # fetch s xs"

definition fetched_a :: "gemmini_params \<Rightarrow> outer_args \<Rightarrow> u32 option list" where
  "fetched_a p M = fetch Map.empty (map (\<lambda>c. (c_a c, c_a_spad c)) (tiled_matmul_outer p M))"

definition fetched_b :: "gemmini_params \<Rightarrow> outer_args \<Rightarrow> u32 option list" where
  "fetched_b p M = fetch Map.empty (map (\<lambda>c. (c_b c, c_b_spad c)) (tiled_matmul_outer p M))"

text \<open>The pairs of addresses that are multiplied into element \<open>(r, j)\<close> of the result, in order:
  of each call whose tile holds the element, those of the element's row and column of the tiles.\<close>

definition call_products ::
    "gemmini_params \<Rightarrow> outer_args \<Rightarrow> nat \<Rightarrow> nat \<Rightarrow> (nat \<times> nat \<times> nat) \<times> inner_call \<times> u32 option \<times> u32 option \<Rightarrow> (u32 \<times> u32) list" where
  "call_products p M r j = (\<lambda>((i0, j0, k0), c, a, b).
     let r0 = i0 * tile_I M * DIM p; c0 = j0 * tile_J M * DIM p
     in if holds_element p M r j (i0, j0, k0) c
        then map (\<lambda>k. (a_element p M (the a) (r - r0) k, b_element p M (the b) k (j - c0))) [0..<c_depth p c] else [])"

definition outer_products :: "gemmini_params \<Rightarrow> outer_args \<Rightarrow> nat \<Rightarrow> nat \<Rightarrow> (u32 \<times> u32) list" where
  "outer_products p M r j = concat (map (call_products p M r j)
     (zip (outer_iterations p M) (zip (tiled_matmul_outer p M) (zip (fetched_a p M) (fetched_b p M)))))"

text \<open>The addresses at which those calls find the initial value of the element and leave the result,
  where they have any.\<close>

definition outer_ports :: "gemmini_params \<Rightarrow> outer_args \<Rightarrow> nat \<Rightarrow> nat \<Rightarrow> (u32 option \<times> u32 option) list" where
  "outer_ports p M r j = concat (map (\<lambda>((i0, j0, k0), c).
     let r0 = i0 * tile_I M * DIM p; c0 = j0 * tile_J M * DIM p
     in if holds_element p M r j (i0, j0, k0) c
        then [(map_option (\<lambda>d. d_element p M d (r - r0) (j - c0)) (c_pre c), map_option (\<lambda>c. out_element p M c (r - r0) (j - c0)) (c_out c))]
        else []) (zip (outer_iterations p M) (tiled_matmul_outer p M)))"

section \<open>The tiles of a dimension\<close>

context systolic_array
begin

text \<open>In blocks: \<open>tile_count\<close> rounds up, and the last tile is the rest.\<close>

lemma tile_shape:
  assumes "0 < n" "n \<le> 2147483648" "0 < t" "t \<le> blocks n"
  shows "tile_width p t = t * DIM p" "0 < tile_count p n t" "(tile_count p n t - 1) * t < blocks n"
    "tile_last p n t = blocks n - (tile_count p n t - 1) * t" "tile_last p n t \<le> t"
proof -
  let ?d = "DIM p" and ?b = "blocks n"
  note pe = padded_exact(1) [OF assms(2)]
  show w: "tile_width p t = t * ?d" by (simp add: tile_width_def grow_test(3) [OF assms(2,4)])
  have m: "dim_padded p n mod tile_width p t = ?b mod t * ?d" "dim_padded p n div tile_width p t = ?b div t"
    using DIM_pos(1) by (subst pe, simp add: w mod_mult_mult2 div_mult_mult2)+
  have b: "?b div t * t + ?b mod t = ?b" by simp
  have b0: "0 < ?b" using blocks_pos assms by blast
  have c: "tile_count p n t = ?b div t + (if ?b mod t \<noteq> 0 then 1 else 0)" "tile_last p n t = (if ?b mod t = 0 then t else ?b mod t)"
    using DIM_pos(1) by (simp_all add: tile_count_def tile_last_def m)
  have "0 < tile_count p n t \<and> (tile_count p n t - 1) * t < ?b \<and> tile_last p n t = ?b - (tile_count p n t - 1) * t \<and> tile_last p n t \<le> t"
  proof (cases "?b mod t = 0")
    case True
    obtain q where q: "?b = Suc q * t" using True b b0 by (metis Suc_pred mult_0 mult_pos_pos nat_0_less_mult_iff add.right_neutral)
    then have "?b div t = Suc q" using assms(3) by (metis nonzero_mult_div_cancel_right less_numeral_extra(3))
    then show ?thesis using True q assms(3) by (simp add: c)
  next
    case False
    then have "?b div t * t < ?b" "?b - ?b div t * t = ?b mod t" using b by linarith+
    then show ?thesis using False mod_less_divisor [OF assms(3), of ?b] 
      by (simp only: c if_False if_True not_not simp_thms add_diff_cancel_right') simp
  qed
  then show "0 < tile_count p n t" "(tile_count p n t - 1) * t < ?b" "tile_last p n t = ?b - (tile_count p n t - 1) * t" "tile_last p n t \<le> t"
    by blast+
qed

end

context systolic_array
begin

text \<open>The tiles of a dimension are consecutive intervals of at most the tile's width.\<close>

lemma tile_interval:
  assumes "0 < n" "n \<le> 2147483648" "0 < t" "t \<le> blocks n" "x < tile_count p n t"
  shows "tile_size p n t x * DIM p - tile_pad p n t x = min (t * DIM p) (n - x * (t * DIM p))" "x * (t * DIM p) < n"
proof -
  let ?d = "DIM p" and ?b = "blocks n" and ?c = "tile_count p n t"
  note ts = tile_shape [OF assms(1-4)]
  note pe = padded_exact [OF assms(2)]
  have w: "x * (t * ?d) = x * t * ?d" for x by simp
  have e: "(?c - 1) * t * ?d + tile_last p n t * ?d = dim_padded p n"
    using ts(3,4) by (subst pe(1)) (simp add: add_mult_distrib [symmetric])
  have l: "0 < tile_last p n t" using ts(3,4) by simp
  then have ld: "?d \<le> tile_last p n t * ?d" by (cases "tile_last p n t") auto
  have last: "(?c - 1) * t * ?d < n" using e ld pe(4) by linarith
  have tl: "tile_last p n t * ?d \<le> t * ?d" using ts(5) by simp
  show "x * (t * ?d) < n"
  proof -
    have "x * t * ?d \<le> (?c - 1) * t * ?d" using assms(5) by (intro mult_le_mono1) simp
    then show ?thesis using last unfolding w by linarith
  qed
  show "tile_size p n t x * ?d - tile_pad p n t x = min (t * ?d) (n - x * (t * ?d))"
  proof (cases "x = ?c - 1")
    case True
    have "tile_size p n t x * ?d - tile_pad p n t x = tile_last p n t * ?d - (dim_padded p n - n)"
      using True by (simp add: tile_size_def tile_pad_def)
    also have "\<dots> = n - (?c - 1) * t * ?d" using e pe(3) by linarith
    also have "\<dots> = min (t * ?d) (n - (?c - 1) * t * ?d)" using e tl pe(3) by linarith
    finally show ?thesis unfolding w True .
  next
    case False
    then have lt: "x < ?c - 1" using assms(5) by linarith
    then have "Suc x * t * ?d \<le> (?c - 1) * t * ?d" using assms(5) by (intro mult_le_mono1) simp
    moreover have "Suc x * t * ?d = x * t * ?d + t * ?d" by (simp add: add_mult_distrib)
    ultimately have "x * t * ?d + t * ?d \<le> (?c - 1) * t * ?d" by linarith
    then show ?thesis using last lt unfolding w by (simp add: tile_size_def tile_pad_def)
  qed
qed

lemma tile_of:
  assumes "0 < n" "n \<le> 2147483648" "0 < t" "t \<le> blocks n" "r < n"
  shows "r div (t * DIM p) < tile_count p n t"
    "\<And>x. x < tile_count p n t \<Longrightarrow>
      x * (t * DIM p) \<le> r \<and> r < x * (t * DIM p) + (tile_size p n t x * DIM p - tile_pad p n t x) \<longleftrightarrow> x = r div (t * DIM p)"
proof -
  let ?w = "t * DIM p"
  have w: "0 < ?w" using assms(3) DIM_pos(1) by simp
  note ts = tile_shape [OF assms(1-4)]
  have e: "(tile_count p n t - 1) * t + tile_last p n t = blocks n" using ts(3,4) by simp
  have "blocks n \<le> tile_count p n t * t" using e ts(2,5) by (cases "tile_count p n t") auto
  then have "blocks n * DIM p \<le> tile_count p n t * t * DIM p" by (rule mult_le_mono1)
  then have "r < tile_count p n t * t * DIM p" using padded_exact(1,3) [OF assms(2)] assms(5) by linarith
  then have "r < tile_count p n t * ?w" by (simp only: ac_simps)
  then show "r div ?w < tile_count p n t" by (simp add: less_mult_imp_div_less)
  show "x * ?w \<le> r \<and> r < x * ?w + (tile_size p n t x * DIM p - tile_pad p n t x) \<longleftrightarrow> x = r div ?w" if x: "x < tile_count p n t" for x
  proof -
    have "r div ?w * ?w \<le> r" "r < Suc (r div ?w) * ?w" using w by (simp_all add: dividend_less_div_times)
    then have "x = r div ?w \<longleftrightarrow> x * ?w \<le> r \<and> r < Suc x * ?w"
      using w by (metis div_nat_eqI le_div_geq mult.commute)
    then show ?thesis using tile_interval [OF assms(1-4) x] assms(5) by (auto simp: min_def)
  qed
qed

end

section \<open>The reuse of tiles\<close>

text \<open>A pointer that is left out is fetched correctly when its tile has been loaded before and no
  two tiles of the sequence share a slot.\<close>

lemma fetch_exact:
  assumes "\<And>ys x zs. xs = ys @ x # zs \<Longrightarrow> load x \<or> key x \<in> key ` set ys"
    and "inj_on slot (key ` set xs)"
  shows "fetch s (map (\<lambda>x. (if load x then Some (ptr (key x)) else None, slot (key x))) xs) = map (\<lambda>x. Some (ptr (key x))) xs"
proof -
  have "fetch s (map (\<lambda>x. (if load x then Some (ptr (key x)) else None, slot (key x))) zs) = map (\<lambda>x. Some (ptr (key x))) zs"
    if "xs = ys @ zs" "\<forall>k \<in> key ` set ys. s (slot k) = Some (ptr k)" for ys zs s
    using that
  proof (induction zs arbitrary: ys s)
    case (Cons z zs)
    have inj: "slot k \<noteq> slot (key z)" if "k \<in> key ` set ys" "k \<noteq> key z" for k
      using assms(2) that Cons.prems(1) by (auto simp: inj_on_def)
    have xs: "xs = (ys @ [z]) @ zs" using Cons.prems(1) by simp
    show ?case
    proof (cases "load z")
      case True
      have "\<forall>k \<in> key ` set (ys @ [z]). (s(slot (key z) := Some (ptr (key z)))) (slot k) = Some (ptr k)"
      proof
        fix k assume "k \<in> key ` set (ys @ [z])"
        then show "(s(slot (key z) := Some (ptr (key z)))) (slot k) = Some (ptr k)"
          using Cons.prems(2) inj by (cases "k = key z") auto
      qed
      from Cons.IH [OF xs this] show ?thesis using True by (simp only: list.map fetch.simps if_True)
    next
      case False
      then have z: "key z \<in> key ` set ys" using assms(1) [OF Cons.prems(1)] by blast
      then have "\<forall>k \<in> key ` set (ys @ [z]). s (slot k) = Some (ptr k)" using Cons.prems(2) by auto
      moreover have "s (slot (key z)) = Some (ptr (key z))" using z Cons.prems(2) by blast
      ultimately show ?thesis using Cons.IH [OF xs] False by (simp only: list.map fetch.simps if_False)
    qed
  qed simp
  from this [of "[]" xs s] show ?thesis by simp
qed

text \<open>The order of nested loops, and what comes before an iteration.\<close>

definition loop_order :: "('b \<Rightarrow> 'b \<Rightarrow> bool) \<Rightarrow> nat \<times> 'b \<Rightarrow> nat \<times> 'b \<Rightarrow> bool" where
  "loop_order R p q \<longleftrightarrow> fst p < fst q \<or> fst p = fst q \<and> R (snd p) (snd q)"

lemma sorted_product:
  assumes "sorted_wrt (<) xs" "sorted_wrt R ys"
  shows "sorted_wrt (loop_order R) (List.product xs ys)"
  using assms(1)
proof (induction xs)
  case (Cons a xs)
  have "sorted_wrt (loop_order R) (map (Pair a) ys)" using assms(2) by (simp add: sorted_wrt_map loop_order_def)
  moreover have "\<forall>p \<in> set (map (Pair a) ys). \<forall>q \<in> set (List.product xs ys). loop_order R p q"
    using Cons.prems by (auto simp: loop_order_def)
  ultimately show ?case using Cons by (simp add: sorted_wrt_append)
qed simp

abbreviation loops3 :: "nat \<times> nat \<times> nat \<Rightarrow> nat \<times> nat \<times> nat \<Rightarrow> bool" where
  "loops3 \<equiv> loop_order (loop_order (<))"

lemma iteration_before:
  assumes "List.product [0..<a] (List.product [0..<b] [0..<c]) = us @ x # vs"
    and "y \<in> {0..<a} \<times> {0..<b} \<times> {0..<c}" "loops3 y x"
  shows "y \<in> set us"
proof -
  have "sorted_wrt loops3 (List.product [0..<a] (List.product [0..<b] [0..<c]))"
    by (intro sorted_product) simp_all
  then have s: "sorted_wrt loops3 (us @ x # vs)" by (simp only: assms(1))
  have "y \<in> set (us @ x # vs)" using assms(2) by (simp only: assms(1) [symmetric] set_product set_upt)
  moreover have "\<not> loops3 x y" "y \<noteq> x" using assms(3) by (auto simp: loop_order_def)
  ultimately show ?thesis using s by (auto simp: sorted_wrt_append)
qed

lemma two_tiles:
  assumes "m * n \<le> (2::nat)" "a < m" "b < n" "a' < m" "b' < n"
  shows "(a = 0 \<and> b = 0) \<or> (a' = 0 \<and> b' = 0) \<or> (a = a' \<and> b = b')"
proof -
  have "m * 1 \<le> m * n" "1 * n \<le> m * n" using assms by (intro mult_le_mono; simp)+
  then have "m \<le> 2" "n \<le> 2" using assms(1) by linarith+
  moreover have "\<not> (m = 2 \<and> n = 2)" using assms(1) by auto
  ultimately show ?thesis using assms(2-5) by arith
qed

lemma fetch_loops:
  fixes key :: "nat \<times> nat \<times> nat \<Rightarrow> nat \<times> nat" and a b c :: nat
  defines "xs \<equiv> List.product [0..<a] (List.product [0..<b] [0..<c])"
  assumes few: "reuse \<Longrightarrow> m * n \<le> 2" and range: "\<And>x. x \<in> set xs \<Longrightarrow> fst (key x) < m \<and> snd (key x) < n"
    and prior: "\<And>x. x \<in> set xs \<Longrightarrow> \<not> load x \<Longrightarrow> \<exists>y \<in> {0..<a} \<times> {0..<b} \<times> {0..<c}. loops3 y x \<and> key y = key x"
  shows "fetch s (map (\<lambda>x. (if reuse \<and> \<not> load x then None else Some (ptr (key x)),
      if reuse then if fst (key x) + snd (key x) = 0 then 1 else 2 else 0)) xs) = map (\<lambda>x. Some (ptr (key x))) xs"
proof (cases reuse)
  case True
  define slot :: "nat \<times> nat \<Rightarrow> nat" where "slot = (\<lambda>k. if fst k + snd k = 0 then 1 else 2)"
  have "fetch s (map (\<lambda>x. (if load x then Some (ptr (key x)) else None, slot (key x))) xs) = map (\<lambda>x. Some (ptr (key x))) xs"
  proof (rule fetch_exact)
    fix ys x zs assume sp: "xs = ys @ x # zs"
    show "load x \<or> key x \<in> key ` set ys"
    proof (cases "load x")
      case False
      then obtain y where "y \<in> {0..<a} \<times> {0..<b} \<times> {0..<c}" "loops3 y x" "key y = key x" using prior [of x] sp by auto
      then show ?thesis using iteration_before [OF sp [unfolded xs_def]] by (metis image_eqI)
    qed simp
  next
    show "inj_on slot (key ` set xs)"
    proof (rule inj_onI)
      fix p q assume "p \<in> key ` set xs" "q \<in> key ` set xs" and e: "slot p = slot q"
      then have "fst p < m" "snd p < n" "fst q < m" "snd q < n" using range by blast+
      from two_tiles [OF few [OF True] this] e show "p = q" by (auto simp: slot_def prod_eq_iff split: if_splits)
    qed
  qed
  moreover have "(if reuse \<and> \<not> load x then None else Some (ptr (key x)), if reuse then if fst (key x) + snd (key x) = 0 then 1 else 2 else 0)
      = (if load x then Some (ptr (key x)) else None, slot (key x))" for x using True by (simp add: slot_def)
  ultimately show ?thesis by presburger
next
  case False
  then have "fetch s (map (\<lambda>x. (if reuse \<and> \<not> load x then None else Some (ptr (key x)),
      if reuse then if fst (key x) + snd (key x) = 0 then 1 else 2 else 0)) ys) = map (\<lambda>x. Some (ptr (key x))) ys" for s ys
    by (induction ys arbitrary: s) simp_all
  then show ?thesis .
qed

lemma fetched_exact:
  assumes "outer_counts p M = (I0, J0, K0)" "I0 * K0 < size_t_range" "J0 * K0 < size_t_range"
  shows "fetched_a p M = map (\<lambda>(i0, j0, k0). Some (plain_a p M i0 k0)) (outer_iterations p M)"
    "fetched_b p M = map (\<lambda>(i0, j0, k0). Some (plain_b p M j0 k0)) (outer_iterations p M)"
proof -
  let ?xs = "outer_iterations p M"
  have xs: "?xs = List.product [0..<I0] (List.product [0..<J0] [0..<K0])" by (simp add: outer_iterations_def assms(1))
  have ca: "map (\<lambda>c. (c_a c, c_a_spad c)) (tiled_matmul_outer p M)
      = map (\<lambda>x. (if a_reuse p M \<and> \<not> fst (snd x) = 0 then None else Some (case_prod (plain_a p M) (fst x, snd (snd x))),
        if a_reuse p M then if fst (fst x, snd (snd x)) + snd (fst x, snd (snd x)) = 0 then 1 else 2 else 0)) ?xs"
    by (simp add: tiled_matmul_outer_def outer_call_def assms(1) split: prod.splits)
  have ra: "a_reuse p M \<Longrightarrow> I0 * K0 \<le> 2" using assms(2) by (simp add: a_reuse_def assms(1))
  show "fetched_a p M = map (\<lambda>(i0, j0, k0). Some (plain_a p M i0 k0)) ?xs"
    unfolding fetched_a_def ca xs
    by (subst fetch_loops [where key = "\<lambda>x. (fst x, snd (snd x))" and m = I0 and n = K0])
      (use ra in \<open>auto simp: loop_order_def\<close>)
  have cb: "map (\<lambda>c. (c_b c, c_b_spad c)) (tiled_matmul_outer p M)
      = map (\<lambda>x. (if b_reuse p M \<and> \<not> fst x = 0 then None else Some (case_prod (plain_b p M) (snd x)),
        if b_reuse p M then if fst (snd x) + snd (snd x) = 0 then 1 else 2 else 0)) ?xs"
    by (simp add: tiled_matmul_outer_def outer_call_def assms(1) split: prod.splits)
  have rb: "b_reuse p M \<Longrightarrow> J0 * K0 \<le> 2" using assms(3) by (simp add: b_reuse_def assms(1))
  show "fetched_b p M = map (\<lambda>(i0, j0, k0). Some (plain_b p M j0 k0)) ?xs"
    unfolding fetched_b_def cb xs
    by (subst fetch_loops [where key = snd and m = J0 and n = K0])
      (use rb in \<open>auto simp: loop_order_def\<close>)
qed

section \<open>Each element of the result gets its dot product\<close>

lemma zip_maps: "zip xs (zip (map f xs) (zip (map g xs) (map h xs))) = map (\<lambda>x. (x, f x, g x, h x)) xs"
  by (induction xs) simp_all

lemma concat_one: "i < n \<Longrightarrow> concat (map (\<lambda>x. if x = i then F else []) [0..<n]) = F"
  by (induction n) (auto simp: less_Suc_eq)

lemma concat_product3:
  assumes "i < a" "j < b"
  shows "concat (map (\<lambda>(i0, j0, k0). if i0 = i \<and> j0 = j then F k0 else []) (List.product [0..<a] (List.product [0..<b] [0..<c])))
    = concat (map F [0..<c])"
proof -
  have 2: "concat (map (\<lambda>(j0, k0). if j0 = j then F k0 else []) (List.product js [0..<c])) = (concat (map (\<lambda>x. if x = j then concat (map F [0..<c]) else []) js))" for js
    by (induction js) (auto simp: comp_def)
  have 3: "concat (map (\<lambda>(i0, j0, k0). if i0 = i \<and> j0 = j then F k0 else []) (List.product is qs))
      = concat (map (\<lambda>x. if x = i then concat (map (\<lambda>(j0, k0). if j0 = j then F k0 else []) qs) else []) is)" for "is" qs
    by (induction "is") (auto simp: comp_def split_def cong: if_cong)
  show ?thesis by (simp only: 3 2 concat_one assms)
qed

lemma concat_widths:
  assumes "0 < w"
  shows "concat (map (\<lambda>x. map G [x * w..<x * w + min w (n - x * w)]) [0..<m]) = map G [0..<min (m * w) n]"
proof (induction m)
  case (Suc m)
  have "[0..<min (m * w) n] @ [m * w..<m * w + min w (n - m * w)] = [0..<min (Suc m * w) n]"
  proof (cases "m * w \<le> n")
    case True
    then have "min (Suc m * w) n = m * w + min w (n - m * w)" "min (m * w) n = m * w" by simp_all
    then show ?thesis by (simp only: upt_add_eq_append [OF zero_le, symmetric])
  next
    case False
    then have "min (Suc m * w) n = n" "min (m * w) n = n" "min w (n - m * w) = 0" by simp_all
    then show ?thesis by simp
  qed
  moreover have "concat (map (\<lambda>x. map G [x * w..<x * w + min w (n - x * w)]) [0..<Suc m])
      = map G ([0..<min (m * w) n] @ [m * w..<m * w + min w (n - m * w)])"
    by (simp add: Suc)
  ultimately show ?case by simp
qed simp

context systolic_array
begin

lemma tile_count_le:
  assumes "0 < n" "n \<le> 2147483648" "0 < t" "t \<le> blocks n"
  shows "tile_count p n t \<le> n" "n \<le> tile_count p n t * (t * DIM p)"
proof -
  note ts = tile_shape [OF assms]
  have "tile_count p n t - 1 \<le> (tile_count p n t - 1) * t" using assms(3) by simp
  then have c: "tile_count p n t \<le> blocks n" using ts(3) by linarith
  have "blocks n * DIM p < n + DIM p" using padded_exact(1,4) [OF assms(2)] by simp
  then have "(blocks n - 1) * DIM p < n" by (cases "blocks n") (use assms(1) in auto)
  moreover have "blocks n - 1 \<le> (blocks n - 1) * DIM p" using DIM_pos(1) by simp
  ultimately show "tile_count p n t \<le> n" using c by linarith
  have "n - 1 < n" using assms(1) by simp
  from tile_of(1) [OF assms this] have "n - 1 < tile_count p n t * (t * DIM p)"
    using assms(3) DIM_pos(1) by (simp add: div_less_iff_less_mult)
  then show "n \<le> tile_count p n t * (t * DIM p)" by linarith
qed

lemma tile_offset:
  fixes x r s y z k :: nat
  assumes "x \<le> r"
  shows "(x * s + y) * z + ((r - x) * s + k) * z = (r * s + (y + k)) * z" "(y * s + x) * z + (k * s + (r - x)) * z = ((y + k) * s + r) * z"
proof -
  obtain q where "r = x + q" using assms le_Suc_ex by blast
  then show "(x * s + y) * z + ((r - x) * s + k) * z = (r * s + (y + k)) * z" "(y * s + x) * z + (k * s + (r - x)) * z = ((y + k) * s + r) * z"
    by (simp_all add: algebra_simps)
qed

lemma holds_iff:
  assumes "dims M = (dI, dJ, dK)" "0 < dI" "0 < dJ" "dI \<le> 2147483648" "dJ \<le> 2147483648"
    and "0 < tile_I M" "tile_I M \<le> blocks dI" "0 < tile_J M" "tile_J M \<le> blocks dJ" "r < dI" "j < dJ"
    and "i0 < tile_count p dI (tile_I M)" "j0 < tile_count p dJ (tile_J M)"
  shows "holds_element p M r j (i0, j0, k0) (outer_call p M (i0, j0, k0))
    \<longleftrightarrow> i0 = r div (tile_I M * DIM p) \<and> j0 = j div (tile_J M * DIM p)"
proof -
  have "c_rows p (outer_call p M (i0, j0, k0)) = tile_size p dI (tile_I M) i0 * DIM p - tile_pad p dI (tile_I M) i0"
    "c_cols p (outer_call p M (i0, j0, k0)) = tile_size p dJ (tile_J M) j0 * DIM p - tile_pad p dJ (tile_J M) j0"
    by (simp_all add: c_rows_def c_cols_def outer_call_def outer_counts_def assms(1))
  then show ?thesis
    using tile_of(2) [OF assms(2,4,6,7,10,12)] tile_of(2) [OF assms(3,5,8,9,11,13)]
    by (simp add: holds_element_def mult.assoc) blast
qed

lemma products_exact:
  assumes d: "dims M = (dI, dJ, dK)" "0 < dI" "0 < dJ" "0 < dK" "dI \<le> 2147483648" "dJ \<le> 2147483648" "dK \<le> 2147483648"
    and s: "dI * dK < size_t_range" "dJ * dK < size_t_range"
    and t: "0 < tile_I M" "tile_I M \<le> blocks dI" "0 < tile_J M" "tile_J M \<le> blocks dJ" "0 < tile_K M" "tile_K M \<le> blocks dK"
    and e: "r < dI" "j < dJ"
  shows "outer_products p M r j = map (\<lambda>k. (a_element p M (o_A M) r k, b_element p M (o_B M) k j)) [0..<dK]"
proof -
  define I0 J0 K0 where "I0 = tile_count p dI (tile_I M)" and "J0 = tile_count p dJ (tile_J M)" and "K0 = tile_count p dK (tile_K M)"
  have c: "outer_counts p M = (I0, J0, K0)" by (simp add: outer_counts_def d(1) I0_def J0_def K0_def)
  note iI = tile_of [OF d(2,5) t(1,2) e(1), folded I0_def] and iJ = tile_of [OF d(3,6) t(3,4) e(2), folded J0_def]
  have "I0 * K0 \<le> dI * dK" "J0 * K0 \<le> dJ * dK"
    unfolding I0_def J0_def K0_def using tile_count_le(1) d t by (intro mult_le_mono; blast)+
  then have f: "fetched_a p M = map (\<lambda>(i0, j0, k0). Some (plain_a p M i0 k0)) (outer_iterations p M)"
    "fetched_b p M = map (\<lambda>(i0, j0, k0). Some (plain_b p M j0 k0)) (outer_iterations p M)"
    using fetched_exact [OF c] s by simp_all
  define i where "i = r div (tile_I M * DIM p)"
  define jt where "jt = j div (tile_J M * DIM p)"
  define w where "w = tile_K M * DIM p"
  have w0: "0 < w" using t(5) DIM_pos(1) by (simp add: w_def)
  define G where "G = (\<lambda>k. (a_element p M (o_A M) r k, b_element p M (o_B M) k j))"
  define F where "F = (\<lambda>k0. map G [k0 * w..<k0 * w + min w (dK - k0 * w)])"
  have step: "call_products p M r j ((i0, j0, k0), outer_call p M (i0, j0, k0), Some (plain_a p M i0 k0), Some (plain_b p M j0 k0))
      = (if i0 = i \<and> j0 = jt then F k0 else [])" if b: "i0 < I0" "j0 < J0" "k0 < K0" for i0 j0 k0
  proof -
    have w3: "x * tile_I M * DIM p = x * (tile_I M * DIM p)" "x * tile_J M * DIM p = x * (tile_J M * DIM p)"
      "x * tile_K M * DIM p = x * w" for x by (simp_all add: w_def)
    have n: "c_depth p (outer_call p M (i0, j0, k0)) = tile_size p dK (tile_K M) k0 * DIM p - tile_pad p dK (tile_K M) k0"
      by (simp add: c_depth_def outer_call_def d(1) c)
    have depth: "c_depth p (outer_call p M (i0, j0, k0)) = min w (dK - k0 * w)"
      using tile_interval(1) [OF d(4,7) t(5,6)] b(3) by (simp add: n w_def K0_def)
    have a: "a_element p M (plain_a p M i0 k0) (r - i0 * (tile_I M * DIM p)) k = a_element p M (o_A M) r (k0 * w + k)"
      if "i0 * (tile_I M * DIM p) \<le> r" for k
      using tile_offset [OF that, where s = "o_stride_A M" and y = "k0 * w" and z = "sizeof_elem p" and k = k]
      by (simp only: a_element_def plain_a_def w3 add.assoc of_nat_add [symmetric] if_distrib [of of_nat] split: if_split) simp
    have bb: "b_element p M (plain_b p M j0 k0) k (j - j0 * (tile_J M * DIM p)) = b_element p M (o_B M) (k0 * w + k) j"
      if "j0 * (tile_J M * DIM p) \<le> j" for k
      using tile_offset [OF that, where s = "o_stride_B M" and y = "k0 * w" and z = "sizeof_elem p" and k = k]
      by (simp only: b_element_def plain_b_def w3 add.assoc of_nat_add [symmetric] if_distrib [of of_nat] split: if_split) simp
    have i: "holds_element p M r j (i0, j0, k0) (outer_call p M (i0, j0, k0)) \<longleftrightarrow> i0 = i \<and> j0 = jt"
      using holds_iff [OF d(1-3,5,6) t(1-4) e] b(1,2) by (simp add: i_def jt_def I0_def J0_def)
    have below: "i * (tile_I M * DIM p) \<le> r" "jt * (tile_J M * DIM p) \<le> j" by (simp_all add: i_def jt_def)
    show ?thesis
    proof (cases "i0 = i \<and> j0 = jt")
      case True
      then have le: "i0 * (tile_I M * DIM p) \<le> r" "j0 * (tile_J M * DIM p) \<le> j" using below by simp_all
      have "F k0 = map (\<lambda>k. G (k0 * w + k)) [0..<min w (dK - k0 * w)]"
        unfolding F_def add.commute [of "k0 * w" "min w (dK - k0 * w)"] map_add_upt [symmetric] map_map comp_def
        by (simp only: add.commute)
      moreover have "call_products p M r j ((i0, j0, k0), outer_call p M (i0, j0, k0), Some (plain_a p M i0 k0), Some (plain_b p M j0 k0))
        = map (\<lambda>k. (a_element p M (plain_a p M i0 k0) (r - i0 * (tile_I M * DIM p)) k, b_element p M (plain_b p M j0 k0) k (j - j0 * (tile_J M * DIM p)))) [0..<min w (dK - k0 * w)]"
        using i True unfolding call_products_def split Let_def w3 depth by simp
      ultimately have "call_products p M r j ((i0, j0, k0), outer_call p M (i0, j0, k0), Some (plain_a p M i0 k0), Some (plain_b p M j0 k0)) = F k0"
        by (simp only: G_def a [OF le(1)] bb [OF le(2)])
      then show ?thesis using True by simp
    next
      case False
      then show ?thesis using i unfolding call_products_def split Let_def w3 by auto
    qed
  qed
  have "outer_products p M r j = concat (map (\<lambda>(i0, j0, k0). if i0 = i \<and> j0 = jt then F k0 else [])
      (List.product [0..<I0] (List.product [0..<J0] [0..<K0])))"
    unfolding outer_products_def tiled_matmul_outer_def f zip_maps map_map comp_def
    by (intro arg_cong [of _ _ concat] map_cong) (auto simp: outer_iterations_def c step)
  also have "\<dots> = concat (map F [0..<K0])" by (rule concat_product3) (simp_all only: i_def jt_def iI(1) iJ(1))
  also have "\<dots> = map G [0..<min (K0 * w) dK]" unfolding F_def by (rule concat_widths [OF w0])
  also have "min (K0 * w) dK = dK" unfolding K0_def w_def by (rule min_absorb2 [OF tile_count_le(2) [OF d(4,7) t(5,6)]])
  finally show ?thesis by (simp add: G_def)
qed

end

context systolic_array
begin

lemma port_offset:
  fixes a b r j s z :: nat
  assumes "a \<le> r" "b \<le> j"
  shows "(a * s + b) * z + ((r - a) * s + (j - b)) * z = (r * s + j) * z"
proof -
  obtain u v where "r = a + u" "j = b + v" using assms le_Suc_ex by blast
  then show ?thesis by (simp add: algebra_simps)
qed

lemma ports_exact:
  assumes d: "dims M = (dI, dJ, dK)" "0 < dI" "0 < dJ" "0 < dK" "dI \<le> 2147483648" "dJ \<le> 2147483648" "dK \<le> 2147483648"
    and t: "0 < tile_I M" "tile_I M \<le> blocks dI" "0 < tile_J M" "tile_J M \<le> blocks dJ" "0 < tile_K M" "tile_K M \<le> blocks dK"
    and e: "r < dI" "j < dJ"
  shows "\<exists>n. outer_ports p M r j = map (\<lambda>k0.
      (if k0 = 0 then Some (d_element p M (case o_D M of None \<Rightarrow> 1 | Some D \<Rightarrow> D) r j) else None,
       if k0 = n then Some (out_element p M (o_C M) r j) else None)) [0..<Suc n]"
proof -
  define I0 J0 K0 where "I0 = tile_count p dI (tile_I M)" and "J0 = tile_count p dJ (tile_J M)" and "K0 = tile_count p dK (tile_K M)"
  have c: "outer_counts p M = (I0, J0, K0)" by (simp add: outer_counts_def d(1) I0_def J0_def K0_def)
  define i where "i = r div (tile_I M * DIM p)"
  define jt where "jt = j div (tile_J M * DIM p)"
  have ij: "i < I0" "jt < J0" using tile_of(1) [OF d(2,5) t(1,2) e(1)] tile_of(1) [OF d(3,6) t(3,4) e(2)]
    by (simp_all add: i_def jt_def I0_def J0_def)
  have le: "i * tile_I M * DIM p \<le> r" "jt * tile_J M * DIM p \<le> j" by (simp_all add: i_def jt_def mult.assoc)
  define P where "P = (\<lambda>k0. (if k0 = 0 then Some (d_element p M (case o_D M of None \<Rightarrow> 1 | Some D \<Rightarrow> D) r j) else None,
       if k0 = K0 - 1 then Some (out_element p M (o_C M) r j) else None))"
  have pre: "d_element p M (x + of_nat (((if o_repeating_bias M then 0 else i * tile_I M * DIM p) * o_stride_D M + jt * tile_J M * DIM p) * sizeof_D p M))
      (r - i * tile_I M * DIM p) (j - jt * tile_J M * DIM p) = d_element p M x r j" for x
    using port_offset [OF le, of "o_stride_D M" "sizeof_D p M"] le(2)
    by (cases "o_repeating_bias M") (simp_all only: d_element_def add.assoc of_nat_add [symmetric] if_True if_False,
      simp_all add: add_mult_distrib [symmetric])
  have out: "out_element p M (x + of_nat ((i * tile_I M * DIM p * o_stride_C M + jt * tile_J M * DIM p) * sizeof_C p M))
      (r - i * tile_I M * DIM p) (j - jt * tile_J M * DIM p) = out_element p M x r j" for x
    using port_offset [OF le, of "o_stride_C M" "sizeof_C p M"] by (simp only: out_element_def add.assoc of_nat_add [symmetric])
  have "outer_ports p M r j = concat (map (\<lambda>(i0, j0, k0). if i0 = i \<and> j0 = jt then [P k0] else []) (outer_iterations p M))"
  proof -
    have "(let r0 = i0 * tile_I M * DIM p; c0 = j0 * tile_J M * DIM p
       in if holds_element p M r j (i0, j0, k0) (outer_call p M (i0, j0, k0))
          then [(map_option (\<lambda>d. d_element p M d (r - r0) (j - c0)) (c_pre (outer_call p M (i0, j0, k0))),
                 map_option (\<lambda>c. out_element p M c (r - r0) (j - c0)) (c_out (outer_call p M (i0, j0, k0))))] else [])
       = (if i0 = i \<and> j0 = jt then [P k0] else [])" if b: "i0 < I0" "j0 < J0" for i0 j0 k0
    proof (cases "i0 = i \<and> j0 = jt")
      case True
      have "holds_element p M r j (i, jt, k0) (outer_call p M (i, jt, k0))"
        using holds_iff [OF d(1-3,5,6) t(1-4) e, of i jt] ij by (simp add: i_def jt_def I0_def J0_def)
      moreover have "c_pre (outer_call p M (i, jt, k0)) = (if k0 \<noteq> 0 then None else Some ((case o_D M of None \<Rightarrow> 1 | Some D \<Rightarrow> D)
          + of_nat (((if o_repeating_bias M then 0 else i * tile_I M * DIM p) * o_stride_D M + jt * tile_J M * DIM p) * sizeof_D p M)))"
        "c_out (outer_call p M (i, jt, k0)) = (if k0 = K0 - 1 then Some (o_C M
          + of_nat ((i * tile_I M * DIM p * o_stride_C M + jt * tile_J M * DIM p) * sizeof_C p M)) else None)"
        by (simp_all only: outer_call_def split Let_def d(1) c inner_call.simps)
      ultimately show ?thesis using True by (simp only: Let_def if_True simp_thms option.map P_def pre out if_distrib [of "map_option _"] not_not) simp
    next
      case False
      then have "\<not> holds_element p M r j (i0, j0, k0) (outer_call p M (i0, j0, k0))"
        using holds_iff [OF d(1-3,5,6) t(1-4) e] b by (simp add: i_def jt_def I0_def J0_def)
      then show ?thesis using False by (simp only: Let_def if_False)
    qed
    then show ?thesis
      unfolding outer_ports_def tiled_matmul_outer_def zip_map2 zip_same_conv_map map_map comp_def
      by (intro arg_cong [of _ _ concat] map_cong) (auto simp: outer_iterations_def c)
  qed
  also have "\<dots> = concat (map (\<lambda>k0. [P k0]) [0..<K0])"
    using concat_product3 [OF ij, of "\<lambda>k0. [P k0]" K0] by (simp add: outer_iterations_def c)
  also have "\<dots> = map P [0..<Suc (K0 - 1)]" using tile_shape(2) [OF d(4,7) t(5,6)] by (simp add: K0_def concat_map_singleton)
  finally show ?thesis unfolding P_def by blast
qed

end

text \<open>C37: For both arrays, either dataflow, any tiles that the matrix admits, any strides and
  transpositions, the calls that \<open>tiled_matmul_outer\<close> makes multiply into every element of the
  result exactly the pairs of its row of \<open>A\<close> and its column of \<open>B\<close>, each once and in order,
  although tiles already in the scratchpad are passed as null pointers; and the first of these calls
  starts from the element of \<open>D\<close>, the last one, and no other, stores to the element of \<open>C\<close>.\<close>

theorem tiled_matmul_outer_exact:
  assumes "p \<in> {dim16fp16, dim8fp32}"
    and "dims M = (dI, dJ, dK)" "0 < dI" "0 < dJ" "0 < dK" "dI \<le> 2147483648" "dJ \<le> 2147483648" "dK \<le> 2147483648"
    and "dI * dK < size_t_range" "dJ * dK < size_t_range"
    and "0 < tile_I M" "tile_I M \<le> dim_padded p dI div DIM p" "0 < tile_J M" "tile_J M \<le> dim_padded p dJ div DIM p"
    and "0 < tile_K M" "tile_K M \<le> dim_padded p dK div DIM p"
    and "r < dI" "j < dJ"
  shows "outer_products p M r j = map (\<lambda>k. (a_element p M (o_A M) r k, b_element p M (o_B M) k j)) [0..<dK]
    \<and> (\<exists>n. outer_ports p M r j = map (\<lambda>k0.
      (if k0 = 0 then Some (d_element p M (case o_D M of None \<Rightarrow> 1 | Some D \<Rightarrow> D) r j) else None,
       if k0 = n then Some (out_element p M (o_C M) r j) else None)) [0..<Suc n])"
  using systolic_array.products_exact [OF array_cases [OF assms(1)] assms(2-18)]
    systolic_array.ports_exact [OF array_cases [OF assms(1)] assms(2-8) assms(11-18)] by (rule conjI)

text \<open>An example: 20 by 40 times 40 by 9 with tiles of one, one and two blocks, and tiles of \<open>A\<close> and
  \<open>B\<close> reused.\<close>

definition example_outer :: outer_args where
  "example_outer = \<lparr>dims = (20, 9, 40), tile_I = 2, tile_J = 1, tile_K = 2, o_A = 4096, o_B = 8192, o_D = None, o_C = 12288,
     o_stride_A = 40, o_stride_B = 9, o_stride_D = 0, o_stride_C = 9,
     o_opts = \<lparr>transpose_A = False, transpose_B = False, full_C = False, low_D = False\<rparr>, o_repeating_bias = False, dataflow = WS\<rparr>"

theorem tiled_matmul_outer_exact_witness:
  "length (outer_products dim16fp16 example_outer 19 8) = 40
   \<and> outer_products dim16fp16 example_outer 19 8 ! 35 = (4096 + 2 * (19 * 40 + 35), 8192 + 2 * (35 * 9 + 8))"
proof -
  have b: "dim_padded dim16fp16 20 div DIM dim16fp16 = 2" "dim_padded dim16fp16 9 div DIM dim16fp16 = 1" "dim_padded dim16fp16 40 div DIM dim16fp16 = 3"
    by (simp_all add: dim_padded_def dim16fp16_def)
  have "outer_products dim16fp16 example_outer 19 8
      = map (\<lambda>k. (a_element dim16fp16 example_outer (o_A example_outer) 19 k, b_element dim16fp16 example_outer (o_B example_outer) k 8)) [0..<40]"
    by (rule conjunct1 [OF tiled_matmul_outer_exact [of dim16fp16 example_outer 20 9 40 19 8]])
      (simp_all add: example_outer_def b)
  then show ?thesis by (simp add: a_element_def b_element_def example_outer_def dim16fp16_def nth_append del: upt_rec_numeral)
qed

section \<open>With the tiles chosen automatically\<close>

context systolic_array
begin

lemma auto_products:
  assumes "\<not> is_norm act" "0 < dI" "0 < dJ" "0 < dK" "dI \<le> 2147483648" "dJ \<le> 2147483648" "dK \<le> 2147483648"
    and "dI * dK < size_t_range" "dJ * dK < size_t_range" "r < dI" "j < dJ" "dims M = (dI, dJ, dK)"
  shows "\<exists>I J K. tiled_matmul_auto p ty act (dI, dJ, dK) = Some (I, J, K)
    \<and> outer_products p (M\<lparr>tile_I := I, tile_J := J, tile_K := K\<rparr>) r j
      = map (\<lambda>k. (a_element p M (o_A M) r k, b_element p M (o_B M) k j)) [0..<dK]"
proof -
  obtain I J K where "while_option snd (fill_round p ty (dI, dJ, dK)) (initial_tiles p ty act (dI, dJ, dK), True) = Some ((I, J, K), False)"
    and w: "within (dI, dJ, dK) (I, J, K)" "fits (I, J, K)"
    using fill_maximal [OF initial_fits [OF assms(1-7)]] by auto
  then have a: "tiled_matmul_auto p ty act (dI, dJ, dK) = Some (I, J, K)" by (simp add: tiled_matmul_auto_def)
  let ?M = "M\<lparr>tile_I := I, tile_J := J, tile_K := K\<rparr>"
  have "outer_products p ?M r j = map (\<lambda>k. (a_element p ?M (o_A ?M) r k, b_element p ?M (o_B ?M) k j)) [0..<dK]"
    using w assms by (intro products_exact) (auto simp: within_def fits_def)
  then show ?thesis using a by (simp add: a_element_def b_element_def)
qed

end

text \<open>C36: From the shape of the matrices alone: \<open>tiled_matmul_auto\<close> finds tiles, and the calls made
  with them multiply into every element of the result exactly its row and its column, in order.\<close>

theorem tiled_matmul_auto_computes:
  assumes "p \<in> {dim16fp16, dim8fp32}" "\<not> is_norm act"
    and "0 < dI" "0 < dJ" "0 < dK" "dI \<le> 2147483648" "dJ \<le> 2147483648" "dK \<le> 2147483648"
    and "dI * dK < size_t_range" "dJ * dK < size_t_range" "r < dI" "j < dJ" "dims M = (dI, dJ, dK)"
  shows "\<exists>I J K. tiled_matmul_auto p ty act (dI, dJ, dK) = Some (I, J, K)
    \<and> outer_products p (M\<lparr>tile_I := I, tile_J := J, tile_K := K\<rparr>) r j
      = map (\<lambda>k. (a_element p M (o_A M) r k, b_element p M (o_B M) k j)) [0..<dK]"
  by (rule systolic_array.auto_products [OF array_cases [OF assms(1)] assms(2-13)])

theorem tiled_matmul_auto_computes_witness:
  "\<exists>I J K. tiled_matmul_auto dim16fp16 WS RELU (20, 9, 40) = Some (I, J, K)
     \<and> length (outer_products dim16fp16 (example_outer\<lparr>tile_I := I, tile_J := J, tile_K := K\<rparr>) 19 8) = 40"
proof -
  obtain I J K where "tiled_matmul_auto dim16fp16 WS RELU (20, 9, 40) = Some (I, J, K)"
    and o: "outer_products dim16fp16 (example_outer\<lparr>tile_I := I, tile_J := J, tile_K := K\<rparr>) 19 8
      = map (\<lambda>k. (a_element dim16fp16 example_outer (o_A example_outer) 19 k, b_element dim16fp16 example_outer (o_B example_outer) k 8)) [0..<40]"
    using tiled_matmul_auto_computes [of dim16fp16 RELU 20 9 40 19 8 example_outer WS]
    by (auto simp: is_norm_def example_outer_def simp del: upt_rec_numeral)
  then show ?thesis by (auto simp: o simp del: upt_rec_numeral)
qed

end
