(* ===== verification/Simt_Quant.thy ===== *)
theory Simt_Quant
  imports Mx_Codes_Props Mx_Total
begin

text \<open>
  The block quantiser that runs on the GPU, \<open>src/kernels/simt_quant/kernel.cpp\<close>: blocks of 32
  numbers are scaled by a power of two, stored as an e8m0 code, and rounded to fp8 (e4m3) codes
  packed four to a word.  The numbers are those of the model of binary32; \<open>X\<close> and \<open>out\<close> are indexed
  by element and by word.
\<close>

unbundle bit_operations_syntax

section \<open>Rounding to e4m3\<close>

text \<open>\<open>v >> sh\<close> rounded half to even, for a positive \<open>sh\<close>.\<close>

definition round_shift :: "u32 \<Rightarrow> int \<Rightarrow> u32" where
  "round_shift v sh =
     (if 32 \<le> sh then 0
      else let mask = push_bit (nat sh) 1 - 1; low = v AND mask; half = push_bit (nat (sh - 1)) 1; q = drop_bit (nat sh) v
           in if half < low \<or> low = half \<and> q AND 1 \<noteq> 0 then q + 1 else q)"

definition f32_to_e4m3 :: "fnum \<Rightarrow> u32" where
  "f32_to_e4m3 xf =
     (let x = f32_bits xf;
          sign = drop_bit 31 x AND 1;
          absx = x AND 0x7FFFFFFF;
          s = push_bit 7 sign
      in if absx = 0 then s
         else let axf = f32_of_bits absx
         in if fle (const_f F32 448) axf then s OR 0x7E
         else let e = uint (drop_bit 23 absx AND 0xFF) - 127;
                  man = absx AND 0x7FFFFF;
                  sig = push_bit 23 1 OR man
         in if e < - 6
            then let q = round_shift sig (14 - e)
                 in s OR (if 8 \<le> q then push_bit 3 1 OR (q - 8) else q)
            else let r = round_shift sig 20;
                     (r, E) = (if r = 16 then (8, e + 1) else (r, e));
                     expf = E + 7;
                     mant = r - 8
                 in if 15 < expf \<or> expf = 15 \<and> mant = 7 then s OR 0x7E
                    else s OR (push_bit 3 (word_of_int expf) OR mant))"

section \<open>One block\<close>

text \<open>The number of packed words, which the generator \<open>gen_quant.py\<close> writes as a constant.\<close>

definition PACKED_COUNT :: u32 where "PACKED_COUNT = 8192"

definition block_index :: "u32 \<Rightarrow> nat \<Rightarrow> u32" where
  "block_index b j = b * 32 + of_nat j"

definition block_amax :: "(u32 \<Rightarrow> fnum) \<Rightarrow> u32 \<Rightarrow> fnum" where
  "block_amax X b = fold (\<lambda>j amax.
     let av = f32_of_bits (f32_bits (X (block_index b j)) AND 0x7FFFFFFF) in if flt amax av then av else amax) [0..<32] f32_zero"

text \<open>The multiplier and the e8m0 code of a block.\<close>

definition quant_scale :: "fnum \<Rightarrow> fnum \<times> u32" where
  "quant_scale amax =
     (if feq amax f32_zero then (fi 1, 0)
      else let ab = f32_bits amax;
               e = (uint (drop_bit 23 ab AND 0xFF) - 127 - 8) + (if 0x600000 < ab AND 0x7FFFFF then 1 else 0);
               sc = e + 127;
               scode = word_of_int (if sc < 0 then 0 else if 254 < sc then 254 else sc)
           in (f32_of_bits (push_bit 23 (word_of_int (127 - e))), scode))"

definition block_word :: "(u32 \<Rightarrow> fnum) \<Rightarrow> u32 \<Rightarrow> fnum \<Rightarrow> nat \<Rightarrow> u32" where
  "block_word X b p2 w = fold (\<lambda>k word.
     word OR push_bit (8 * k) (f32_to_e4m3 (fmul F32 (X (block_index b (w * 4 + k))) p2) AND 0xFF)) [0..<4] 0"

definition quantize_one_block :: "(u32 \<Rightarrow> fnum) \<Rightarrow> u32 \<Rightarrow> (u32 \<Rightarrow> u32) \<Rightarrow> u32 \<Rightarrow> u32" where
  "quantize_one_block X b out =
     (let (p2, scode) = quant_scale (block_amax X b);
          out = out(PACKED_COUNT + b := scode)
      in fold (\<lambda>w out. out(b * 8 + of_nat w := block_word X b p2 w)) [0..<8] out)"

section \<open>The rounding shift\<close>

lemma round_shift_spec:
  assumes "1 \<le> sh" "uint v < 2 ^ 24"
  shows "uint (round_shift v sh) = round_even (of_int (uint v) / pow2 sh)"
proof (cases "32 \<le> sh")
  case True
  have "(of_int (uint v) :: rat) < of_int (2 ^ 24)" using assms(2) by (simp only: of_int_less_iff)
  moreover have "pow2 32 \<le> pow2 sh" using True by (rule pow2_mono)
  ultimately have "of_int (uint v) / pow2 sh \<le> 1 / 256" by (simp add: field_simps pow2_def)
  moreover have "(0 :: rat) \<le> of_int (uint v)" by (simp only: of_int_0_le_iff) simp
  then have "0 \<le> of_int (uint v) / pow2 sh" by (rule divide_nonneg_pos) simp
  ultimately have b: "0 \<le> of_int (uint v) / pow2 sh" "of_int (uint v) / pow2 sh \<le> 1 / 256" by blast+
  have small: "round_even q = 0" if "0 \<le> q" "q \<le> 1 / 256" for q
  proof -
    have "\<lfloor>q\<rfloor> = 0" using that by (simp add: floor_eq_iff)
    then show ?thesis using that by (simp add: round_even_def)
  qed
  show ?thesis using True small [OF b] by (simp add: round_shift_def)
next
  case False
  define k where "k = nat (sh - 1)"
  have k: "k < 31" "nat sh = Suc k" "nat (sh - 1) = k" "sh = int (Suc k)" using False assms(1) by (auto simp: k_def)
  let ?q = "drop_bit (Suc k) v" and ?low = "v AND (push_bit (Suc k) 1 - 1)" and ?half = "push_bit k 1 :: u32"
  have q: "uint ?q = uint v div 2 ^ Suc k" by (rule uint_drop_bit)
  have "(push_bit (Suc k) 1 - 1 :: u32) = mask (Suc k)" by (simp add: mask_eq_exp_minus_1 push_bit_eq_mult)
  then have low: "uint ?low = uint v mod 2 ^ Suc k" by (simp only: uint_and_mask)
  have half: "uint ?half = 2 ^ k" using k(1) power_strict_increasing [of k 32 "2 :: int"]
    by (subst unsigned_push_bit_eq) (simp add: push_bit_eq_mult take_bit_int_eq_self)
  have lt: "(?half < ?low) = (2 ^ Suc k < 2 * (uint v mod 2 ^ Suc k))"
    unfolding word_less_def half low by (simp add: field_simps)
  have eq: "(?low = ?half) = (2 * (uint v mod 2 ^ Suc k) = 2 ^ Suc k)"
    unfolding word_uint_eq_iff half low by auto
  have odd: "(?q AND 1 \<noteq> 0) = odd (uint v div 2 ^ Suc k)"
    unfolding q [symmetric] by (simp add: and_one_eq word_uint_eq_iff uint_mod odd_iff_mod_2_eq_one)
  have "uint ?q \<le> uint v" unfolding q by (rule div_le_self) auto
  then have suc: "uint (?q + 1) = uint v div 2 ^ Suc k + 1"
    unfolding q [symmetric] using assms(2) by (simp add: uint_word_ariths)
  have re: "round_even (of_int (uint v) / pow2 sh) =
    (if 2 ^ Suc k < 2 * (uint v mod 2 ^ Suc k) \<or> 2 * (uint v mod 2 ^ Suc k) = 2 ^ Suc k \<and> odd (uint v div 2 ^ Suc k)
     then uint v div 2 ^ Suc k + 1 else uint v div 2 ^ Suc k)"
    using round_even_div [of "2 ^ Suc k" "uint v"] by (simp add: k(4) pow2_of_nat del: power_Suc of_nat_Suc)
  have "round_shift v sh = (if ?half < ?low \<or> ?low = ?half \<and> ?q AND 1 \<noteq> 0 then ?q + 1 else ?q)"
    unfolding round_shift_def Let_def k(2,3) using False by (simp only: if_False)
  then show ?thesis
    unfolding re lt eq odd using q suc by (simp only: if_distrib [where f = uint])
qed

section \<open>The code of a number\<close>

lemma or_fields:
  fixes h m :: u32
  assumes "uint m < 2 ^ k" "uint (push_bit k h) + uint m < 2 ^ 32"
  shows "uint (push_bit k h OR m) = uint (push_bit k h) + uint m"
proof -
  have "uint (m AND mask k) = uint m" using assms(1) by (simp add: uint_and_mask)
  then have "m = ucast (m AND mask k)" by (simp add: word_uint_eq_iff)
  then have "push_bit k h AND m = 0" using fields_disjoint [of k h m] by (metis ucast_id)
  then have "push_bit k h OR m = push_bit k h + m" using word_plus_and_or [of "push_bit k h" m] by simp
  then show ?thesis using assms(2) by (simp add: uint_word_ariths)
qed

lemma uint_push_small:
  fixes h :: u32
  assumes "uint h * 2 ^ k < 2 ^ 32"
  shows "uint (push_bit k h) = uint h * 2 ^ k"
  by (subst unsigned_push_bit_eq) (use assms in \<open>simp add: push_bit_eq_mult take_bit_int_eq_self\<close>)

text \<open>The value of a code given by its fields.\<close>

lemma code_value:
  assumes "uint s \<le> 1" "uint m < 128"
  shows "fp8_e4m3_decode (ucast (push_bit 7 s OR m :: u32)) = FFin (s = 1) (dec_mag (small_fmt 4 3) (uint m))"
    "uint (push_bit 7 s OR m) < 256"
proof -
  have p: "uint (push_bit 7 s) = uint s * 128" using assms(1) by (subst uint_push_small) simp_all
  then have c: "uint (push_bit 7 s OR m) = uint s * 128 + uint m" using assms by (subst or_fields) simp_all
  then show l: "uint (push_bit 7 s OR m) < 256" using assms by linarith
  have "uint (ucast (push_bit 7 s OR m) :: u8) = uint s * 128 + uint m"
    using l c by (simp add: unsigned_ucast_eq take_bit_int_eq_self)
  moreover have "odd ((uint s * 128 + uint m) div 128) = (s = 1)" "(uint s * 128 + uint m) mod 128 = uint m"
  proof -
    have "uint s = 0 \<or> uint s = 1" using assms(1) uint_ge_0 [of s] by linarith
    then show "odd ((uint s * 128 + uint m) div 128) = (s = 1)" "(uint s * 128 + uint m) mod 128 = uint m"
      using assms(2) by (auto simp: word_uint_eq_iff)
  qed
  ultimately show "fp8_e4m3_decode (ucast (push_bit 7 s OR m)) = FFin (s = 1) (dec_mag (small_fmt 4 3) (uint m))"
    by (simp only: fp8_decode)
qed

lemma dec_e4m3:
  "0 \<le> q \<Longrightarrow> q \<le> 8 \<Longrightarrow> dec_mag (small_fmt 4 3) q = of_int q * pow2 (- 9)"
  "1 \<le> x \<Longrightarrow> 0 \<le> mt \<Longrightarrow> mt < 8 \<Longrightarrow> dec_mag (small_fmt 4 3) (x * 8 + mt) = of_int (8 + mt) * pow2 (x - 10)"
proof -
  show "dec_mag (small_fmt 4 3) q = of_int q * pow2 (- 9)" if "0 \<le> q" "q \<le> 8"
    using that by (cases "q = 8") (simp_all add: dec_mag_def Let_def mx_bias_small)
  show "dec_mag (small_fmt 4 3) (x * 8 + mt) = of_int (8 + mt) * pow2 (x - 10)" if "1 \<le> x" "0 \<le> mt" "mt < 8"
    using that by (simp add: dec_mag_def Let_def mx_bias_small)
qed

text \<open>The bits of a finite nonzero binary32 number, as the code takes them apart.\<close>

lemma f32_fields:
  assumes "representable F32 r" "0 < r"
  shows "uint (f32_bits (FFin s r) AND 0x7FFFFFFF) = enc_mag F32 r" "drop_bit 31 (f32_bits (FFin s r)) AND 1 = (if s then 1 else 0)"
    "f32_of_bits (f32_bits (FFin s r) AND 0x7FFFFFFF) = FFin False r" "f32_bits (FFin s r) AND 0x7FFFFFFF = f32_bits (FFin False r)"
proof -
  note b = enc_mag_bounds [OF assms]
  let ?n = "c_bool s * 2147483648 + enc_mag F32 r"
  have n: "0 \<le> ?n" "?n < 4294967296" using b by (auto simp: c_bool_def)
  have u: "uint (f32_bits (FFin s r)) = ?n"
    using n by (simp add: f32_bits_def unsigned_of_int take_bit_int_eq_self del: of_int_add)
  have dm: "?n mod 2147483648 = enc_mag F32 r" "?n div 2147483648 = c_bool s" using b by (auto simp: c_bool_def)
  show m: "uint (f32_bits (FFin s r) AND 0x7FFFFFFF) = enc_mag F32 r" by (simp only: uint_masks u dm)
  then show e: "f32_bits (FFin s r) AND 0x7FFFFFFF = f32_bits (FFin False r)"
    by (simp only: word_uint_eq_iff f32_bits_pos [OF assms])
  show "f32_of_bits (f32_bits (FFin s r) AND 0x7FFFFFFF) = FFin False r"
    unfolding e by (rule f32_of_bits_f32_bits [OF assms(1)])
  have "uint (drop_bit 31 (f32_bits (FFin s r))) = c_bool s" by (simp only: uint_drop_bit u) (use dm in simp)
  then have "uint (drop_bit 31 (f32_bits (FFin s r)) AND 1) = c_bool s" by (simp only: uint_masks) (simp add: c_bool_def)
  then show "drop_bit 31 (f32_bits (FFin s r)) AND 1 = (if s then 1 else 0)"
    by (simp add: word_uint_eq_iff c_bool_def split: if_splits)
qed

text \<open>The grid of e4m3 around a number.\<close>

lemma frnd_e4m3: "frnd (small_fmt 4 3) r = of_int (round_even (r / pow2 (max (ilog2 r) (- 6) - 3))) * pow2 (max (ilog2 r) (- 6) - 3)"
  by (simp add: frnd_sig fulp_eq fexp_def mx_bias_small)

lemma round_even_small: "0 \<le> q \<Longrightarrow> q \<le> 1 / 2 \<Longrightarrow> round_even q = 0"
proof -
  assume "0 \<le> q" "q \<le> 1 / 2"
  moreover from this have "\<lfloor>q\<rfloor> = 0" by (simp add: floor_eq_iff)
  ultimately show ?thesis by (auto simp: round_even_def Let_def)
qed

lemma frnd_e4m3_tiny:
  assumes "0 < r" "r \<le> pow2 (- 10)"
  shows "frnd (small_fmt 4 3) r = 0"
proof -
  have "ilog2 r < - 6"
  proof (rule ccontr)
    assume "\<not> ilog2 r < - 6"
    then have "pow2 (- 6) \<le> r" using ilog2_bounds [OF assms(1)] pow2_mono [of "- 6" "ilog2 r"] by linarith
    then have "pow2 (- 6) \<le> pow2 (- 10)" using assms(2) by (rule order_trans)
    then show False by (simp add: pow2_def)
  qed
  moreover have "r / pow2 (- 9) \<le> pow2 (- 10) / pow2 (- 9)" by (rule divide_right_mono [OF assms(2)]) simp
  then have "r / pow2 (- 9) \<le> 1 / 2" by (simp add: pow2_def)
  ultimately show ?thesis using assms(1) by (simp add: frnd_e4m3 round_even_small)
qed

lemma e4m3_normal:
  assumes r: "r = of_int sg * pow2 (E - 150)" and s: "8388608 \<le> sg" "sg < 16777216" and E: "1 \<le> E"
  shows "ilog2 r = E - 127"
    "E < 121 \<Longrightarrow> frnd (small_fmt 4 3) r = of_int (round_even (of_int sg / pow2 (14 - (E - 127)))) * pow2 (- 9)"
    "121 \<le> E \<Longrightarrow> frnd (small_fmt 4 3) r = of_int (round_even (of_int sg / pow2 20)) * pow2 (E - 130)"
proof -
  show l: "ilog2 r = E - 127" by (rule fexp_sig(2) [OF r]) (use s in auto)
  have "r / pow2 (- 9) = of_int sg / pow2 (14 - (E - 127))" unfolding r by (simp add: pow2_diff [symmetric] flip: pow2_add) (simp add: field_simps flip: pow2_add)
  then show "frnd (small_fmt 4 3) r = of_int (round_even (of_int sg / pow2 (14 - (E - 127)))) * pow2 (- 9)" if "E < 121"
    using that by (simp add: frnd_e4m3 l)
  have "r / pow2 (E - 130) = of_int sg / pow2 20" unfolding r by (simp add: field_simps flip: pow2_add)
  then show "frnd (small_fmt 4 3) r = of_int (round_even (of_int sg / pow2 20)) * pow2 (E - 130)" if "121 \<le> E"
    using that by (simp add: frnd_e4m3 l)
qed

text \<open>The test against 448, and its code.\<close>

lemma ge_448: "fle (const_f F32 448) (FFin False r) \<longleftrightarrow> 448 \<le> r"
proof -
  have "const_f F32 448 = FFin False 448"
    using fround_dyadic [of 448 0 False] by (simp add: const_f_def fround_val_def)
  then show ?thesis by (auto simp: fle_def)
qed

lemma code_448: "dec_mag (small_fmt 4 3) 126 = 448"
  using dec_e4m3(2) [of 15 6] by (simp add: pow2_def)

lemma sign_word: "(if b then 1 else 0 :: u32) = 1 \<longleftrightarrow> b" "uint (if b then 1 else 0 :: u32) \<le> 1"
  by simp_all

lemma e4m3_code:
  assumes rep: "representable F32 r" and r0: "0 < r" and big: "r < 448"
  shows "\<exists>m. f32_to_e4m3 (FFin s r) = push_bit 7 (if s then 1 else 0) OR m \<and> uint m < 128
    \<and> dec_mag (small_fmt 4 3) (uint m) = frnd (small_fmt 4 3) r"
proof -
  obtain sg E where p: "enc_mag F32 r = (E - 1) * 8388608 + sg" "r = of_int sg * pow2 (E - 150)"
    "1 \<le> E" "E \<le> 254" "0 < sg" "sg < 16777216" "E = 1 \<or> 8388608 \<le> sg"
    using f32_parts [OF rep r0] by blast
  define absx where "absx = f32_bits (FFin s r) AND 0x7FFFFFFF"
  have u: "uint absx = (E - 1) * 8388608 + sg" unfolding absx_def f32_fields(1) [OF rep r0] by (rule p(1))
  have nz: "absx \<noteq> 0" using enc_mag_bounds(1) [OF rep r0] f32_fields(1) [OF rep r0, of s] by (auto simp: absx_def)
  have fb: "f32_of_bits absx = FFin False r" unfolding absx_def by (rule f32_fields(3) [OF rep r0])
  have div: "uint absx div 8388608 = (if sg < 8388608 then 0 else E)" unfolding u by (rule sig_div) (use p in auto)
  define ef where "ef = uint (drop_bit 23 absx AND 0xFF) - 127"
  have ef: "ef = (if sg < 8388608 then 0 else E) - 127"
    using div p(3,4) by (simp add: ef_def uint_masks uint_drop_bit)
  define sig where "sig = push_bit 23 1 OR (absx AND 0x7FFFFF)"
  have man: "uint (absx AND 0x7FFFFF) = sg mod 8388608" unfolding uint_masks u by (rule mod_mult_self3)
  have "uint (push_bit 23 1 :: u32) = 8388608" by (subst uint_push_small) simp_all
  then have sig: "uint sig = 8388608 + sg mod 8388608"
    unfolding sig_def by (subst or_fields) (simp_all add: man)
  have sg_sig: "8388608 \<le> sg \<Longrightarrow> uint sig = sg"
    using p(6) div_eqI [of 8388608 1 sg] unfolding sig by (simp add: minus_div_mult_eq_mod [symmetric])
  have sig24: "uint sig < 2 ^ 24" by (simp add: sig)
  have unf: "f32_to_e4m3 (FFin s r) =
     (let s = push_bit 7 (if s then 1 else 0) in
      if ef < - 6 then let q = round_shift sig (14 - ef) in s OR (if 8 \<le> q then push_bit 3 1 OR (q - 8) else q)
      else let r = round_shift sig 20; (r, E) = (if r = 16 then (8, ef + 1) else (r, ef)); expf = E + 7; mant = r - 8
           in if 15 < expf \<or> expf = 15 \<and> mant = 7 then s OR 0x7E else s OR (push_bit 3 (word_of_int expf) OR mant))"
    unfolding f32_to_e4m3_def Let_def f32_fields(2,3) [OF rep r0] absx_def [symmetric] ef_def [symmetric] sig_def [symmetric]
    using nz big by (simp only: fb ge_448 if_False not_le simp_thms) simp
  show ?thesis
  proof (cases "ef < - 6")
    case True
    let ?q = "round_shift sig (14 - ef)"
    have q: "uint ?q = round_even (of_int (uint sig) / pow2 (14 - ef))"
      by (rule round_shift_spec) (use True sig24 in auto)
    have "frnd (small_fmt 4 3) r = of_int (uint ?q) * pow2 (- 9) \<and> uint ?q \<le> 8"
    proof (cases "sg < 8388608")
      case True
      then have E1: "E = 1" using p(7) by linarith
      have "(of_int sg :: rat) \<le> of_int 8388608" using True by (simp only: of_int_le_iff)
      with E1 have "r \<le> 8388608 * pow2 (- 149)" unfolding p(2) by simp
      then have "r \<le> pow2 (- 10)" by (rule order_trans) (simp add: pow2_def)
      moreover have "?q = 0" using True by (simp add: ef round_shift_def)
      ultimately show ?thesis using frnd_e4m3_tiny [OF r0] by simp
    next
      case False
      then have sg: "uint sig = sg" "8388608 \<le> sg" and e: "ef = E - 127" "E < 121"
        using sg_sig True by (auto simp: ef)
      have "(of_int sg :: rat) \<le> of_int 16777216" using p(6) by (simp only: of_int_le_iff)
      moreover have "pow2 21 \<le> pow2 (14 - ef)" using True by (intro pow2_mono) simp
      ultimately have "of_int sg / pow2 (14 - ef) \<le> of_int 8" by (simp add: field_simps pow2_def [of 21])
      then have "uint ?q \<le> 8" unfolding q sg(1) by (rule round_even_le)
      moreover have "frnd (small_fmt 4 3) r = of_int (uint ?q) * pow2 (- 9)"
        using e4m3_normal(2) [OF p(2) sg(2) p(6,3) e(2)] by (simp only: q [unfolded e(1)] sg(1) e(1))
      ultimately show ?thesis by blast
    qed
    then have val: "frnd (small_fmt 4 3) r = of_int (uint ?q) * pow2 (- 9)" "uint ?q \<le> 8" by blast+
    have c: "uint (if 8 \<le> ?q then push_bit 3 1 OR (?q - 8) else ?q) = uint ?q" (is "uint ?m = _")
    proof (cases "uint ?q = 8")
      case True
      then have "?q = 8" by (simp add: word_uint_eq_iff)
      then show ?thesis by simp
    next
      case False
      then have "\<not> 8 \<le> ?q" using val(2) by (simp add: word_le_def)
      then show ?thesis by simp
    qed
    have "f32_to_e4m3 (FFin s r) = push_bit 7 (if s then 1 else 0) OR ?m" unfolding unf using True by (simp only: Let_def if_True)
    moreover have "dec_mag (small_fmt 4 3) (uint ?m) = frnd (small_fmt 4 3) r"
      unfolding c val(1) by (rule dec_e4m3(1)) (use val(2) in auto)
    moreover have "uint ?m < 128" using c val(2) by simp
    ultimately show ?thesis by blast
  next
    case False
    then have big_sg: "8388608 \<le> sg" and efE: "ef = E - 127" and E: "121 \<le> E" using ef p(3) by (auto split: if_splits)
    have sg: "uint sig = sg" using sg_sig big_sg by blast
    let ?r = "round_shift sig 20"
    have q: "uint ?r = round_even (of_int sg / pow2 20)" using round_shift_spec [of 20 sig] sig24 by (simp add: sg)
    have val: "frnd (small_fmt 4 3) r = of_int (uint ?r) * pow2 (E - 130)"
      unfolding q by (rule e4m3_normal(3) [OF p(2) big_sg p(6,3) E])
    have sgr: "(of_int 8388608 :: rat) \<le> of_int sg" "(of_int sg :: rat) \<le> of_int 16777216"
      using big_sg p(6) by (simp_all only: of_int_le_iff)
    then have "of_int 8 \<le> (of_int sg :: rat) / pow2 20" "(of_int sg :: rat) / pow2 20 \<le> of_int 16" by (simp_all add: pow2_def)
    then have rb: "8 \<le> uint ?r" "uint ?r \<le> 16" unfolding q by (blast intro: round_even_ge round_even_le)+
    have E8: "E \<le> 135"
    proof (rule ccontr)
      assume "\<not> E \<le> 135"
      then have "pow2 (- 14) \<le> pow2 (E - 150)" by (intro pow2_mono) simp
      then have "8388608 * pow2 (- 14) \<le> r" unfolding p(2) using sgr(1) by (intro mult_mono) simp_all
      then show False using big by (simp add: pow2_def)
    qed
    have r14: "uint ?r \<le> 14" if "E = 135"
    proof -
      have "of_int sg * pow2 (- 15) < 448" using big that unfolding p(2) by simp
      then have "(of_int sg :: rat) / pow2 20 \<le> of_int 14" by (simp add: pow2_def)
      then show ?thesis unfolding q by (rule round_even_le)
    qed
    define x m where "x = E - (if ?r = 16 then 119 else 120)" and "m = (if ?r = 16 then 0 else ?r - 8)"
    have r16: "?r = 16 \<longleftrightarrow> uint ?r = 16" by (simp add: word_uint_eq_iff)
    have m: "uint m = (if uint ?r = 16 then 0 else uint ?r - 8)" using rb by (auto simp: m_def r16 uint_word_ariths)
    have "E \<le> 134" if "uint ?r = 16" using E8 r14 that by (cases "E = 135") auto
    then have x: "1 \<le> x" "x \<le> 15" "x = 15 \<Longrightarrow> uint m \<noteq> 7"
      using E E8 r14 m by (auto simp: x_def r16 split: if_splits)
    have m8: "uint m < 8" "0 \<le> uint m" using m rb by auto
    have "f32_to_e4m3 (FFin s r) = (if 15 < x \<or> x = 15 \<and> m = 7 then push_bit 7 (if s then 1 else 0) OR 0x7E
        else push_bit 7 (if s then 1 else 0) OR (push_bit 3 (word_of_int x) OR m))"
      unfolding unf using False by (simp add: Let_def efE x_def m_def)
    moreover have "\<not> (15 < x \<or> x = 15 \<and> m = 7)" using x by auto
    ultimately have f: "f32_to_e4m3 (FFin s r) = push_bit 7 (if s then 1 else 0) OR (push_bit 3 (word_of_int x) OR m)" by simp
    have ux: "uint (word_of_int x :: u32) = x" using x by (simp add: unsigned_of_int take_bit_int_eq_self)
    have "uint (push_bit 3 (word_of_int x) :: u32) = x * 8" using x by (subst uint_push_small) (simp_all add: ux)
    then have c: "uint (push_bit 3 (word_of_int x) OR m) = x * 8 + uint m" using x m8 by (subst or_fields) simp_all
    have "dec_mag (small_fmt 4 3) (x * 8 + uint m) = of_int (8 + uint m) * pow2 (x - 10)" by (rule dec_e4m3(2)) (use x m8 in auto)
    also have "\<dots> = frnd (small_fmt 4 3) r"
    proof (cases "?r = 16")
      case True
      then have r: "uint m = 0" "uint ?r = 16" by (simp_all add: m_def)
      have "pow2 (x - 10) = pow2 (1 + (E - 130))" using True by (simp add: x_def)
      then show ?thesis unfolding val r pow2_add by simp
    next
      case False
      then have "8 + uint m = uint ?r" "x - 10 = E - 130" using rb by (simp_all add: m x_def r16)
      then show ?thesis unfolding val by (simp only:)
    qed
    finally show ?thesis using f c x(2) m8 by (intro exI conjI) (assumption, simp_all)
  qed
qed

text \<open>C40: On every finite binary32 number the code of \<open>f32_to_e4m3\<close> is a byte, and it decodes to the
  number rounded to the nearest e4m3 number, ties to even, with its sign, or to 448 from there on.\<close>

theorem f32_to_e4m3_rounds:
  assumes "representable F32 r"
  shows "fp8_e4m3_decode (ucast (f32_to_e4m3 (FFin s r))) = FFin s (if 448 \<le> r then 448 else frnd (small_fmt 4 3) r)
    \<and> uint (f32_to_e4m3 (FFin s r)) < 256"
proof -
  have "0 \<le> r" using assms by (auto simp: representable_def)
  then consider "r = 0" | "448 \<le> r" | "0 < r" "r < 448" by linarith
  then show ?thesis
  proof cases
    case 1
    have "f32_bits (FFin s 0) AND 0x7FFFFFFF = 0" "drop_bit 31 (f32_bits (FFin s 0)) AND 1 = (if s then 1 else 0)"
      by (cases s; simp add: f32_bits_def enc_mag_def c_bool_def)+
    then have "f32_to_e4m3 (FFin s r) = push_bit 7 (if s then 1 else 0) OR 0"
      unfolding f32_to_e4m3_def Let_def 1 by (simp only: simp_thms if_True or.right_neutral)
    moreover have "dec_mag (small_fmt 4 3) 0 = 0" "frnd (small_fmt 4 3) 0 = 0"
      using round_even_of_int [of 0] by (simp_all add: dec_mag_def frnd_def)
    ultimately show ?thesis using code_value [of "if s then 1 else 0" 0] by (simp only: sign_word) (simp add: 1)
  next
    case 2
    then have r0: "0 < r" by simp
    have "f32_bits (FFin s r) AND 0x7FFFFFFF \<noteq> 0" using enc_mag_bounds(1) [OF assms r0] f32_fields(1) [OF assms r0, of s] by auto
    then have "f32_to_e4m3 (FFin s r) = push_bit 7 (if s then 1 else 0) OR 0x7E"
      using 2 unfolding f32_to_e4m3_def Let_def f32_fields(2,3) [OF assms r0] by (simp only: ge_448 if_False if_True simp_thms)
    then show ?thesis using code_value [of "if s then 1 else 0" "0x7E"] 2 by (simp only: sign_word) (simp add: code_448)
  next
    case 3
    then obtain m where "f32_to_e4m3 (FFin s r) = push_bit 7 (if s then 1 else 0) OR m" "uint m < 128"
      "dec_mag (small_fmt 4 3) (uint m) = frnd (small_fmt 4 3) r" using e4m3_code [OF assms, of s] by blast
    then show ?thesis using code_value [of "if s then 1 else 0" m] 3 by (simp only: sign_word) simp
  qed
qed

theorem f32_to_e4m3_rounds_witness: "fp8_e4m3_decode (ucast (f32_to_e4m3 (FFin True (pow2 (- 9) * 5 / 2)))) = FFin True (pow2 (- 8))"
proof -
  have e: "pow2 (- 9) * 5 / 2 = of_int 5 * pow2 (- 10)" by (simp add: pow2_def)
  have "representable F32 (pow2 (- 9) * 5 / 2)" unfolding e by (rule dyadic_rep) simp_all
  moreover have "frnd (small_fmt 4 3) (pow2 (- 9) * 5 / 2) = pow2 (- 8)" "\<not> 448 \<le> pow2 (- 9) * 5 / 2" by code_simp+
  ultimately show ?thesis using f32_to_e4m3_rounds [of "pow2 (- 9) * 5 / 2" True] by simp
qed

section \<open>The scale of a block\<close>

text \<open>The largest magnitude of the numbers of a block.\<close>

definition magnitude :: "(nat \<Rightarrow> rat) \<Rightarrow> rat" where
  "magnitude r = Max (insert 0 (r ` {..<32}))"

lemma f32_abs:
  assumes "representable F32 r"
  shows "f32_of_bits (f32_bits (FFin s r) AND 0x7FFFFFFF) = FFin False r"
proof (cases "r = 0")
  case True
  have "f32_bits (FFin s 0) AND 0x7FFFFFFF = 0" by (cases s) (simp_all add: f32_bits_def enc_mag_def c_bool_def)
  moreover have "f32_of_bits 0 = FFin False 0" by (simp add: f32_of_bits_def fdec_def dec_mag_def)
  ultimately show ?thesis by (simp add: True)
next
  case False
  then have "0 < r" using representable_nonneg [OF assms] by simp
  then show ?thesis by (rule f32_fields(3) [OF assms])
qed

lemma block_amax_max:
  assumes "\<And>j. j < 32 \<Longrightarrow> X (block_index b j) = FFin (s j) (r j) \<and> representable F32 (r j)"
  shows "block_amax X b = FFin False (magnitude r)"
proof -
  let ?step = "\<lambda>j amax. let av = f32_of_bits (f32_bits (X (block_index b j)) AND 0x7FFFFFFF) in if flt amax av then av else amax"
  have "fold ?step js (FFin False m) = FFin False (fold (\<lambda>j. max (r j)) js m)" if "set js \<subseteq> {..<32}" for js m
    using that
  proof (induction js arbitrary: m)
    case (Cons j js)
    have "?step j (FFin False m) = FFin False (max (r j) m)"
      using assms [of j] Cons.prems by (simp add: f32_abs Let_def max_def)
    then show ?case using Cons by simp
  qed simp
  then have "block_amax X b = FFin False (fold (\<lambda>j. max (r j)) [0..<32] 0)"
    by (simp add: block_amax_def atLeast0LessThan del: upt_rec_numeral)
  also have "fold (\<lambda>j. max (r j)) [0..<32] 0 = fold max (map r [0..<32]) 0"
    by (simp add: fold_map comp_def del: upt_rec_numeral)
  also have "\<dots> = Max (set (0 # map r [0..<32]))" by (rule Max.set_eq_fold [symmetric])
  also have "\<dots> = magnitude r" by (simp add: magnitude_def atLeast0LessThan del: upt_rec_numeral)
  finally show ?thesis .
qed

text \<open>A block whose largest magnitude is at least \<open>2^-119\<close>: the multiplier is \<open>2^-e\<close> for the least
  \<open>e\<close> that brings the block below 448.\<close>

lemma quant_scale_exact:
  assumes rep: "representable F32 A" and big: "pow2 (- 119) \<le> A"
  shows "\<exists>e. quant_scale (FFin False A) = (FFin False (pow2 (- e)), word_of_int (e + 127))
    \<and> - 127 \<le> e \<and> e \<le> 120 \<and> A \<le> 448 * pow2 e \<and> 448 * pow2 (e - 1) < A"
proof -
  have A0: "0 < A" using big pow2_pos [of "- 119"] by linarith
  obtain sg E where p: "enc_mag F32 A = (E - 1) * 8388608 + sg" "A = of_int sg * pow2 (E - 150)"
    "1 \<le> E" "E \<le> 254" "0 < sg" "sg < 16777216" "E = 1 \<or> 8388608 \<le> sg"
    using f32_parts [OF rep A0] by blast
  have sgr: "(of_int sg :: rat) < of_int 16777216" using p(6) by (simp only: of_int_less_iff)
  have E8: "8 \<le> E"
  proof (rule ccontr)
    assume "\<not> 8 \<le> E"
    then have "pow2 (E - 150) \<le> pow2 (- 143)" by (intro pow2_mono) simp
    then have "A < of_int 16777216 * pow2 (- 143)" unfolding p(2) using sgr by (intro mult_less_le_imp_less) (use p(5) in simp_all)
    then show False using big by (simp add: pow2_def)
  qed
  then have sg: "8388608 \<le> sg" using p(7) by linarith
  define ab where "ab = f32_bits (FFin False A)"
  have u: "uint ab = (E - 1) * 8388608 + sg" unfolding ab_def f32_bits_pos [OF rep A0] by (rule p(1))
  have "uint ab div 8388608 = E" using sig_div [of E sg] p sg by (simp add: u)
  then have field: "uint (drop_bit 23 ab AND 0xFF) = E" using p(3,4) by (simp add: uint_masks uint_drop_bit)
  have "uint (ab AND 0x7FFFFF) = sg - 8388608"
    unfolding uint_masks u mod_mult_self3 using p(6) sg div_eqI [of 8388608 1 sg] by (simp add: minus_div_mult_eq_mod [symmetric])
  then have man: "0x600000 < ab AND 0x7FFFFF \<longleftrightarrow> 14680064 < sg" by (simp add: word_less_def)
  define e where "e = E - 135 + (if 14680064 < sg then 1 else 0)"
  have e_alt: "E - 127 - 8 + (if 14680064 < sg then 1 else 0) = e" by (simp add: e_def)
  have e: "- 127 \<le> e" "e \<le> 120" using E8 p(4) by (auto simp: e_def)
  have w: "uint (word_of_int (127 - e) :: u32) = 127 - e" using e by (simp add: unsigned_of_int take_bit_int_eq_self del: of_int_diff)
  then have "uint (push_bit 23 (word_of_int (127 - e)) :: u32) = (127 - e) * 8388608" using e by (subst uint_push_small) (simp_all del: of_int_diff)
  then have "f32_of_bits (push_bit 23 (word_of_int (127 - e))) = fdec F32 ((127 - e) * 8388608)" by (simp only: f32_of_bits_def)
  also have "\<dots> = FFin False (pow2 (- e))"
  proof -
    have m: "(127 - e) * 8388608 mod 2147483648 = (127 - e) * 8388608" "(127 - e) * 8388608 div 2147483648 = 0"
      using e by (intro mod_pos_pos_trivial div_pos_pos_trivial; simp)+
    have "dec_mag F32 ((127 - e) * 8388608) = of_int 8388608 * pow2 (127 - e - 150)"
      using dec_mag_sig [of "(127 - e) * 8388608"] e by (simp add: max_def algebra_simps)
    also have "\<dots> = pow2 (- e)" using pow2_add [of 23 "127 - e - 150"] by (simp add: pow2_def [of 23])
    finally show ?thesis using e by (simp add: fdec_def Let_def m)
  qed
  finally have mul: "f32_of_bits (push_bit 23 (word_of_int (127 - e))) = FFin False (pow2 (- e))" .
  have nz: "\<not> feq (FFin False A) f32_zero" using A0 by simp
  have "quant_scale (FFin False A) = (FFin False (pow2 (- e)), word_of_int (e + 127))"
    unfolding quant_scale_def Let_def ab_def [symmetric] field man e_alt using nz e mul by (simp del: of_int_diff of_int_add)
  moreover have "A \<le> 448 * pow2 e \<and> 448 * pow2 (e - 1) < A"
  proof -
    have P: "448 * pow2 (E - 135) = of_int 14680064 * pow2 (E - 150)" "448 * pow2 (E - 134) = of_int 29360128 * pow2 (E - 150)"
      "448 * pow2 (E - 136) = of_int 7340032 * pow2 (E - 150)"
      using pow2_add [of 15 "E - 150"] pow2_add [of 16 "E - 150"] pow2_add [of 14 "E - 150"] by (simp_all add: pow2_def [of 14] pow2_def [of 15] pow2_def [of 16])
    have cmp: "of_int x * pow2 k \<le> of_int y * pow2 k \<longleftrightarrow> x \<le> y" "of_int x * pow2 k < of_int y * pow2 k \<longleftrightarrow> x < y" for x y k
      by simp_all
    show ?thesis
    proof (cases "14680064 < sg")
      case True
      then have "e = E - 134" "e - 1 = E - 135" by (simp_all add: e_def)
      then show ?thesis unfolding p(2) by (simp only: P cmp) (use True p(6) in simp)
    next
      case False
      then have "e = E - 135" "e - 1 = E - 136" by (simp_all add: e_def)
      then show ?thesis unfolding p(2) by (simp only: P cmp) (use False sg in simp)
    qed
  qed
  ultimately show ?thesis using e by blast
qed

section \<open>The numbers of a block, scaled\<close>

text \<open>The product by a power of two may be rounded when it is subnormal, but then its code is that of
  zero, as it is for the exact product.\<close>

lemma scaled_product:
  assumes rep: "representable F32 r" and e: "- 127 \<le> e" "e \<le> 120" and le: "r * pow2 (- e) \<le> 448"
  shows "fp8_e4m3_decode (ucast (f32_to_e4m3 (fmul F32 (FFin s r) (FFin False (pow2 (- e)))))) = FFin s (frnd (small_fmt 4 3) (r * pow2 (- e)))
    \<and> uint (f32_to_e4m3 (fmul F32 (FFin s r) (FFin False (pow2 (- e))))) < 256"
proof -
  define q where "q = r * pow2 (- e)"
  have f448: "frnd (small_fmt 4 3) 448 = 448" by code_simp
  have goal: ?thesis if "fround F32 s q = FFin s q'" "representable F32 q'" "q' \<le> 448" "frnd (small_fmt 4 3) q' = frnd (small_fmt 4 3) q" for q'
  proof -
    have "(if 448 \<le> q' then 448 else frnd (small_fmt 4 3) q') = frnd (small_fmt 4 3) q"
      using that(3,4) f448 by (cases "q' = 448") auto
    then show ?thesis using f32_to_e4m3_rounds [OF that(2), of s] that(1) by (simp add: q_def)
  qed
  show ?thesis
  proof (cases "r = 0")
    case True
    then show ?thesis using goal [of 0] by (simp add: q_def fround_def representable_def)
  next
    case False
    then have r0: "0 < r" using representable_nonneg [OF rep] by simp
    obtain sg E where p: "r = of_int sg * pow2 (E - 150)" "1 \<le> E" "E \<le> 254" "0 < sg" "sg < 16777216" "E = 1 \<or> 8388608 \<le> sg"
      using f32_parts [OF rep r0] by metis
    have q: "q = of_int sg * pow2 (E - 150 - e)" unfolding q_def p(1) by (simp flip: pow2_add)
    have q0: "0 < q" using r0 by (simp add: q_def)
    have k: "E - 150 - e \<le> 104"
    proof (cases "E = 1")
      case False
      then have "(of_int 8388608 :: rat) \<le> of_int sg" using p(6) by (simp only: of_int_le_iff) simp
      then have "of_int 8388608 * pow2 (E - 150 - e) \<le> q" unfolding q by (rule mult_right_mono) simp
      also have "q \<le> 448" using le by (simp add: q_def)
      finally have "pow2 (E - 150 - e) < pow2 0" by simp
      then show ?thesis by (simp only: pow2_less_iff)
    qed (use e in simp)
    show ?thesis
    proof (cases "- 149 \<le> E - 150 - e")
      case True
      have "representable F32 q" unfolding q by (rule dyadic_rep) (use p True k in auto)
      then show ?thesis using goal [of q] fround_representable le by (simp add: q_def)
    next
      case False
      have "(of_int sg :: rat) \<le> of_int 16777216" using p(5) by (simp only: of_int_le_iff)
      moreover have "pow2 (E - 150 - e) \<le> pow2 (- 150)" using False by (intro pow2_mono) simp
      ultimately have "q \<le> of_int 16777216 * pow2 (- 150)" unfolding q using p(4) by (intro mult_mono) simp_all
      then have tiny: "q \<le> pow2 (- 126)" by (simp add: pow2_def)
      have "ilog2 q \<le> - 126"
      proof (rule ccontr)
        assume "\<not> ilog2 q \<le> - 126"
        then have "pow2 (- 125) \<le> q" using ilog2_bounds [OF q0] pow2_mono [of "- 125" "ilog2 q"] by linarith
        then have "pow2 (- 125) \<le> pow2 (- 126)" using tiny by (rule order_trans)
        then show False by (simp add: pow2_def)
      qed
      then have fr: "frnd F32 q \<le> pow2 (- 126)" by (intro frnd_le_pow2 [OF q0 tiny]) (simp add: fexp_def)
      have p126: "pow2 (- 126) \<le> pow2 (- 10)" "pow2 (- 126) < pow2 128" "pow2 (- 126) \<le> 448" by (simp_all add: pow2_def)
      then have "frnd F32 q < pow2 128" using fr by linarith
      then have fin: "fround F32 s q = FFin s (frnd F32 q)" using q0 by (simp add: fround_eq not_le)
      have rep': "representable F32 (frnd F32 q)" using fround32_wf [of q s] q0 unfolding fin by simp
      have "frnd (small_fmt 4 3) (frnd F32 q) = 0"
      proof (cases "frnd F32 q = 0")
        case True
        then show ?thesis using round_even_of_int [of 0] by (simp add: frnd_def)
      next
        case False
        then have "0 < frnd F32 q" using representable_nonneg [OF rep'] by simp
        then show ?thesis using fr p126 by (intro frnd_e4m3_tiny) linarith+
      qed
      moreover have "frnd (small_fmt 4 3) q = 0" using q0 tiny p126 by (intro frnd_e4m3_tiny) linarith+
      ultimately show ?thesis using goal [OF fin rep'] fr p126 by simp
    qed
  qed
qed

section \<open>The words of a block\<close>

text \<open>The code that a word packs at one of its four places.\<close>

lemma packed_code:
  fixes c :: "nat \<Rightarrow> u32"
  assumes "k < 4" "uint (c k) < 256"
  shows "drop_bit (8 * k) (fold (\<lambda>k word. word OR push_bit (8 * k) (c k AND 0xFF)) [0..<4] 0) AND 0xFF = c k"
proof -
  have m: "(0xFF :: u32) = mask 8" by (simp add: mask_eq_exp_minus_1)
  have four: "[0..<4] = [0, 1, 2, 3 :: nat]" by code_simp
  have f: "fold (\<lambda>k word. word OR push_bit (8 * k) (c k AND 0xFF)) [0..<4] 0
    = (c 0 AND mask 8) OR push_bit 8 (c 1 AND mask 8) OR push_bit 16 (c 2 AND mask 8) OR push_bit 24 (c 3 AND mask 8)" (is "_ = ?W")
    unfolding four by (simp add: m or.assoc)
  have c: "c k AND mask 8 = c k" using assms(2) by (simp add: word_uint_eq_iff uint_and_mask)
  have "k = 0 \<or> k = 1 \<or> k = 2 \<or> k = 3" using assms(1) by arith
  then have "drop_bit (8 * k) ?W AND mask 8 = c k AND mask 8"
    by (intro bit_word_eqI) (elim disjE; auto simp: bit_simps)
  then show ?thesis by (simp only: f) (simp only: m c)
qed

section \<open>Where a block is stored\<close>

lemma of_nat_place: "a < 9216 \<Longrightarrow> a' < 9216 \<Longrightarrow> (of_nat a :: u32) = of_nat a' \<longleftrightarrow> a = a'"
proof -
  have small: "unat (of_nat a :: u32) = a" if "a < 9216" for a
    by (rule unat_of_nat_exact) (rule less_trans [OF that], simp)
  assume "a < 9216" "a' < 9216"
  then show ?thesis using small by metis
qed

definition quant_places :: "nat \<Rightarrow> nat list" where
  "quant_places t = map (\<lambda>w. 8 * t + w) [0..<8]"

lemma quantize_one_block_at:
  assumes t: "t < 1024" and a: "a < 9216" and bs: "quant_scale (block_amax X (of_nat t)) = (p2, scode)"
  shows "quantize_one_block X (of_nat t) out (of_nat a) =
    (if a = 8192 + t then scode else if a div 8 = t then block_word X (of_nat t) p2 (a mod 8) else out (of_nat a))"
proof -
  let ?f = "\<lambda>a. block_word X (of_nat t) p2 (a - 8 * t)"
  have pl: "set (quant_places t) = {8 * t..<8 * t + 8}"
    by (auto simp: quant_places_def image_iff Bex_def simp del: upt_rec_numeral)
  have inj: "inj_on (of_nat :: nat \<Rightarrow> u32) (set (quant_places t))"
    using of_nat_place t by (auto simp: inj_on_def pl)
  have e: "quantize_one_block X (of_nat t) out = fold (\<lambda>a out. out(of_nat a := ?f a)) (quant_places t) (out(of_nat (8192 + t) := scode))"
    by (simp add: quantize_one_block_def bs quant_places_def fold_map comp_def PACKED_COUNT_def mult.commute del: upt_rec_numeral)
  have in': "(of_nat a :: u32) \<in> of_nat ` set (quant_places t) \<longleftrightarrow> a div 8 = t"
  proof
    assume "(of_nat a :: u32) \<in> of_nat ` set (quant_places t)"
    then obtain a' where "8 * t \<le> a'" "a' < 8 * t + 8" "(of_nat a :: u32) = of_nat a'" by (auto simp: pl)
    then show "a div 8 = t" using of_nat_place [OF a, of a'] t by auto
  next
    assume "a div 8 = t"
    then have "a \<in> set (quant_places t)" by (auto simp: pl)
    then show "(of_nat a :: u32) \<in> of_nat ` set (quant_places t)" by blast
  qed
  have "quantize_one_block X (of_nat t) out (of_nat a) =
    (if a div 8 = t then ?f (the_inv_into (set (quant_places t)) of_nat (of_nat a :: u32)) else (out(of_nat (8192 + t) := scode)) (of_nat a))"
    unfolding e fold_stores [OF inj] in' ..
  moreover have "the_inv_into (set (quant_places t)) of_nat (of_nat a :: u32) = a" if "a div 8 = t"
    by (rule the_inv_into_f_f [OF inj]) (use that in \<open>auto simp: pl\<close>)
  moreover have "a - 8 * t = a mod 8" if "a div 8 = t" using that by (simp add: minus_mult_div_eq_mod [symmetric])
  moreover have "a div 8 \<noteq> t" if "a = 8192 + t" using that t by auto
  moreover have "(of_nat a :: u32) = of_nat (8192 + t) \<longleftrightarrow> a = 8192 + t" by (rule of_nat_place [OF a]) (use t in simp)
  ultimately show ?thesis by (simp del: of_nat_add)
qed

text \<open>Whatever the order of the blocks, a place has the value that its own block gives it.\<close>

lemma quantize_order:
  assumes "t < 1024" "set ts \<subseteq> {..<1024}" "t \<in> set ts" "a < 9216" "a = 8192 + t \<or> a div 8 = t"
    and "quant_scale (block_amax X (of_nat t)) = (p2, scode)"
  shows "fold (\<lambda>t. quantize_one_block X (of_nat t)) ts out (of_nat a)
    = (if a = 8192 + t then scode else block_word X (of_nat t) p2 (a mod 8))"
proof -
  have "fold (\<lambda>t. quantize_one_block X (of_nat t)) us out (of_nat a)
    = (if t \<in> set us then if a = 8192 + t then scode else block_word X (of_nat t) p2 (a mod 8) else out (of_nat a))"
    if "set us \<subseteq> {..<1024}" for us out
    using that
  proof (induction us arbitrary: out)
    case (Cons u us)
    obtain p2' scode' where u: "quant_scale (block_amax X (of_nat u)) = (p2', scode')" by (cases "quant_scale (block_amax X (of_nat u))")
    have "u < 1024" using Cons.prems by simp
    note one = quantize_one_block_at [OF this assms(4) u, of out]
    show ?case
    proof (cases "u = t")
      case True
      then show ?thesis using Cons one assms(5,6) u by auto
    next
      case False
      then have "a \<noteq> 8192 + u" "a div 8 \<noteq> u" using assms(1,5) \<open>u < 1024\<close> by auto
      then show ?thesis using Cons one False by simp
    qed
  qed simp
  then show ?thesis using assms(2,3) by simp
qed

lemma magnitude_ge: "j < 32 \<Longrightarrow> r j \<le> magnitude r"
  by (simp add: magnitude_def)

lemma magnitude_rep:
  assumes "\<And>j. j < 32 \<Longrightarrow> representable F32 (r j)"
  shows "representable F32 (magnitude r)"
proof -
  have "magnitude r \<in> insert 0 (r ` {..<32})" unfolding magnitude_def by (rule Max_in) simp_all
  moreover have "representable F32 0" by (simp add: representable_def)
  ultimately show ?thesis using assms by force
qed

section \<open>The whole tile\<close>

text \<open>For every tile of finite numbers and in whatever order the threads quantise the blocks: the
  scale of each block whose largest magnitude is at least \<open>2^-119\<close> is stored as the code of the least
  power of two that brings the block to 448, and each packed code decodes to its number divided by
  that power and rounded to the nearest e4m3 number, ties to even; no other block disturbs it.\<close>

lemma quantized_tile_exact:
  assumes "t < 1024" "set ts \<subseteq> {..<1024}" "t \<in> set ts"
    and "\<And>j. j < 32 \<Longrightarrow> X (block_index (of_nat t) j) = FFin (s j) (r j) \<and> representable F32 (r j)"
    and "pow2 (- 119) \<le> magnitude r"
    and "final = fold (\<lambda>t. quantize_one_block X (of_nat t)) ts out"
  shows "\<exists>e. - 127 \<le> e \<and> e \<le> 120 \<and> magnitude r \<le> 448 * pow2 e \<and> 448 * pow2 (e - 1) < magnitude r
    \<and> final (PACKED_COUNT + of_nat t) = word_of_int (e + 127)
    \<and> (\<forall>w < 8. \<forall>k < 4. fp8_e4m3_decode (ucast (drop_bit (8 * k) (final (of_nat (8 * t + w))) AND 0xFF))
      = FFin (s (w * 4 + k)) (frnd (small_fmt 4 3) (r (w * 4 + k) * pow2 (- e))))"
proof -
  have rep: "representable F32 (magnitude r)" by (rule magnitude_rep) (use assms(4) in blast)
  have amax: "block_amax X (of_nat t) = FFin False (magnitude r)" by (rule block_amax_max) (rule assms(4))
  obtain e where sc: "quant_scale (block_amax X (of_nat t)) = (FFin False (pow2 (- e)), word_of_int (e + 127))"
    and e: "- 127 \<le> e" "e \<le> 120" "magnitude r \<le> 448 * pow2 e" "448 * pow2 (e - 1) < magnitude r"
    using quant_scale_exact [OF rep assms(5)] unfolding amax by blast
  have at: "final (of_nat a) = (if a = 8192 + t then word_of_int (e + 127) else block_word X (of_nat t) (FFin False (pow2 (- e))) (a mod 8))"
    if "a < 9216" "a = 8192 + t \<or> a div 8 = t" for a
    unfolding assms(6) by (rule quantize_order [OF assms(1-3) that sc])
  have "final (PACKED_COUNT + of_nat t) = final (of_nat (8192 + t))" by (simp add: PACKED_COUNT_def)
  also have "\<dots> = word_of_int (e + 127)" using at [of "8192 + t"] assms(1) by (simp del: of_nat_add of_int_add)
  finally have scale: "final (PACKED_COUNT + of_nat t) = word_of_int (e + 127)" .
  have "fp8_e4m3_decode (ucast (drop_bit (8 * k) (final (of_nat (8 * t + w))) AND 0xFF))
      = FFin (s (w * 4 + k)) (frnd (small_fmt 4 3) (r (w * 4 + k) * pow2 (- e)))" if wk: "w < 8" "k < 4" for w k
  proof -
    let ?c = "\<lambda>k. f32_to_e4m3 (fmul F32 (X (block_index (of_nat t) (w * 4 + k))) (FFin False (pow2 (- e))))"
    have j: "w * 4 + k < 32" using wk by simp
    have "8 * t + w \<noteq> 8192 + t" "(8 * t + w) div 8 = t" "(8 * t + w) mod 8 = w" "8 * t + w < 9216" using assms(1) wk by auto
    then have W: "final (of_nat (8 * t + w)) = block_word X (of_nat t) (FFin False (pow2 (- e))) w"
      using at [of "8 * t + w"] by (simp del: of_nat_add of_nat_mult)
    have x: "X (block_index (of_nat t) (w * 4 + k)) = FFin (s (w * 4 + k)) (r (w * 4 + k))" "representable F32 (r (w * 4 + k))"
      using assms(4) [OF j] by blast+
    have "r (w * 4 + k) \<le> 448 * pow2 e" using magnitude_ge [OF j, of r] e(3) by linarith
    then have "r (w * 4 + k) * pow2 (- e) \<le> 448" by (simp add: pow2_uminus field_simps)
    note c = scaled_product [OF x(2) e(1,2) this, of "s (w * 4 + k)", folded x(1)]
    have "drop_bit (8 * k) (final (of_nat (8 * t + w))) AND 0xFF = ?c k"
      unfolding W block_word_def by (rule packed_code [OF wk(2)]) (use c in blast)
    then show ?thesis using c by (simp only:)
  qed
  then show ?thesis using e scale by blast
qed

text \<open>In a block whose largest magnitude is below \<open>2^-119\<close> the multiplier is not representable:
  at \<open>2^-120\<close> it is an infinity, and a zero of the block is stored as the code of 448.\<close>

theorem quantize_tiny_block:
  "quant_scale (FFin False (pow2 (- 120))) = (FInf False, 0)
   \<and> f32_to_e4m3 (fmul F32 f32_zero (fst (quant_scale (FFin False (pow2 (- 120)))))) = 0x7E
   \<and> fp8_e4m3_decode (ucast (0x7E :: u32)) = FFin False 448"
  by (intro conjI; code_simp)

end
