(* ===== verification/Simt_Quant_Run.thy ===== *)
theory Simt_Quant_Run
  imports Simt_Quant Tapeout_Template Kernel_Verify
begin

text \<open>
  The program of \<open>src/kernels/simt_quant/kernel.cpp\<close> around the block quantiser: the grid-stride loop
  of a thread, the launch, and the comparison with the expected words.  The generator
  \<open>gen_quant.py\<close> fixes the number of blocks and of words.
\<close>

definition NUM_BLOCKS :: u32 where "NUM_BLOCKS = 1024"
definition TOTAL_COUNT :: u32 where "TOTAL_COUNT = 9216"
definition KERNEL_OCCUPANCY :: int where "KERNEL_OCCUPANCY = 2"

text \<open>The blocks that one thread quantises.\<close>

definition kernel_body :: "u32 \<Rightarrow> u32 \<Rightarrow> u32 \<Rightarrow> u32 list option" where
  "kernel_body nblocks tid tpb = grid_stride (unat nblocks) tid nblocks tpb"

definition kernel_blocks :: "simt \<Rightarrow> u32 list option" where
  "kernel_blocks hw = do {
     calls \<leftarrow> mu_launch hw 1 () () KERNEL_OCCUPANCY;
     traverse (\<lambda>c. case c of MuCall _ _ tid threads _ \<Rightarrow> kernel_body NUM_BLOCKS (word_of_int tid) (word_of_int threads)) calls }"

definition run_verify :: "(u32 \<Rightarrow> u32) \<Rightarrow> (u32 \<Rightarrow> u32) \<Rightarrow> u32" where
  "run_verify gold out = fold (\<lambda>i errors. if out i \<noteq> gold i then errors + 1 else errors) (map of_nat [0..<unat TOTAL_COUNT]) 0"

text \<open>What hart 0 writes to \<open>tohost\<close> when the blocks were quantised in the order \<open>bs\<close>; \<^const>\<open>None\<close>
  for the other harts, which park.\<close>

definition simt_quant_main :: "(u32 \<Rightarrow> fnum) \<Rightarrow> (u32 \<Rightarrow> u32) \<Rightarrow> u32 list \<Rightarrow> u32 \<Rightarrow> u32 option" where
  "simt_quant_main X gold bs hart_id =
     (let out = fold (quantize_one_block X) bs (\<lambda>_. 0)
      in if hart_id \<noteq> 0 then None
         else let errors = run_verify gold out
              in Some (mu_tohost (if errors \<noteq> 0 then push_bit 1 errors OR 1 else 0)))"

lemma kernel_blocks_cover:
  assumes "simt_isa hw"
  shows "\<exists>prog. kernel_blocks hw = Some prog \<and> mset prog = mset (map of_nat [0..<1024])"
proof -
  let ?E = "\<lambda>c. case c of MuCall _ _ tid threads _ \<Rightarrow> kernel_body NUM_BLOCKS (word_of_int tid) (word_of_int threads)"
  have "?E (MuCall () () (int t) (32 * int 2) 0) = Some (map of_nat (residues 1024 (32 * 2) t))" if "t < 32 * 2" for t
    using grid_stride_thread [of t 64 1024] that by (simp add: kernel_body_def NUM_BLOCKS_def)
  from launch_visits [OF assms _ _ this] show ?thesis
    by (auto simp: kernel_blocks_def KERNEL_OCCUPANCY_def)
qed

lemma blocks_numbers:
  fixes bs :: "u32 list"
  assumes "mset bs = mset prog" "mset prog = mset (map of_nat [0..<1024])"
  obtains ts where "bs = map of_nat ts" "mset ts = mset [0..<1024]"
proof
  show "bs = map of_nat (map unat bs)" by (simp add: comp_def)
  have "mset (map unat bs) = image_mset unat (mset bs)" by simp
  also have "\<dots> = mset (map (\<lambda>t. unat (of_nat t :: u32)) [0..<1024])" by (simp add: assms multiset.map_comp comp_def del: upt_rec_numeral)
  also have "map (\<lambda>t. unat (of_nat t :: u32)) [0..<1024] = [0..<1024]"
    by (rule map_idI) (simp add: unat_of_nat_exact del: upt_rec_numeral)
  finally show "mset (map unat bs) = mset [0..<1024]" .
qed

lemma run_verify_zero: "run_verify gold out = 0 \<longleftrightarrow> (\<forall>i<9216. out (of_nat i) = gold (of_nat i))"
proof -
  let ?bad = "filter (\<lambda>i. out (of_nat i) \<noteq> gold (of_nat i)) [0..<9216]"
  have e: "run_verify gold out = of_nat (length ?bad)"
    using errors_count [of "\<lambda>i. out i = gold i" 9216] by (simp add: run_verify_def TOTAL_COUNT_def del: upt_rec_numeral)
  have l: "length ?bad < 2 ^ 32"
    by (rule le_less_trans [OF length_filter_le]) (simp del: upt_rec_numeral)
  then have "(of_nat (length ?bad) :: u32) = 0 \<longleftrightarrow> ?bad = []"
    using unat_of_nat_exact [OF l] unat_eq_zero [of "of_nat (length ?bad) :: u32"] by (simp del: upt_rec_numeral)
  then have "run_verify gold out = 0 \<longleftrightarrow> ?bad = []" by (simp only: e)
  then show ?thesis by (auto simp: filter_empty_conv simp del: upt_rec_numeral)
qed

lemma tohost_zero: "mu_tohost (if e \<noteq> 0 then push_bit 1 e OR 1 else 0) = 0 \<longleftrightarrow> e = 0"
  using odd_code [of e] by (simp only: mu_tohost_def push_or_one split: if_split) simp



end
