(* ===== verification/Spec2Isabelle.thy ===== *)
theory Spec2Isabelle
  imports Vx_Kernel_Props Vx_Cluster Printf_Floats Printf_Edges Rad_Host Mx_Golden_Props Mxgemm_Pipeline Tapeout_Template Vx_Libc Kernel_Verify Vx_Print Gemmini_Outer Simt_Quant_Run
begin

text \<open>
  This development verifies the runtime and the reference code of the \<open>radiance-kernels\<close>
  repository: the library under \<open>src/lib\<close> that every GPU kernel of \<open>src/kernels\<close> is linked with
  or checked against, and two complete kernel programs.

  \<^bold>\<open>The program.\<close>  A kernel is compiled for a SIMT core (Vortex or Muon).  Its \<open>main\<close> hands a callback
  to a scheduler: \<open>vx_spawn_tasks\<close> and its variants on Vortex, \<open>mu_schedule\<close> on Muon.  The scheduler
  divides the work, starts warps and runs the callback in their threads.  Kernels and hosts print
  with \<open>tinyprintf\<close>, \<open>vx_print\<close> or the host's own buffer; the C runtime is \<open>vx_syscalls\<close>.  On the
  taped-out part a run ends with the epilogue of \<open>rad_tapeout.h\<close>, which drains the caches by
  stores and reports through a postbox that the host of \<open>rad_host.h\<close> polls.  The matrix kernels
  drive an accelerator: the MX kernels through \<open>mxgemm_lib.hpp\<close>, the others through
  \<open>gemmini.h\<close>.  The results are compared with the golden model of \<open>src/lib/golden\<close>.

  \<^bold>\<open>Theories and sources\<close>, in the order of their imports:
  \<^item> \<open>Prelude\<close>: the arithmetic of C's \<open>int\<close> (undefined behaviour is \<open>None\<close>), traversals, words, and
    the lemmas on lists, multisets and stores that the components share.  \<open>Digits\<close>: positional
    notation.  \<open>C_Float\<close>, \<open>C_Float_Facts\<close>: IEEE arithmetic as executable functions on rationals.
  \<^item> \<open>Simt\<close>, \<open>Vx_Spawn\<close>, \<open>Vx_Spawn_Props\<close>, \<open>Vx_Kernel_Props\<close>, \<open>Vx_Cluster\<close>: \<open>lib/src/vx_spawn.c\<close>.  A
    launch is the sequence of callback invocations of all threads; the lemmas show that it is a
    permutation of the tasks, that no \<open>int\<close> overflows, and which tasks the cluster variant loses.
  \<^item> \<open>Mu_Schedule\<close>: \<open>lib/src/mu_schedule.cpp\<close> with \<open>mu_intrinsics.h\<close>.
  \<^item> \<open>Printf\<close>: \<open>lib/src/tinyprintf.c\<close>, every function.  \<open>Printf_Emit\<close>: the abstract specification, what a
    format emits.  \<open>Printf_Props\<close>: every output function refines it, the buffers are not overrun.
    \<open>Printf_Ints\<close>, \<open>Printf_Floats\<close>, \<open>Printf_Edges\<close>: what the conversions print, and where they fail.
  \<^item> \<open>Tapeout\<close>: caches, drains and postbox of \<open>rad_tapeout.h\<close>.  \<open>Tapeout_Run\<close>: one run as the interleaving
    of all warps, an inductive step relation.  \<open>Tapeout_Safety\<close>: its invariants, completion and the
    stale report.  \<open>Rad_Host\<close>: \<open>rad_host.h\<close> and the host's half of \<open>rad_tapeout.h\<close>.
    \<open>Tapeout_Template\<close>: \<open>kernels/tapeout_template\<close>, kernel, epilogue and host put together.
  \<^item> \<open>Mx_Fp\<close>, \<open>Mx_Codes\<close>: the MX number formats of \<open>golden/mx_fp_math.h\<close>.  \<open>Mx_Facts\<close>, \<open>Mx_Rounding\<close>,
    \<open>Mx_Bf16\<close>, \<open>Mx_Codes_Props\<close>, \<open>Mx_Products\<close>, \<open>Mx_Total\<close>: the bit-level code rounds as IEEE
    prescribes, the codes mean what their formats say, and the arithmetic is defined wherever
    the golden model uses it.  \<open>Mx_Golden\<close>, \<open>Mx_Golden_Props\<close>: \<open>golden/mx_golden.cpp\<close>, the tiled
    product equals the element-wise definition.
  \<^item> \<open>Mxgemm\<close>: \<open>mxgemm/mxgemm_lib.hpp\<close> as the sequence of its accelerator calls.  \<open>Mxgemm_Spad\<close>: the
    placement of the result.  \<open>Mxgemm_Monitor\<close>: what the accelerator demands of a sequence.
    \<open>Mxgemm_Pipeline\<close>: the software pipeline obeys it and every computation uses its own tiles.
  \<^item> \<open>Gemmini_Cpu\<close>, \<open>Gemmini_Tiles\<close>, \<open>Gemmini_Outer\<close>: \<open>gemmini/include/gemmini.h\<close>, the product on the
    CPU, the choice of tiles with the assertions of \<open>tiled_matmul\<close>, and the tile loop.  The lemmas
    show that the unrolled routine equals the general one, that the choice of tiles ends and passes
    every assertion, and that the calls of the loop multiply each element's row and column in order.
  \<^item> \<open>Simt_Quant\<close>, \<open>Simt_Quant_Run\<close>: \<open>kernels/simt_quant/kernel.cpp\<close>, from the rounding of one number to
    the verdict of the program.
  \<^item> \<open>Vx_Libc\<close>: \<open>lib/src/vx_syscalls.c\<close>.  \<open>Kernel_Verify\<close>: \<open>lib/include/kernel_verify.h\<close>.  \<open>Vx_Print\<close>:
    \<open>lib/src/vx_print.c\<close> and \<open>vx_perf.c\<close>.

  \<^bold>\<open>Interfaces.\<close>  Three locales state what one part relies on: \<open>simt_isa\<close> (the instructions \<open>tmc\<close> and
  \<open>wspawn\<close>, which are hardware), \<open>sink\<close> (an output function of \<open>tinyprintf\<close>, interpreted on the four
  of the code) and \<open>systolic_array\<close> (the capacities of the array, interpreted on both parameter
  headers).  Other code that is not in the repository is an argument of the definitions: the
  accelerator's macros and geometry, \<open>log2f\<close>, \<open>itoa\<close>, \<open>pow\<close>, the console, the element operations
  of \<open>gemmini_params.h\<close>, and the generated input and expected data.

  \<^bold>\<open>Bounds and fuel.\<close>  Loops are structural recursions or folds where their bounds are known.  The
  recursion of \<open>tinyprintf\<close> on large floating-point numbers has a depth argument, and a number
  that needs more is undefined in the model; the polls of the host are bounded by its constants
  (\<open>START_POLLS\<close>, \<open>DONE_POLLS\<close>); the K loop of \<open>mxgemm\<close> has \<open>dim_k\<close> as its fuel, which \<open>k_loop_terminates\<close> shows to be enough;
  a grid-stride loop has the number of elements, enough because the stride is positive; the loop
  that fills the scratchpad is \<open>while_option\<close>, with \<open>None\<close> for a loop without end, and it is shown to
  end.  \<open>int\<close>, \<open>size_t\<close> and \<open>uint32_t\<close> have 32 bits and wrap around or are undefined as in C.

  \<^bold>\<open>Not modelled.\<close>  The other kernels of \<open>src/kernels\<close> (their inner loops are inline assembly, vector
  code tuned by macros, or arithmetic on generated data), \<open>half.hpp\<close> (third-party), the assembly
  start-up files, the fused variant of \<open>mxgemm_lib.hpp\<close>, the convolution and neural-network routines
  and the inner routines of \<open>gemmini.h\<close> (sequences of instructions whose effect is defined by hardware
  that is not here), \<open>gemmini_mmio.h\<close>, the micro-benchmarks of \<open>mu_lib.h\<close>, generated headers, data and
  scripts.  The normalisations of \<open>matmul_cpu\<close> are compiled out.  Timing, weak memory order within a
  warp's own accesses and register pressure, which comments of the kernels discuss, are outside
  the model.
\<close>

end
